(* ===== verification/Prelude.thy ===== *)
theory Prelude
  imports Main "HOL-Library.Word" "HOL-Library.Multiset" "HOL-Library.Code_Target_Nat"
begin

text \<open>
  Shared vocabulary of the development: the machine integers of the Go program, the ways a
  Go statement can panic, the enumeration of a Go map (whose iteration order is unspecified),
  exchange of two list positions, and the theorem collections the components fill.
\<close>

type_synonym u8 = "8 word"
type_synonym u16 = "16 word"
type_synonym u64 = "64 word"

named_theorems big_simps \<open>evaluation of the big.Int operations\<close>
named_theorems store_simps \<open>effect of the state store operations on each field\<close>
named_theorems handler_simps \<open>unfolding of the event handlers\<close>

text \<open>The panics that the modelled statements can raise; \<open>PanicCall\<close> is an explicit \<open>panic(err)\<close>.\<close>

datatype panic = DivisionByZero | IndexOutOfRange | SliceOutOfRange | NilDereference | PanicCall

type_synonym 'a outcome = "panic + 'a"

section \<open>Enumerating a Go map\<close>

text \<open>
  \<open>for k, v := range m\<close> visits every key once, in an order the language leaves open. A model
  of such a loop takes the visiting order as an argument; \<open>enumerates ord S\<close> says that it is a
  possible one for the key set \<open>S\<close>.
\<close>

definition enumerates :: "'a list \<Rightarrow> 'a set \<Rightarrow> bool" where
  "enumerates ord S \<longleftrightarrow> distinct ord \<and> set ord = S"

lemma enumerates_set: "enumerates ord S \<Longrightarrow> set ord = S"
  by (simp add: enumerates_def)

lemma enumerates_distinct: "enumerates ord S \<Longrightarrow> distinct ord"
  by (simp add: enumerates_def)

lemma enumerates_finite: "enumerates ord S \<Longrightarrow> finite S"
  by (auto simp: enumerates_def)

lemma enumerates_empty [simp]: "enumerates ord {} \<longleftrightarrow> ord = []"
  by (auto simp: enumerates_def)

lemma enumerates_mset:
  assumes "enumerates xs S" and "enumerates ys S"
  shows "mset xs = mset ys"
  using assms by (metis enumerates_def set_eq_iff_mset_eq_distinct)

lemma enumerates_sum_list:
  assumes "enumerates ord S"
  shows "sum_list (map f ord) = sum f S"
  using assms by (simp add: enumerates_def sum_list_distinct_conv_sum_set)

lemma enumerates_length: "enumerates ord S \<Longrightarrow> length ord = card S"
  by (auto simp: enumerates_def distinct_card)

lemma enumerates_exists: "finite S \<Longrightarrow> \<exists>ord. enumerates ord S"
  unfolding enumerates_def using finite_distinct_list by blast

text \<open>The key/value pairs in the order of the visit.\<close>

fun visit :: "('k \<rightharpoonup> 'v) \<Rightarrow> 'k list \<Rightarrow> ('k \<times> 'v) list" where
  "visit m [] = []"
| "visit m (k # ks) = (case m k of None \<Rightarrow> visit m ks | Some v \<Rightarrow> (k, v) # visit m ks)"

lemma set_visit: "set (visit m ord) = {(k, v). k \<in> set ord \<and> m k = Some v}"
  by (induction ord) (auto split: option.splits)

lemma set_visit_enumerates: "enumerates ord (dom m) \<Longrightarrow> set (visit m ord) = {(k, v). m k = Some v}"
  by (auto simp: set_visit enumerates_set)

lemma visit_keys: "set ord \<subseteq> dom m \<Longrightarrow> map fst (visit m ord) = ord"
  by (induction ord) (auto split: option.splits)

lemma visit_conv_map: "set ord \<subseteq> dom m \<Longrightarrow> visit m ord = map (\<lambda>k. (k, the (m k))) ord"
  by (induction ord) (auto split: option.splits)

lemma distinct_visit: "enumerates ord (dom m) \<Longrightarrow> distinct (map fst (visit m ord))"
  by (simp add: visit_keys enumerates_def)

lemma sum_list_visit:
  "enumerates ord (dom m) \<Longrightarrow> sum_list (map (\<lambda>(k, v). f k v) (visit m ord)) = (\<Sum>k\<in>dom m. f k (the (m k)))"
  by (simp add: visit_conv_map enumerates_set comp_def enumerates_sum_list)

lemma mset_visit:
  assumes "enumerates xs (dom m)" and "enumerates ys (dom m)"
  shows "mset (visit m xs) = mset (visit m ys)"
  using enumerates_mset [OF assms] assms by (simp add: visit_conv_map enumerates_set)

section \<open>Exchanging two positions of a list\<close>

definition swap_at :: "'a list \<Rightarrow> nat \<Rightarrow> nat \<Rightarrow> 'a list" where
  "swap_at xs i j = xs[i := xs ! j, j := xs ! i]"

lemma length_swap_at [simp]: "length (swap_at xs i j) = length xs"
  by (simp add: swap_at_def)

lemma nth_swap_at:
  "i < length xs \<Longrightarrow> j < length xs \<Longrightarrow> k < length xs \<Longrightarrow>
   swap_at xs i j ! k = (if k = i then xs ! j else if k = j then xs ! i else xs ! k)"
  by (auto simp: swap_at_def nth_list_update)

lemma mset_swap_at [simp]:
  "i < length xs \<Longrightarrow> j < length xs \<Longrightarrow> mset (swap_at xs i j) = mset xs"
  by (simp add: swap_at_def mset_swap)

lemma set_swap_at [simp]:
  "i < length xs \<Longrightarrow> j < length xs \<Longrightarrow> set (swap_at xs i j) = set xs"
  by (metis mset_swap_at set_mset_mset)

lemma distinct_swap_at [simp]:
  "i < length xs \<Longrightarrow> j < length xs \<Longrightarrow> distinct (swap_at xs i j) = distinct xs"
  by (metis mset_swap_at mset_eq_imp_distinct_iff)

lemma map_swap_at: "i < length xs \<Longrightarrow> j < length xs \<Longrightarrow> map f (swap_at xs i j) = swap_at (map f xs) i j"
  by (simp add: swap_at_def map_update)

section \<open>Results that may have panicked\<close>

definition bind_outcome :: "'e + 'a \<Rightarrow> ('a \<Rightarrow> 'e + 'b) \<Rightarrow> 'e + 'b" where
  "bind_outcome r f = (case r of Inl e \<Rightarrow> Inl e | Inr a \<Rightarrow> f a)"

lemma bind_outcome_simps [simp]:
  "bind_outcome (Inl e) f = Inl e"
  "bind_outcome (Inr a) f = f a"
  by (simp_all add: bind_outcome_def)

lemma bind_outcome_Inr_iff:
  "bind_outcome r f = Inr b \<longleftrightarrow> (\<exists>a. r = Inr a \<and> f a = Inr b)"
  by (cases r) simp_all

lemma bind_outcome_Inl_iff:
  "bind_outcome r f = Inl e \<longleftrightarrow> r = Inl e \<or> (\<exists>a. r = Inr a \<and> f a = Inl e)"
  by (cases r) simp_all

lemma option_all_cases: "(\<forall>y. opt = Some y \<longrightarrow> P y) \<longleftrightarrow> (case opt of None \<Rightarrow> True | Some y \<Rightarrow> P y)"
  by (cases opt) auto

end
