(* ===== verification/GoStd.thy ===== *)
theory GoStd
  imports Prelude
begin

text \<open>
  The parts of Go's standard library the program computes with: \<open>math/big\<close> integers (as
  \<open>int\<close>), \<open>strings\<close>, \<open>strconv\<close> and the hexadecimal verb of \<open>fmt\<close>.
  Strings are lists of bytes; letter case is the ASCII one, which is all that addresses,
  hashes and numbers in hexadecimal need.
\<close>

unbundle bit_operations_syntax

section \<open>math/big\<close>

text \<open>
  \<open>Div\<close> is Euclidean division (the remainder is never negative); a zero divisor panics, which
  the definitions that divide by a value from the outside test with \<open>big_Div_checked\<close>.
\<close>

definition big_Div :: "int \<Rightarrow> int \<Rightarrow> int" where
  "big_Div x y = sgn y * (x div \<bar>y\<bar>)"

definition big_Div_checked :: "int \<Rightarrow> int \<Rightarrow> int outcome" where
  "big_Div_checked x y = (if y = 0 then Inl DivisionByZero else Inr (big_Div x y))"

lemma big_Div_pos [big_simps]: "0 < y \<Longrightarrow> big_Div x y = x div y"
  by (simp add: big_Div_def)

lemma big_Div_nonneg: "0 \<le> x \<Longrightarrow> 0 \<le> y \<Longrightarrow> 0 \<le> big_Div x y"
  by (auto simp: big_Div_def sgn_if pos_imp_zdiv_nonneg_iff)

lemma big_Div_euclid:
  assumes "y \<noteq> 0"
  shows "\<exists>r. x = big_Div x y * y + r \<and> 0 \<le> r \<and> r < \<bar>y\<bar>"
proof -
  have "x = (x div \<bar>y\<bar>) * \<bar>y\<bar> + x mod \<bar>y\<bar>" by simp
  moreover have "\<bar>y\<bar> = sgn y * y" by (simp add: abs_sgn)
  ultimately have "x = big_Div x y * y + x mod \<bar>y\<bar>"
    by (simp add: big_Div_def mult.assoc mult.left_commute)
  then show ?thesis using assms by (intro exI [of _ "x mod \<bar>y\<bar>"]) auto
qed

text \<open>\<open>Exp(10, y, nil)\<close>: an exponent that is not positive gives 1.\<close>

definition big_Exp10 :: "int \<Rightarrow> int" where
  "big_Exp10 y = (if y \<le> 0 then 1 else 10 ^ nat y)"

lemma big_Exp10_pos [simp]: "0 < big_Exp10 y"
  by (simp add: big_Exp10_def)

lemma big_Exp10_neq0 [simp]: "big_Exp10 y \<noteq> 0"
  by (simp add: big_Exp10_def)

lemma big_Exp10_ge1: "1 \<le> big_Exp10 y"
  by (simp add: big_Exp10_def)

definition big_Rsh :: "int \<Rightarrow> nat \<Rightarrow> int" where
  "big_Rsh x n = drop_bit n x"

definition big_And :: "int \<Rightarrow> int \<Rightarrow> int" where
  "big_And x y = (x AND y)"

lemma big_Rsh_div [big_simps]: "big_Rsh x n = x div 2 ^ n"
  by (simp add: big_Rsh_def drop_bit_eq_div)

lemma big_And_mask [big_simps]: "big_And x (2 ^ n - 1) = x mod 2 ^ n"
  by (simp add: big_And_def flip: mask_eq_exp_minus_1 take_bit_eq_mask take_bit_eq_mod)

lemma big_And_1 [big_simps]: "big_And x 1 = x mod 2"
  by (simp add: big_And_def and_one_eq)

lemma big_bit_test: "(big_And (big_Rsh x n) 1 = 1) = bit x n"
  by (simp add: big_And_1 big_Rsh_div bit_iff_odd odd_iff_mod_2_eq_one)

text \<open>\<open>Uint64\<close> and \<open>Int64\<close> keep the low 64 bits of the magnitude, \<open>Int64\<close> with the sign.\<close>

definition big_Uint64 :: "int \<Rightarrow> u64" where
  "big_Uint64 x = word_of_int \<bar>x\<bar>"

definition big_Int64 :: "int \<Rightarrow> int" where
  "big_Int64 x = sint (if x < 0 then - big_Uint64 x else big_Uint64 x)"

lemma big_Int64_small: "- (2 ^ 63) < x \<Longrightarrow> x < 2 ^ 63 \<Longrightarrow> big_Int64 x = x"
  by (auto simp: big_Int64_def big_Uint64_def sint_sbintrunc' signed_take_bit_int_eq_self simp flip: of_int_minus)

section \<open>strings\<close>

definition TrimPrefix :: "string \<Rightarrow> string \<Rightarrow> string" where
  "TrimPrefix s p = (if take (length p) s = p then drop (length p) s else s)"

definition lower_char :: "char \<Rightarrow> char" where
  "lower_char c = (let n = of_char c :: nat in if 65 \<le> n \<and> n \<le> 90 then char_of (n + 32) else c)"

definition ToLower :: "string \<Rightarrow> string" where
  "ToLower s = map lower_char s"

lemma lower_char_idem [simp]: "lower_char (lower_char c) = lower_char c"
proof -
  have "of_char (char_of (of_char c + 32 :: nat) :: char) = (of_char c + 32 :: nat)"
    if "of_char c \<le> (90 :: nat)"
    using that by (simp add: of_char_of)
  then show ?thesis by (auto simp: lower_char_def Let_def)
qed

lemma ToLower_idem [simp]: "ToLower (ToLower s) = ToLower s"
  by (simp add: ToLower_def)

lemma length_ToLower [simp]: "length (ToLower s) = length s"
  by (simp add: ToLower_def)

fun Contains :: "string \<Rightarrow> string \<Rightarrow> bool" where
  "Contains [] sub = (sub = [])"
| "Contains (c # cs) sub = (take (length sub) (c # cs) = sub \<or> Contains cs sub)"

text \<open>\<open>strings.Compare(a, b) > 0\<close> on byte strings.\<close>

fun str_less :: "string \<Rightarrow> string \<Rightarrow> bool" where
  "str_less _ [] = False"
| "str_less [] (_ # _) = True"
| "str_less (a # as) (b # bs) =
     (if (of_char a :: nat) < of_char b then True
      else if (of_char b :: nat) < of_char a then False else str_less as bs)"

text \<open>\<open>s[i:j]\<close> for bounds the code has checked.\<close>

definition slice :: "'a list \<Rightarrow> nat \<Rightarrow> nat \<Rightarrow> 'a list" where
  "slice s i j = take (j - i) (drop i s)"

lemma length_slice: "i \<le> j \<Longrightarrow> j \<le> length s \<Longrightarrow> length (slice s i j) = j - i"
  by (simp add: slice_def)

lemma of_char_inj: "(of_char a :: nat) = of_char b \<Longrightarrow> a = b"
  by (metis char_of_char)

lemma str_less_irrefl [simp]: "\<not> str_less s s"
  by (induction s) auto

lemma str_less_trans: "str_less a b \<Longrightarrow> str_less b c \<Longrightarrow> str_less a c"
proof (induction a b arbitrary: c rule: str_less.induct)
  case (3 a as b bs)
  then show ?case by (cases c) (auto split: if_splits)
next
  case (2 b bs)
  then show ?case by (cases c) auto
qed auto

lemma str_less_asym: "str_less a b \<Longrightarrow> \<not> str_less b a"
  using str_less_trans str_less_irrefl by blast

lemma str_less_total: "a \<noteq> b \<Longrightarrow> str_less a b \<or> str_less b a"
proof (induction a b rule: str_less.induct)
  case (1 a)
  then show ?case by (cases a) auto
next
  case (3 a as b bs)
  then show ?case using of_char_inj [of a b] by (cases "a = b") auto
qed auto

section \<open>strconv and the digits of math/big\<close>

text \<open>The value of a digit in the bases up to 36, in either letter case.\<close>

definition digit_val :: "char \<Rightarrow> nat option" where
  "digit_val c = (let n = of_char c :: nat in
     if 48 \<le> n \<and> n \<le> 57 then Some (n - 48)
     else if 97 \<le> n \<and> n \<le> 122 then Some (n - 87)
     else if 65 \<le> n \<and> n \<le> 90 then Some (n - 55)
     else None)"

fun digits_val :: "nat \<Rightarrow> nat \<Rightarrow> string \<Rightarrow> nat option" where
  "digits_val b acc [] = Some acc"
| "digits_val b acc (c # cs) =
     (case digit_val c of None \<Rightarrow> None
      | Some d \<Rightarrow> if d < b then digits_val b (acc * b + d) cs else None)"

text \<open>\<open>SetString(s, base)\<close> of \<open>math/big\<close>: an optional sign, then digits to the end.\<close>

definition big_SetString :: "string \<Rightarrow> nat \<Rightarrow> int option" where
  "big_SetString s b =
     (let (neg, ds) = (case s of [] \<Rightarrow> (False, [])
                       | c # cs \<Rightarrow> if c = CHR ''-'' then (True, cs)
                                  else if c = CHR ''+'' then (False, cs) else (False, s))
      in if ds = [] then None
         else map_option (\<lambda>n. if neg then - int n else int n) (digits_val b 0 ds))"

datatype num_error = ErrSyntax | ErrRange

text \<open>\<open>ParseUint(s, base, 64)\<close>: the value it returns beside the error (the callers ignore the error).\<close>

definition max_u64 :: nat where "max_u64 = 2 ^ 64 - 1"

fun parse_uint_loop :: "nat \<Rightarrow> nat \<Rightarrow> string \<Rightarrow> num_error option \<times> nat" where
  "parse_uint_loop b n [] = (None, n)"
| "parse_uint_loop b n (c # cs) =
     (case digit_val c of None \<Rightarrow> (Some ErrSyntax, 0)
      | Some d \<Rightarrow> if d \<ge> b then (Some ErrSyntax, 0)
                 else if n \<ge> max_u64 div b + 1 then (Some ErrRange, max_u64)
                 else if n * b + d > max_u64 then (Some ErrRange, max_u64)
                 else parse_uint_loop b (n * b + d) cs)"

definition ParseUint :: "string \<Rightarrow> nat \<Rightarrow> num_error option \<times> u64" where
  "ParseUint s b = (if s = [] then (Some ErrSyntax, 0)
     else let (e, n) = parse_uint_loop b 0 s in (e, of_nat n))"

text \<open>\<open>Atoi(s)\<close> on a 64-bit platform; \<open>None\<close> for either error.\<close>

definition Atoi :: "string \<Rightarrow> int option" where
  "Atoi s = (case big_SetString s 10 of None \<Rightarrow> None
     | Some n \<Rightarrow> if - (2 ^ 63) \<le> n \<and> n < 2 ^ 63 then Some n else None)"

text \<open>The verb \<open>%x\<close> on an unsigned number.\<close>

definition hex_char :: "nat \<Rightarrow> char" where
  "hex_char d = char_of (if d < 10 then 48 + d else 87 + d)"

fun hex_of_nat :: "nat \<Rightarrow> string" where
  "hex_of_nat n = (if n < 16 then [hex_char n] else hex_of_nat (n div 16) @ [hex_char (n mod 16)])"

declare hex_of_nat.simps [simp del]

subsection \<open>Reading back what was printed\<close>

lemma of_char_hex_char: "d < 16 \<Longrightarrow> of_char (hex_char d) = (if d < 10 then 48 + d else 87 + d)"
  by (simp add: hex_char_def of_char_of)

lemma digit_val_hex_char [simp]: "d < 16 \<Longrightarrow> digit_val (hex_char d) = Some d"
  by (auto simp: digit_val_def of_char_hex_char Let_def)

lemma digits_val_append:
  "digits_val b acc (xs @ ys) = Option.bind (digits_val b acc xs) (\<lambda>a. digits_val b a ys)"
  by (induction xs arbitrary: acc) (auto split: option.splits)

lemma hex_of_nat_nonempty [simp]: "hex_of_nat n \<noteq> []"
  by (subst hex_of_nat.simps) simp

lemma digits_val_hex: "digits_val 16 0 (hex_of_nat n) = Some n"
proof (induction n rule: hex_of_nat.induct)
  case (1 n)
  then show ?case
    by (subst hex_of_nat.simps) (auto simp: digits_val_append)
qed

lemma digits_val_zeros: "digits_val b 0 (replicate k CHR ''0'' @ s) = digits_val b 0 s" if "0 < b"
  using that by (induction k) (simp_all add: digit_val_def)

lemma hex_char_neq:
  assumes "d < 16" and "(of_char c :: nat) < 48 \<or> 102 < (of_char c :: nat)"
  shows "hex_char d \<noteq> c"
  using of_char_hex_char [OF assms(1)] assms by (auto split: if_splits)

lemma hex_char_no_sign: "d < 16 \<Longrightarrow> hex_char d \<noteq> CHR ''-'' \<and> hex_char d \<noteq> CHR ''+''"
  using hex_char_neq [of d "CHR ''-''"] hex_char_neq [of d "CHR ''+''"] by simp

lemma hex_char_no_x: "d < 16 \<Longrightarrow> hex_char d \<noteq> CHR ''x''"
  using hex_char_neq [of d "CHR ''x''"] by simp

lemma set_hex_of_nat: "set (hex_of_nat n) \<subseteq> hex_char ` {..<16}"
proof (induction n rule: hex_of_nat.induct)
  case (1 n)
  then show ?case by (subst hex_of_nat.simps) auto
qed

lemma length_hex_of_nat: "n < 16 ^ k \<Longrightarrow> 0 < k \<Longrightarrow> length (hex_of_nat n) \<le> k"
proof (induction n arbitrary: k rule: hex_of_nat.induct)
  case (1 n)
  show ?case
  proof (cases "n < 16")
    case True
    then show ?thesis using "1.prems" by (subst hex_of_nat.simps) simp
  next
    case False
    have "k \<noteq> 1" using False "1.prems" by auto
    then obtain k' where k: "k = Suc k'" and k': "0 < k'"
      using "1.prems"(2) by (cases k) auto
    have "n div 16 < 16 ^ k'" using "1.prems" k by (simp add: less_mult_imp_div_less)
    with "1.IH" False k' have "length (hex_of_nat (n div 16)) \<le> k'" by blast
    with False k show ?thesis by (subst hex_of_nat.simps) simp
  qed
qed

section \<open>encoding/json: a string\<close>

text \<open>
  \<open>json.Unmarshal\<close> of a raw value into a \<open>string\<close> that was empty before: the contents of a quoted
  string, the old (empty) value for \<open>null\<close>, an error for everything else. Results of a node are ASCII;
  texts with other bytes or with an escape for one (\<open>\u....\<close>) are outside the model and count as errors.
\<close>

definition json_escape :: "char \<Rightarrow> char option" where
  "json_escape c =
     (if c = CHR 0x22 \<or> c = CHR 0x5C \<or> c = CHR ''/'' then Some c
      else if c = CHR ''b'' then Some (CHR 0x08)
      else if c = CHR ''f'' then Some (CHR 0x0C)
      else if c = CHR ''n'' then Some (CHR 0x0A)
      else if c = CHR ''r'' then Some (CHR 0x0D)
      else if c = CHR ''t'' then Some (CHR 0x09)
      else None)"

fun json_chars :: "string \<Rightarrow> string option" where
  "json_chars [] = None"
| "json_chars (c # s) =
     (if c = CHR 0x22 then (if s = [] then Some [] else None)
      else if c = CHR 0x5C then
        (case s of [] \<Rightarrow> None
         | e # s' \<Rightarrow> (case json_escape e of None \<Rightarrow> None | Some d \<Rightarrow> map_option (Cons d) (json_chars s')))
      else if (of_char c :: nat) < 32 \<or> 128 \<le> (of_char c :: nat) then None
      else map_option (Cons c) (json_chars s))"

definition json_string :: "string \<Rightarrow> string option" where
  "json_string raw =
     (if raw = ''null'' then Some []
      else case raw of [] \<Rightarrow> None | c # s \<Rightarrow> if c = CHR 0x22 then json_chars s else None)"

definition json_plain :: "string \<Rightarrow> bool" where
  "json_plain s \<longleftrightarrow> (\<forall>c\<in>set s. c \<noteq> CHR 0x22 \<and> c \<noteq> CHR 0x5C \<and> 32 \<le> (of_char c :: nat) \<and> (of_char c :: nat) < 128)"

lemma json_string_quoted: "json_plain s \<Longrightarrow> json_string (CHR 0x22 # s @ [CHR 0x22]) = Some s"
proof -
  have "json_chars (s @ [CHR 0x22]) = Some s" if "json_plain s" for s
    using that by (induction s) (auto simp: json_plain_def)
  then show "json_plain s \<Longrightarrow> ?thesis" by (simp add: json_string_def)
qed

end
