(* ===== verification/RayMath.thy ===== *)
theory RayMath
  imports GoStd
begin

text \<open>
  \<open>pkg/math/math.go\<close> and \<open>pkg/conv/conv.go\<close>: the fixed-point arithmetic in RAY
  ($10^{27}$) and WAD ($10^{18}$) precision, and the hexadecimal helpers for ABI words. The
  Keccak hash is a third-party package and a parameter. The two formatting functions for log
  lines (\<open>FormatUSD\<close>, \<open>FormatHF\<close>) use \<open>big.Float\<close> and are not modelled.
\<close>

section \<open>Constants\<close>

definition DustThreshold :: int where "DustThreshold = 10"

definition RAY :: int where "RAY = 10 ^ 27"

definition WAD :: int where "WAD = 10 ^ 18"

definition HFSafetyThreshold :: int where "HFSafetyThreshold = 105 * 10 ^ 16"

definition HFLiquidationThreshold :: int where "HFLiquidationThreshold = WAD"

lemma RAY_pos [simp]: "0 < RAY" and WAD_pos [simp]: "0 < WAD"
  by (simp_all add: RAY_def WAD_def)

section \<open>Ray arithmetic\<close>

definition RayDiv :: "int \<Rightarrow> int \<Rightarrow> int" where
  "RayDiv a b =
     (if b = 0 then 0
      else let halfB = big_Div b 2; numerator = a * RAY + halfB in big_Div numerator b)"

definition RayMul :: "int \<Rightarrow> int \<Rightarrow> int" where
  "RayMul a b = (let halfRay = big_Div RAY 2; res = a * b + halfRay in big_Div res RAY)"

lemma RayMul_eq: "RayMul a b = (a * b + RAY div 2) div RAY"
  by (simp add: RayMul_def big_Div_pos)

lemma RayDiv_eq: "0 < b \<Longrightarrow> RayDiv a b = (a * RAY + b div 2) div b"
  by (simp add: RayDiv_def big_Div_pos)

lemma RayDiv_zero [simp]: "RayDiv a 0 = 0"
  by (simp add: RayDiv_def)

lemma RayMul_0_left [simp]: "RayMul 0 b = 0"
  by (simp add: RayMul_eq RAY_def)

lemma RayMul_nonneg: "0 \<le> a \<Longrightarrow> 0 \<le> b \<Longrightarrow> 0 \<le> RayMul a b"
  by (simp add: RayMul_eq RAY_def pos_imp_zdiv_nonneg_iff)

lemma RayDiv_nonneg: "0 \<le> a \<Longrightarrow> 0 \<le> b \<Longrightarrow> 0 \<le> RayDiv a b"
  by (cases "b = 0") (simp_all add: RayDiv_eq RAY_def pos_imp_zdiv_nonneg_iff)

lemma RayMul_mono:
  assumes "a \<le> a'" and "0 \<le> b"
  shows "RayMul a b \<le> RayMul a' b"
  using assms by (simp add: RayMul_eq zdiv_mono1 mult_right_mono)

lemma RayMul_mono_index:
  assumes "b \<le> b'" and "0 \<le> a"
  shows "RayMul a b \<le> RayMul a b'"
  using assms by (simp add: RayMul_eq zdiv_mono1 mult_left_mono)

text \<open>Rounding half up: the result is within half a unit of the exact quotient.\<close>

lemma half_up_bounds:
  fixes x d :: int
  assumes "0 < d"
  shows "2 * ((x + d div 2) div d * d) \<le> 2 * x + d"
    and "2 * x - d < 2 * ((x + d div 2) div d * d)"
proof -
  have split: "(x + d div 2) div d * d = x + d div 2 - (x + d div 2) mod d"
    by (simp add: minus_mod_eq_div_mult)
  have m: "0 \<le> (x + d div 2) mod d" "(x + d div 2) mod d < d"
    using assms by simp_all
  show "2 * ((x + d div 2) div d * d) \<le> 2 * x + d" using split m assms by linarith
  show "2 * x - d < 2 * ((x + d div 2) div d * d)" using split m assms by linarith
qed

lemma RayMul_bounds:
  "2 * (RayMul a b * RAY) \<le> 2 * (a * b) + RAY"
  "2 * (a * b) - RAY < 2 * (RayMul a b * RAY)"
  using half_up_bounds [of RAY "a * b"] by (simp_all add: RayMul_eq)

lemma RayDiv_bounds:
  assumes "0 < b"
  shows "2 * (RayDiv a b * b) \<le> 2 * (a * RAY) + b"
    and "2 * (a * RAY) - b < 2 * (RayDiv a b * b)"
  using half_up_bounds [of b "a * RAY"] assms by (simp_all add: RayDiv_eq)

lemma div_unique_bounds:
  fixes q x d :: int
  assumes "0 < d" and "q * d \<le> x" and "x < (q + 1) * d"
  shows "x div d = q"
proof (rule int_div_pos_eq [of x d q "x - q * d"])
  show "x = d * q + (x - q * d)" by simp
  show "0 \<le> x - q * d" "x - q * d < d" using assms by (simp_all add: algebra_simps)
qed

section \<open>Hexadecimal helpers\<close>

definition PadLeftZero :: "string \<Rightarrow> nat \<Rightarrow> string" where
  "PadLeftZero hexStr len =
     (let clean = TrimPrefix hexStr ''0x'' in
      if length clean \<ge> len then clean
      else replicate (len - length clean) CHR ''0'' @ clean)"

definition ParseHexAddress :: "string \<Rightarrow> string" where
  "ParseHexAddress hexStr =
     (let h = TrimPrefix hexStr ''0x'' in
      if length h \<ge> 40 then ''0x'' @ ToLower (drop (length h - 40) h)
      else ''0x'' @ ToLower h)"

definition ParseHexBigInt :: "string \<Rightarrow> int" where
  "ParseHexBigInt hexStr =
     (let h = TrimPrefix hexStr ''0x'' in
      if h = [] then 0
      else case big_SetString h 16 of None \<Rightarrow> 0 | Some val \<Rightarrow> val)"

text \<open>
  \<open>keccak\<close> is \<open>sha3.NewLegacyKeccak256\<close>: the 32 bytes of the digest. The hexadecimal verb
  prints two digits for each byte.
\<close>

definition hex_byte :: "u8 \<Rightarrow> string" where
  "hex_byte w = [hex_char (unat w div 16), hex_char (unat w mod 16)]"

definition GetMethodID :: "(string \<Rightarrow> u8 list) \<Rightarrow> string \<Rightarrow> string" where
  "GetMethodID keccak signature = ''0x'' @ concat (map hex_byte (take 4 (keccak signature)))"

definition GetTopicHash :: "(string \<Rightarrow> u8 list) \<Rightarrow> string \<Rightarrow> string" where
  "GetTopicHash keccak signature = ''0x'' @ concat (map hex_byte (keccak signature))"

text \<open>\<open>pkg/conv\<close>: the decimal text of a number written in hexadecimal; empty when it is not one.\<close>

fun dec_of_nat :: "nat \<Rightarrow> string" where
  "dec_of_nat n = (if n < 10 then [char_of (48 + n)] else dec_of_nat (n div 10) @ [char_of (48 + n mod 10)])"

declare dec_of_nat.simps [simp del]

definition big_String :: "int \<Rightarrow> string" where
  "big_String x = (if x < 0 then CHR ''-'' # dec_of_nat (nat (- x)) else dec_of_nat (nat x))"

definition HexToDecString :: "string \<Rightarrow> string" where
  "HexToDecString hexStr =
     (let h = TrimPrefix (TrimPrefix hexStr ''0x'') ''0X'' in
      if h = [] then []
      else case big_SetString h 16 of None \<Rightarrow> [] | Some n \<Rightarrow> big_String n)"

subsection \<open>Facts about the helpers\<close>

lemma TrimPrefix_hex: "set s \<subseteq> hex_char ` {..<16} \<Longrightarrow> TrimPrefix s ''0x'' = s"
proof -
  assume s: "set s \<subseteq> hex_char ` {..<16}"
  have "take 2 s \<noteq> ''0x''"
  proof
    assume "take 2 s = ''0x''"
    then have "CHR ''x'' \<in> set s" by (metis in_set_takeD list.set_intros(1,2))
    then show False using s hex_char_no_x by fastforce
  qed
  then show ?thesis by (simp add: TrimPrefix_def numeral_2_eq_2)
qed

lemma TrimPrefix_0x: "TrimPrefix (''0x'' @ s) ''0x'' = s"
  by (simp add: TrimPrefix_def)

lemma zero_is_hex_char: "CHR ''0'' = hex_char 0"
  by (rule of_char_inj) (simp add: of_char_hex_char)

lemma big_SetString_hex:
  assumes "s \<noteq> []" and "set s \<subseteq> hex_char ` {..<16}"
  shows "big_SetString s 16 = map_option int (digits_val 16 0 s)"
proof -
  from assms obtain c cs where s: "s = c # cs" by (cases s) auto
  with assms have "c \<noteq> CHR ''-'' \<and> c \<noteq> CHR ''+''" using hex_char_no_sign by fastforce
  then show ?thesis by (simp add: big_SetString_def s)
qed

lemma length_PadLeftZero: "length (PadLeftZero s n) = max n (length (TrimPrefix s ''0x''))"
  by (simp add: PadLeftZero_def Let_def)

lemma ParseHexBigInt_pad:
  assumes "set s \<subseteq> hex_char ` {..<16}" and "s \<noteq> []" and "digits_val 16 0 s = Some n"
  shows "ParseHexBigInt (PadLeftZero s len) = int n"
proof -
  define t where "t = PadLeftZero s len"
  have t: "t = replicate (len - length s) CHR ''0'' @ s"
    by (simp add: t_def PadLeftZero_def TrimPrefix_hex [OF assms(1)])
  have hex: "set t \<subseteq> hex_char ` {..<16}"
    using assms(1) by (auto simp: t zero_is_hex_char)
  have "digits_val 16 0 t = Some n" using assms(3) by (simp add: t digits_val_zeros)
  moreover have "t \<noteq> []" using assms(2) by (simp add: t)
  ultimately show ?thesis
    by (simp add: ParseHexBigInt_def TrimPrefix_hex [OF hex] big_SetString_hex hex flip: t_def)
qed

lemma ParseHexAddress_lower [simp]: "ToLower (ParseHexAddress s) = ParseHexAddress s"
proof -
  have "ToLower (''0x'' @ ToLower t) = ''0x'' @ ToLower t" for t
    by (simp add: ToLower_def) (simp add: lower_char_def)
  then show ?thesis unfolding ParseHexAddress_def Let_def by (simp only: if_split) simp
qed

lemma length_ParseHexAddress:
  "length (TrimPrefix s ''0x'') \<ge> 40 \<Longrightarrow> length (ParseHexAddress s) = 42"
  by (simp add: ParseHexAddress_def Let_def)

section \<open>Properties\<close>

text \<open>
  C40: converting a scaled balance to an actual one with \<open>RayMul\<close> and back with \<open>RayDiv\<close>
  loses nothing, for every index that has reached one RAY (an Aave index starts there and only
  grows), although both operations round.
\<close>

theorem ray_mul_div_roundtrip:
  assumes "RAY \<le> idx"
  shows "RayDiv (RayMul a idx) idx = a"
proof -
  let ?x = "RayMul a idx"
  have idx: "0 < idx" using assms RAY_pos by linarith
  have up: "2 * (?x * RAY) \<le> 2 * (a * idx) + RAY" and lo: "2 * (a * idx) - RAY < 2 * (?x * RAY)"
    by (rule RayMul_bounds)+
  have even: "RAY = 2 * (RAY div 2)" by (simp add: RAY_def)
  have half: "idx - 1 \<le> 2 * (idx div 2)" "2 * (idx div 2) \<le> idx" by linarith+
  have "a * idx \<le> ?x * RAY + idx div 2" using lo half assms even by linarith
  moreover have "?x * RAY + idx div 2 < (a + 1) * idx"
  proof (cases "idx = RAY")
    case True
    have "?x = a" using True by (simp add: RayMul_eq div_unique_bounds RAY_def)
    then show ?thesis using True by (simp add: algebra_simps RAY_def)
  next
    case False
    then have "RAY < idx" using assms by simp
    then show ?thesis using up half by (simp add: algebra_simps)
  qed
  ultimately have "(?x * RAY + idx div 2) div idx = a"
    using idx by (intro div_unique_bounds) simp_all
  then show ?thesis by (simp add: RayDiv_eq idx)
qed

theorem ray_mul_div_roundtrip_witness:
  "RAY \<le> 1000000000000000000000000001 \<and>
   RayDiv (RayMul 7 1000000000000000000000000001) 1000000000000000000000000001 = 7"
proof -
  have h: "RAY \<le> 1000000000000000000000000001" by (simp add: RAY_def)
  show ?thesis using h ray_mul_div_roundtrip [OF h, of 7] by simp
qed

text \<open>
  \<open>RayMul\<close> and \<open>RayDiv\<close> round to the nearest integer, halves upward: the result times
  the divisor differs from the exact product by at most half of the divisor.
\<close>

theorem ray_rounding_half_up:
  assumes "0 < b"
  shows "\<bar>2 * (RayMul a b * RAY - a * b)\<bar> \<le> RAY \<and>
         \<bar>2 * (RayDiv a b * b - a * RAY)\<bar> \<le> b"
  using RayMul_bounds [of a b] RayDiv_bounds [OF assms, of a] by (simp add: abs_le_iff)

theorem ray_rounding_half_up_witness:
  "(0 :: int) < 3 \<and> \<bar>2 * (RayDiv 2 3 * 3 - 2 * RAY)\<bar> \<le> 3"
proof -
  have h: "(0 :: int) < 3" by simp
  show ?thesis using h ray_rounding_half_up [OF h, of 2] by blast
qed

text \<open>
  a 256-bit number printed in hexadecimal, padded on the left to an ABI word of 64 digits and
  parsed again comes back unchanged, and the word has exactly 64 digits.
\<close>

theorem abi_word_roundtrip:
  assumes "n < 16 ^ 64"
  shows "length (PadLeftZero (''0x'' @ hex_of_nat n) 64) = 64 \<and>
         ParseHexBigInt (PadLeftZero (''0x'' @ hex_of_nat n) 64) = int n"
proof
  have hex: "TrimPrefix (hex_of_nat n) ''0x'' = hex_of_nat n"
    by (rule TrimPrefix_hex [OF set_hex_of_nat])
  have len: "length (hex_of_nat n) \<le> 64" using assms by (rule length_hex_of_nat) simp
  then show "length (PadLeftZero (''0x'' @ hex_of_nat n) 64) = 64"
    by (simp only: length_PadLeftZero TrimPrefix_0x)
  have "PadLeftZero (''0x'' @ hex_of_nat n) 64 = PadLeftZero (hex_of_nat n) 64"
    by (simp only: PadLeftZero_def TrimPrefix_0x hex)
  then show "ParseHexBigInt (PadLeftZero (''0x'' @ hex_of_nat n) 64) = int n"
    using ParseHexBigInt_pad [OF set_hex_of_nat _ digits_val_hex] by simp
qed

theorem abi_word_roundtrip_witness:
  "(255 :: nat) < 16 ^ 64 \<and> ParseHexBigInt (PadLeftZero (''0x'' @ hex_of_nat 255) 64) = 255"
proof -
  have h: "(255 :: nat) < 16 ^ 64" by simp
  show ?thesis using h conjunct2 [OF abi_word_roundtrip [OF h]] by simp
qed

end
