(* ===== verification/Models.thy ===== *)
theory Models
  imports RayMath
begin

text \<open>
  \<open>internal/models\<close>: the data the bot keeps per asset, per user and per log line. A field of
  type \<open>*big.Int\<close> that the program always fills is an \<open>int\<close>. A Go map is a partial
  function; a \<open>nil\<close> entry and a missing key read the same, so both are \<open>None\<close>.
\<close>

section \<open>domain.go\<close>

record global_index =
  gi_AssetAddress :: string
  LiquidityIndex :: int
  VariableBorrowIndex :: int
  LastUpdateBlock :: u64

record user_reserve =
  AssetAddress :: string
  ScaledATokenBalance :: int
  ScaledVariableDebt :: int
  UsageAsCollateralEnabledOnUser :: bool

record user_position =
  UserAddress :: string
  Reserves :: "string \<rightharpoonup> user_reserve"
  EModeCategoryId :: u8
  EModeFetched :: bool

record asset_config =
  Decimals :: u64
  LiquidationThreshold :: u16
  LiquidationBonus :: u16
  ReserveID :: u16
  ATokenAddress :: string
  VTokenAddress :: string
  LiquidationProtocolFee :: u16

record emode_category =
  em_Ltv :: u16
  em_LiquidationThreshold :: u16
  em_LiquidationBonus :: u16
  em_PriceSource :: string
  CollateralBitmap :: int

section \<open>external.go\<close>

record user_account_data =
  acct_TotalCollateralBase :: int
  acct_TotalDebtBase :: int
  acct_HealthFactor :: int

record rpc_log =
  log_Address :: string
  log_Topics :: "string list"
  log_Data :: string
  log_BlockNumber :: string
  log_TransactionHash :: string
  log_TransactionIndex :: string
  log_LogIndex :: string
  log_Removed :: bool

text \<open>The numbers behind the hexadecimal fields; a parse error is ignored by every caller.\<close>

definition log_block :: "rpc_log \<Rightarrow> u64" where
  "log_block l = snd (ParseUint (TrimPrefix (log_BlockNumber l) ''0x'') 16)"

definition log_idx :: "rpc_log \<Rightarrow> u64" where
  "log_idx l = snd (ParseUint (TrimPrefix (log_LogIndex l) ''0x'') 16)"

text \<open>\<open>LogList.Less\<close>: block number first, then the index of the log.\<close>

definition log_less :: "rpc_log \<Rightarrow> rpc_log \<Rightarrow> bool" where
  "log_less l m =
     (let blockI = log_block l; blockJ = log_block m in
      if blockI \<noteq> blockJ then blockI < blockJ
      else let idxI = log_idx l; idxJ = log_idx m in idxI < idxJ)"

definition LogList_Less :: "rpc_log list \<Rightarrow> nat \<Rightarrow> nat \<Rightarrow> bool" where
  "LogList_Less l i j = log_less (l ! i) (l ! j)"

definition LogList_Swap :: "rpc_log list \<Rightarrow> nat \<Rightarrow> nat \<Rightarrow> rpc_log list" where
  "LogList_Swap l i j = swap_at l i j"

record graph_reserve =
  g_UnderlyingAsset :: string
  g_ScaledATokenBalance :: string
  g_ScaledVariableDebt :: string
  g_UsageAsCollateralEnabledOnUser :: bool

record graph_user =
  g_ID :: string
  g_EModeCategoryId :: "string option"
  g_Reserves :: "graph_reserve list"

text \<open>\<open>GetEModeID\<close>: a missing, empty or unreadable id is 0; \<open>uint8(val)\<close> keeps the low byte.\<close>

definition GetEModeID :: "graph_user \<Rightarrow> u8" where
  "GetEModeID g =
     (case g_EModeCategoryId g of None \<Rightarrow> 0
      | Some i \<Rightarrow> if i = [] then 0
                 else case Atoi i of None \<Rightarrow> 0 | Some val \<Rightarrow> word_of_int val)"

section \<open>risk.go, the data\<close>

record user_risk_item =
  ri_UserAddress :: string
  HealthFactor :: int
  Index :: int
  NextCheckAt :: int

record risk_snapshot =
  snap_HealthFactor :: int
  RawCollateralBase :: int
  TotalCollateralBase :: int
  TotalDebtBase :: int
  CalculatedAtBlock :: u64

section \<open>The position of a log\<close>

text \<open>The pair (block, index) as numbers: \<open>log_less\<close> is the lexicographic order on it.\<close>

definition log_pos :: "rpc_log \<Rightarrow> nat \<times> nat" where
  "log_pos l = (unat (log_block l), unat (log_idx l))"

definition pos_less :: "nat \<times> nat \<Rightarrow> nat \<times> nat \<Rightarrow> bool" where
  "pos_less p q \<longleftrightarrow> fst p < fst q \<or> fst p = fst q \<and> snd p < snd q"

lemma log_less_pos: "log_less l m \<longleftrightarrow> pos_less (log_pos l) (log_pos m)"
  by (auto simp: log_less_def log_pos_def pos_less_def Let_def word_less_nat_alt word_unat_eq_iff)

lemma pos_less_trans: "pos_less p q \<Longrightarrow> pos_less q r \<Longrightarrow> pos_less p r"
  by (auto simp: pos_less_def)

lemma pos_less_irrefl [simp]: "\<not> pos_less p p"
  by (simp add: pos_less_def)

lemma pos_less_linear: "pos_less p q \<or> p = q \<or> pos_less q p"
  by (cases p; cases q) (auto simp: pos_less_def)

lemma pos_not_less_trans: "\<not> pos_less q p \<Longrightarrow> \<not> pos_less r q \<Longrightarrow> \<not> pos_less r p"
  by (auto simp: pos_less_def)

end
