(* ===== verification/GoHeap.thy ===== *)
theory GoHeap
  imports Prelude
begin

text \<open>
  \<open>container/heap\<close> of the Go library, which the risk engine calls on its list of users: the
  algorithms of \<open>Init\<close>, \<open>Push\<close>, \<open>Remove\<close> and \<open>Fix\<close> over a value of
  \<open>heap.Interface\<close>, here a record of the five methods. The locale \<open>heap_iface\<close> states
  what an implementation of the methods owes; inside it every algorithm is related to the same
  algorithm on a plain list, for which heap order is proved once.
\<close>

section \<open>The interface and the algorithms\<close>

record ('h, 'x) heap_interface =
  i_Len :: "'h \<Rightarrow> nat"
  i_Less :: "'h \<Rightarrow> nat \<Rightarrow> nat \<Rightarrow> bool"
  i_Swap :: "'h \<Rightarrow> nat \<Rightarrow> nat \<Rightarrow> 'h"
  i_Push :: "'h \<Rightarrow> 'x \<Rightarrow> 'h"
  i_Pop :: "'h \<Rightarrow> 'x \<times> 'h"

function heap_up :: "('h, 'x) heap_interface \<Rightarrow> 'h \<Rightarrow> nat \<Rightarrow> 'h" where
  "heap_up I h j =
     (let i = (j - 1) div 2 in
      if i = j \<or> \<not> i_Less I h j i then h else heap_up I (i_Swap I h i j) i)"
  by pat_completeness auto
termination
  by (relation "measure (\<lambda>(I, h, j). j)") auto

function heap_down_loop :: "('h, 'x) heap_interface \<Rightarrow> 'h \<Rightarrow> nat \<Rightarrow> nat \<Rightarrow> 'h \<times> nat" where
  "heap_down_loop I h i n =
     (let j1 = 2 * i + 1 in
      if j1 \<ge> n then (h, i)
      else let j2 = j1 + 1; j = (if j2 < n \<and> i_Less I h j2 j1 then j2 else j1) in
        if \<not> i_Less I h j i then (h, i)
        else heap_down_loop I (i_Swap I h i j) j n)"
  by pat_completeness auto
termination
  by (relation "measure (\<lambda>(I, h, i, n). n - i)") (auto split: if_splits)

declare heap_up.simps [simp del] heap_down_loop.simps [simp del]

definition heap_down :: "('h, 'x) heap_interface \<Rightarrow> 'h \<Rightarrow> nat \<Rightarrow> nat \<Rightarrow> 'h \<times> bool" where
  "heap_down I h i0 n = (let (h', i) = heap_down_loop I h i0 n in (h', i > i0))"

fun heap_init_loop :: "('h, 'x) heap_interface \<Rightarrow> nat \<Rightarrow> 'h \<Rightarrow> nat \<Rightarrow> 'h" where
  "heap_init_loop I n h 0 = h"
| "heap_init_loop I n h (Suc i) = heap_init_loop I n (fst (heap_down I h i n)) i"

definition heap_Init :: "('h, 'x) heap_interface \<Rightarrow> 'h \<Rightarrow> 'h" where
  "heap_Init I h = (let n = i_Len I h in heap_init_loop I n h (n div 2))"

definition heap_Push :: "('h, 'x) heap_interface \<Rightarrow> 'h \<Rightarrow> 'x \<Rightarrow> 'h" where
  "heap_Push I h x = (let h' = i_Push I h x in heap_up I h' (i_Len I h' - 1))"

definition heap_Remove :: "('h, 'x) heap_interface \<Rightarrow> 'h \<Rightarrow> nat \<Rightarrow> 'x \<times> 'h" where
  "heap_Remove I h i =
     (let n = i_Len I h - 1;
          h' = (if n \<noteq> i
                then let (h1, moved) = heap_down I (i_Swap I h i n) i n
                     in if \<not> moved then heap_up I h1 i else h1
                else h)
      in i_Pop I h')"

definition heap_Fix :: "('h, 'x) heap_interface \<Rightarrow> 'h \<Rightarrow> nat \<Rightarrow> 'h" where
  "heap_Fix I h i =
     (let (h1, moved) = heap_down I h i (i_Len I h) in if \<not> moved then heap_up I h1 i else h1)"

section \<open>The algorithms on a plain list\<close>

definition list_iface :: "('x \<Rightarrow> 'k::linorder) \<Rightarrow> ('x list, 'x) heap_interface" where
  "list_iface v =
     \<lparr>i_Len = length, i_Less = (\<lambda>xs i j. v (xs ! i) < v (xs ! j)), i_Swap = swap_at,
      i_Push = (\<lambda>xs x. xs @ [x]), i_Pop = (\<lambda>xs. (last xs, butlast xs))\<rparr>"

lemma list_iface_simps [simp]:
  "i_Len (list_iface v) = length"
  "i_Less (list_iface v) xs i j = (v (xs ! i) < v (xs ! j))"
  "i_Swap (list_iface v) = swap_at"
  "i_Push (list_iface v) xs x = xs @ [x]"
  "i_Pop (list_iface v) xs = (last xs, butlast xs)"
  by (simp_all add: list_iface_def)

definition par :: "nat \<Rightarrow> nat" where "par k = (k - 1) div 2"

lemma par_0 [simp]: "par 0 = 0"
  by (simp add: par_def)

lemma par_less [simp]: "0 < k \<Longrightarrow> par k < k"
  unfolding par_def by linarith

lemma par_le: "par k \<le> k"
  by (simp add: par_def)

lemma par_eq_self [simp]: "par k = k \<longleftrightarrow> k = 0"
proof
  assume "par k = k"
  then show "k = 0" using par_less [of k] by (metis gr0I less_irrefl)
qed simp

lemma children: "0 < k \<Longrightarrow> par k = i \<longleftrightarrow> k = 2 * i + 1 \<or> k = 2 * i + 2"
  unfolding par_def by linarith

lemma heap_up_par:
  "heap_up I h j =
     (if j = 0 \<or> \<not> i_Less I h j (par j) then h else heap_up I (i_Swap I h (par j) j) (par j))"
proof -
  have "heap_up I h j = (let i = par j in if i = j \<or> \<not> i_Less I h j i then h
     else heap_up I (i_Swap I h i j) i)"
    unfolding par_def by (rule heap_up.simps)
  then show ?thesis by (simp add: Let_def)
qed

lemma heap_up_unfold:
  "heap_up (list_iface v) xs j =
     (if j = 0 \<or> \<not> v (xs ! j) < v (xs ! par j) then xs
      else heap_up (list_iface v) (swap_at xs (par j) j) (par j))"
  using heap_up_par [of "list_iface v" xs j] by simp

definition heap_upto :: "('x \<Rightarrow> 'k::linorder) \<Rightarrow> 'x list \<Rightarrow> nat \<Rightarrow> bool" where
  "heap_upto v xs n \<longleftrightarrow> (\<forall>k<n. 0 < k \<longrightarrow> v (xs ! par k) \<le> v (xs ! k))"

text \<open>Heap order everywhere but between position \<open>i\<close> and its neighbours.\<close>

definition heap_except :: "('x \<Rightarrow> 'k::linorder) \<Rightarrow> 'x list \<Rightarrow> nat \<Rightarrow> nat \<Rightarrow> bool" where
  "heap_except v xs n i \<longleftrightarrow>
     (\<forall>k<n. 0 < k \<longrightarrow> k \<noteq> i \<longrightarrow> par k \<noteq> i \<longrightarrow> v (xs ! par k) \<le> v (xs ! k)) \<and>
     (\<forall>k<n. 0 < k \<longrightarrow> par k = i \<longrightarrow> 0 < i \<longrightarrow> v (xs ! par i) \<le> v (xs ! k))"

definition above_ok :: "('x \<Rightarrow> 'k::linorder) \<Rightarrow> 'x list \<Rightarrow> nat \<Rightarrow> bool" where
  "above_ok v xs i \<longleftrightarrow> (0 < i \<longrightarrow> v (xs ! par i) \<le> v (xs ! i))"

definition below_ok :: "('x \<Rightarrow> 'k::linorder) \<Rightarrow> 'x list \<Rightarrow> nat \<Rightarrow> nat \<Rightarrow> bool" where
  "below_ok v xs n i \<longleftrightarrow> (\<forall>k<n. 0 < k \<longrightarrow> par k = i \<longrightarrow> v (xs ! i) \<le> v (xs ! k))"

lemma heap_upto_iff:
  assumes "i < n"
  shows "heap_upto v xs n \<longleftrightarrow> heap_except v xs n i \<and> above_ok v xs i \<and> below_ok v xs n i"
proof
  assume h: "heap_upto v xs n"
  have "v (xs ! par i) \<le> v (xs ! k)" if "k < n" "0 < k" "par k = i" "0 < i" for k
  proof -
    have "v (xs ! par i) \<le> v (xs ! i)" using h that assms by (simp add: heap_upto_def)
    also have "\<dots> \<le> v (xs ! k)" using h that unfolding heap_upto_def by blast
    finally show ?thesis .
  qed
  then show "heap_except v xs n i \<and> above_ok v xs i \<and> below_ok v xs n i"
    using h assms unfolding heap_upto_def heap_except_def above_ok_def below_ok_def by blast
next
  assume "heap_except v xs n i \<and> above_ok v xs i \<and> below_ok v xs n i"
  then show "heap_upto v xs n"
    unfolding heap_upto_def heap_except_def above_ok_def below_ok_def by metis
qed

lemma heap_upto_min: "heap_upto v xs n \<Longrightarrow> k < n \<Longrightarrow> v (xs ! 0) \<le> v (xs ! k)"
proof (induction k rule: less_induct)
  case (less k)
  show ?case
  proof (cases "k = 0")
    case False
    then have "v (xs ! 0) \<le> v (xs ! par k)" using less by auto
    also have "\<dots> \<le> v (xs ! k)" using less.prems False by (simp add: heap_upto_def)
    finally show ?thesis .
  qed simp
qed

text \<open>Moving an element towards the root.\<close>

lemma up_step:
  assumes "heap_except v xs n j" "below_ok v xs n j" "0 < j" "j < n" "n \<le> length xs"
    and less: "v (xs ! j) < v (xs ! par j)"
  shows "heap_except v (swap_at xs (par j) j) n (par j) \<and> below_ok v (swap_at xs (par j) j) n (par j)"
proof -
  let ?i = "par j" and ?ys = "swap_at xs (par j) j"
  have i: "?i < j" using assms by simp
  have nth: "?ys ! k = (if k = ?i then xs ! j else if k = j then xs ! ?i else xs ! k)" if "k < n" for k
    using that assms i by (intro nth_swap_at) auto
  have rest: "v (xs ! par k) \<le> v (xs ! k)" if "k < n" "0 < k" "k \<noteq> j" "par k \<noteq> j" for k
    using assms that unfolding heap_except_def by blast
  have grand: "v (xs ! ?i) \<le> v (xs ! k)" if "k < n" "0 < k" "par k = j" for k
    using assms that unfolding heap_except_def by blast
  have "v (?ys ! par k) \<le> v (?ys ! k)" if k: "k < n" "0 < k" "k \<noteq> ?i" "par k \<noteq> ?i" for k
  proof (cases "par k = j")
    case True
    then have "k \<noteq> j" using par_less [OF k(2)] by auto
    then have "?ys ! k = xs ! k" "?ys ! par k = xs ! ?i"
      using True nth [of k] nth [of j] k assms i by simp_all
    then show ?thesis using grand [OF k(1,2) True] by simp
  next
    case False
    have pk: "par k < n" using k par_less [of k] by linarith
    show ?thesis
    proof (cases "k = j")
      case True
      then show ?thesis using k by simp
    next
      case kj: False
      have "?ys ! k = xs ! k" "?ys ! par k = xs ! par k"
        using False kj nth [of k] nth [OF pk] k by simp_all
      then show ?thesis using rest [OF k(1,2) kj False] by simp
    qed
  qed
  moreover have "v (?ys ! par ?i) \<le> v (?ys ! k)" if k: "k < n" "0 < k" "par k = ?i" "0 < ?i" for k
  proof -
    have pi: "par ?i < ?i" "par ?i < j" using k par_less [of ?i] i by (blast, linarith)
    then have p: "v (xs ! par ?i) \<le> v (xs ! ?i)" using rest [of ?i] i k assms by simp
    have r: "v (xs ! ?i) \<le> v (xs ! k)" if "k \<noteq> j" using rest [of k] k i that by simp
    have "?ys ! par ?i = xs ! par ?i" using nth [of "par ?i"] pi i assms by simp
    moreover have "?ys ! k = (if k = j then xs ! ?i else xs ! k)"
      using nth [of k] k by (cases "k = ?i") auto
    ultimately show ?thesis using p r by (auto intro: order_trans)
  qed
  moreover have "v (?ys ! ?i) \<le> v (?ys ! k)" if k: "k < n" "0 < k" "par k = ?i" for k
  proof -
    have r: "v (xs ! ?i) \<le> v (xs ! k)" if "k \<noteq> j" using rest [of k] k i that by simp
    have "k \<noteq> ?i" using k par_less [of k] by (metis less_irrefl)
    then have "?ys ! k = (if k = j then xs ! ?i else xs ! k)" using nth [of k] k by simp
    moreover have "?ys ! ?i = xs ! j" using nth [of ?i] i assms by simp
    ultimately show ?thesis using r less by (auto intro: order_trans less_imp_le)
  qed
  ultimately show ?thesis unfolding heap_except_def below_ok_def by blast
qed

lemma heap_up_list:
  assumes "heap_except v xs n j" "below_ok v xs n j" "j < n" "n \<le> length xs"
  shows "heap_upto v (heap_up (list_iface v) xs j) n"
  using assms
proof (induction j arbitrary: xs rule: less_induct)
  case (less j)
  show ?case
  proof (cases "j = 0 \<or> \<not> v (xs ! j) < v (xs ! par j)")
    case True
    then have "above_ok v xs j" by (auto simp: above_ok_def)
    then have "heap_upto v xs n" using less.prems by (simp add: heap_upto_iff [of j])
    then show ?thesis using True by (simp add: heap_up_unfold [of v xs j])
  next
    case False
    then have "0 < j" by simp
    with False less.prems have
      "heap_except v (swap_at xs (par j) j) n (par j) \<and> below_ok v (swap_at xs (par j) j) n (par j)"
      by (intro up_step) auto
    then have "heap_upto v (heap_up (list_iface v) (swap_at xs (par j) j) (par j)) n"
      using less.prems par_less [OF \<open>0 < j\<close>] by (intro less.IH) auto
    then show ?thesis using False by (simp add: heap_up_unfold [of v xs j])
  qed
qed

lemma heap_up_frame:
  assumes "j < length xs"
  shows "mset (heap_up (list_iface v) xs j) = mset xs \<and>
    length (heap_up (list_iface v) xs j) = length xs \<and>
    (\<forall>k. j < k \<longrightarrow> k < length xs \<longrightarrow> heap_up (list_iface v) xs j ! k = xs ! k)"
  using assms
proof (induction j arbitrary: xs rule: less_induct)
  case (less j)
  show ?case
  proof (cases "j = 0 \<or> \<not> v (xs ! j) < v (xs ! par j)")
    case True
    then show ?thesis by (simp add: heap_up_unfold [of v xs j])
  next
    case False
    then have i: "par j < j" by simp
    then have "par j < length (swap_at xs (par j) j)" using less.prems by simp
    from less.IH [OF i this] show ?thesis
      using False i less.prems by (auto simp: heap_up_unfold [of v xs j] nth_swap_at)
  qed
qed

text \<open>Moving an element away from the root, past its smaller child.\<close>

lemma down_step:
  assumes "heap_except v xs n i" "par j = i" "0 < j" "j < n" "n \<le> length xs"
    and small: "\<And>k. k < n \<Longrightarrow> 0 < k \<Longrightarrow> par k = i \<Longrightarrow> v (xs ! j) \<le> v (xs ! k)"
    and less: "v (xs ! j) < v (xs ! i)"
  shows "heap_except v (swap_at xs i j) n j \<and> above_ok v (swap_at xs i j) j"
proof -
  let ?ys = "swap_at xs i j"
  have i: "i < j" using assms par_less by blast
  have nth: "?ys ! k = (if k = i then xs ! j else if k = j then xs ! i else xs ! k)" if "k < n" for k
    using that assms i by (intro nth_swap_at) auto
  have rest: "v (xs ! par k) \<le> v (xs ! k)" if "k < n" "0 < k" "k \<noteq> i" "par k \<noteq> i" for k
    using assms that unfolding heap_except_def by blast
  have grand: "v (xs ! par i) \<le> v (xs ! k)" if "k < n" "0 < k" "par k = i" "0 < i" for k
    using assms that unfolding heap_except_def by blast
  have "v (?ys ! par k) \<le> v (?ys ! k)" if k: "k < n" "0 < k" "k \<noteq> j" "par k \<noteq> j" for k
  proof -
    have pk: "par k < k" "par k < n" using k par_less [of k] by linarith+
    consider "k = i" | "k \<noteq> i" "par k = i" | "k \<noteq> i" "par k \<noteq> i" by blast
    then show ?thesis
    proof cases
      case 1
      then show ?thesis using grand [of j] nth [of k] nth [of "par k"] pk k i assms by auto
    next
      case 2
      then show ?thesis using small [of k] nth [of k] nth [of "par k"] pk k by auto
    next
      case 3
      then show ?thesis using rest [of k] nth [of k] nth [of "par k"] pk k by auto
    qed
  qed
  moreover have "v (?ys ! par j) \<le> v (?ys ! k)" if k: "k < n" "0 < k" "par k = j" "0 < j" for k
    using rest [of k] nth [of k] nth [of "par j"] k i assms by auto
  moreover have "above_ok v ?ys j"
    using nth [of "par j"] nth [of j] i less assms by (auto simp: above_ok_def)
  ultimately show ?thesis unfolding heap_except_def by blast
qed

lemma down_stop:
  assumes "n \<le> 2 * i + 1"
  shows "below_ok v xs n i"
proof -
  have False if "k < n" "0 < k" "par k = i" for k using assms that children [of k i] by linarith
  then show ?thesis unfolding below_ok_def by blast
qed

text \<open>The smaller child that the loop picks.\<close>

definition small_child :: "('x \<Rightarrow> 'k::linorder) \<Rightarrow> 'x list \<Rightarrow> nat \<Rightarrow> nat \<Rightarrow> nat" where
  "small_child v xs i n =
     (if 2 * i + 2 < n \<and> v (xs ! (2 * i + 2)) < v (xs ! (2 * i + 1)) then 2 * i + 2 else 2 * i + 1)"

lemma small_child:
  assumes "2 * i + 1 < n"
  shows "par (small_child v xs i n) = i" "0 < small_child v xs i n" "i < small_child v xs i n"
    "small_child v xs i n < n"
proof -
  have c: "small_child v xs i n = 2 * i + 1 \<or> small_child v xs i n = 2 * i + 2"
    by (simp add: small_child_def)
  then show p: "0 < small_child v xs i n" by auto
  show "par (small_child v xs i n) = i" using c p by (simp add: children)
  show "i < small_child v xs i n" using c by auto
  show "small_child v xs i n < n" using assms by (simp add: small_child_def)
qed

lemma small_child_least:
  assumes "k < n" "0 < k" "par k = i"
  shows "v (xs ! small_child v xs i n) \<le> v (xs ! k)"
proof -
  have "k = 2 * i + 1 \<or> k = 2 * i + 2" using assms children by blast
  then show ?thesis using assms(1) by (auto simp: small_child_def)
qed

lemma heap_down_loop_unfold:
  "heap_down_loop (list_iface v) xs i n =
     (if n \<le> 2 * i + 1 then (xs, i)
      else if \<not> v (xs ! small_child v xs i n) < v (xs ! i) then (xs, i)
      else heap_down_loop (list_iface v) (swap_at xs i (small_child v xs i n)) (small_child v xs i n) n)"
  by (subst heap_down_loop.simps) (auto simp: Let_def small_child_def)

lemma heap_down_loop_list:
  assumes "heap_except v xs n i" "i < n" "n \<le> length xs"
    and "heap_down_loop (list_iface v) xs i n = (ys, i')"
  shows "heap_except v ys n i' \<and> below_ok v ys n i' \<and> i \<le> i' \<and> i' < n \<and>
    (i < i' \<longrightarrow> above_ok v ys i') \<and> (i' = i \<longrightarrow> ys = xs)"
  using assms
proof (induction "n - i" arbitrary: xs i rule: less_induct)
  case less
  let ?j = "small_child v xs i n"
  show ?case
  proof (cases "n \<le> 2 * i + 1 \<or> \<not> v (xs ! ?j) < v (xs ! i)")
    case True
    have "below_ok v xs n i"
    proof (cases "n \<le> 2 * i + 1")
      case False
      then have "v (xs ! i) \<le> v (xs ! ?j)" using True by simp
      then show ?thesis
        unfolding below_ok_def using small_child_least order_trans by blast
    qed (simp add: down_stop)
    then show ?thesis
      using True less.prems by (auto simp: heap_down_loop_unfold [of v xs i n] split: if_splits)
  next
    case False
    then have j: "par ?j = i" "0 < ?j" "i < ?j" "?j < n"
      using small_child [of i n v xs] by auto
    then have step: "heap_except v (swap_at xs i ?j) n ?j \<and> above_ok v (swap_at xs i ?j) ?j"
      using False less.prems(1,3) by (intro down_step) (simp_all add: small_child_least)
    have loop: "heap_down_loop (list_iface v) (swap_at xs i ?j) ?j n = (ys, i')"
      using less.prems False by (simp add: heap_down_loop_unfold [of v xs i n])
    have "n - ?j < n - i" using j by linarith
    from less.hyps [OF this _ j(4) _ loop] step less.prems(3)
    have "heap_except v ys n i' \<and> below_ok v ys n i' \<and> ?j \<le> i' \<and> i' < n \<and>
      (?j < i' \<longrightarrow> above_ok v ys i') \<and> (i' = ?j \<longrightarrow> ys = swap_at xs i ?j)" by simp
    then show ?thesis using step j by (cases "i' = ?j") auto
  qed
qed

lemma heap_down_loop_frame:
  assumes "i < n" "n \<le> length xs" "heap_down_loop (list_iface v) xs i n = (ys, i')"
  shows "mset ys = mset xs \<and> length ys = length xs \<and> (\<forall>k. n \<le> k \<longrightarrow> k < length xs \<longrightarrow> ys ! k = xs ! k)"
  using assms
proof (induction "n - i" arbitrary: xs i rule: less_induct)
  case less
  let ?j = "small_child v xs i n"
  show ?case
  proof (cases "n \<le> 2 * i + 1 \<or> \<not> v (xs ! ?j) < v (xs ! i)")
    case True
    then show ?thesis
      using less.prems by (auto simp: heap_down_loop_unfold [of v xs i n] split: if_splits)
  next
    case False
    then have j: "i < ?j" "?j < n" using small_child [of i n v xs] by auto
    have loop: "heap_down_loop (list_iface v) (swap_at xs i ?j) ?j n = (ys, i')"
      using less.prems False by (simp add: heap_down_loop_unfold [of v xs i n])
    have "n - ?j < n - i" using j by linarith
    from less.hyps [OF this j(2) _ loop] less.prems j show ?thesis
      by (auto simp: nth_swap_at)
  qed
qed

lemma heap_down_list:
  assumes "heap_except v xs n i" "i < n" "n \<le> length xs"
    and "heap_down (list_iface v) xs i n = (ys, moved)"
  shows "(moved \<longrightarrow> heap_upto v ys n) \<and> (\<not> moved \<longrightarrow> ys = xs \<and> below_ok v xs n i)"
    and "mset ys = mset xs" "length ys = length xs" "\<And>k. n \<le> k \<Longrightarrow> k < length xs \<Longrightarrow> ys ! k = xs ! k"
proof -
  obtain i' where loop: "heap_down_loop (list_iface v) xs i n = (ys, i')" and m: "moved = (i < i')"
    using assms(4) by (auto simp: heap_down_def split: prod.splits)
  note res = heap_down_loop_list [OF assms(1-3) loop]
  show "(moved \<longrightarrow> heap_upto v ys n) \<and> (\<not> moved \<longrightarrow> ys = xs \<and> below_ok v xs n i)"
    using res m by (auto simp: heap_upto_iff [of i' n])
  show "mset ys = mset xs" "length ys = length xs" "\<And>k. n \<le> k \<Longrightarrow> k < length xs \<Longrightarrow> ys ! k = xs ! k"
    using heap_down_loop_frame [OF assms(2,3) loop] by auto
qed

text \<open>What \<open>down\<close> followed by \<open>up\<close> achieves from a list that is wrong at one place only.\<close>

definition sift :: "('x \<Rightarrow> 'k::linorder) \<Rightarrow> 'x list \<Rightarrow> nat \<Rightarrow> nat \<Rightarrow> 'x list" where
  "sift v xs i n = (let (ys, moved) = heap_down (list_iface v) xs i n
                    in if \<not> moved then heap_up (list_iface v) ys i else ys)"

lemma sift_list:
  assumes "heap_except v xs n i" "i < n" "n \<le> length xs"
  shows "heap_upto v (sift v xs i n) n \<and> mset (sift v xs i n) = mset xs \<and>
    length (sift v xs i n) = length xs \<and>
    (\<forall>k. n \<le> k \<longrightarrow> k < length xs \<longrightarrow> sift v xs i n ! k = xs ! k)"
proof -
  obtain ys moved where d: "heap_down (list_iface v) xs i n = (ys, moved)" by fastforce
  note down = heap_down_list [OF assms d]
  show ?thesis
  proof (cases moved)
    case True
    then show ?thesis using d down by (simp add: sift_def)
  next
    case False
    then have ys: "ys = xs" and below: "below_ok v xs n i" using down by auto
    have "i < length xs" using assms by simp
    from heap_up_frame [OF this, of v] heap_up_list [OF assms(1) below assms(2,3)] assms
    show ?thesis using False d ys by (simp add: sift_def)
  qed
qed

text \<open>The three operations the program uses, on lists.\<close>

lemma list_Push:
  assumes "heap_upto v xs (length xs)"
  shows "heap_upto v (heap_Push (list_iface v) xs x) (Suc (length xs))"
    and "mset (heap_Push (list_iface v) xs x) = add_mset x (mset xs)"
    and "length (heap_Push (list_iface v) xs x) = Suc (length xs)"
proof -
  let ?ys = "xs @ [x]" and ?n = "Suc (length xs)"
  have P: "heap_Push (list_iface v) xs x = heap_up (list_iface v) ?ys (length xs)"
    by (simp add: heap_Push_def)
  have no_child: "par k \<noteq> length xs" if "k < ?n" "0 < k" for k
    using par_less [of k] that by linarith
  have "heap_except v ?ys ?n (length xs)"
    using assms no_child par_less unfolding heap_except_def heap_upto_def
    by (auto simp: nth_append less_Suc_eq) (metis less_trans par_less)+
  moreover have "below_ok v ?ys ?n (length xs)" using no_child by (auto simp: below_ok_def)
  ultimately show "heap_upto v (heap_Push (list_iface v) xs x) ?n"
    unfolding P by (intro heap_up_list) auto
  show "mset (heap_Push (list_iface v) xs x) = add_mset x (mset xs)"
    and "length (heap_Push (list_iface v) xs x) = ?n"
    unfolding P using heap_up_frame [of "length xs" ?ys v] by auto
qed

lemma list_Fix:
  assumes "heap_except v xs (length xs) i" "i < length xs"
  shows "heap_upto v (heap_Fix (list_iface v) xs i) (length xs)"
    and "mset (heap_Fix (list_iface v) xs i) = mset xs"
    and "length (heap_Fix (list_iface v) xs i) = length xs"
  using sift_list [OF assms] by (auto simp: heap_Fix_def sift_def)

lemma list_Remove:
  assumes "heap_upto v xs (length xs)" "i < length xs"
    and "heap_Remove (list_iface v) xs i = (x, ys)"
  shows "x = xs ! i" "heap_upto v ys (length ys)" "mset ys = mset xs - {#xs ! i#}"
    "length ys = length xs - 1"
proof -
  define n where "n = length xs - 1"
  have n: "n < length xs" "length xs = Suc n" using assms(2) by (auto simp: n_def)
  define zs where "zs = (if n \<noteq> i then sift v (swap_at xs i n) i n else xs)"
  have R: "x = last zs" "ys = butlast zs"
    using assms(3) by (auto simp: heap_Remove_def zs_def sift_def n_def Let_def split: prod.splits)
  have "heap_upto v zs n \<and> mset zs = mset xs \<and> length zs = length xs \<and> zs ! n = xs ! i"
  proof (cases "n = i")
    case True
    then show ?thesis using assms(1) n by (simp add: zs_def heap_upto_def)
  next
    case False
    let ?sw = "swap_at xs i n"
    have i: "i < n" using False assms(2) n by linarith
    have nth: "?sw ! k = (if k = i then xs ! n else if k = n then xs ! i else xs ! k)" if "k \<le> n" for k
      using that assms(2) n by (intro nth_swap_at) auto
    have ex: "heap_except v xs n i" using assms(1) i n by (simp add: heap_upto_iff [of i n] flip: heap_upto_iff)
        (meson heap_upto_def heap_upto_iff i less_SucI)
    have "heap_except v ?sw n i"
      unfolding heap_except_def
    proof (intro conjI allI impI)
      fix k assume k: "k < n" "0 < k" "k \<noteq> i" "par k \<noteq> i"
      then have "par k < n" using par_less [of k] by linarith
      then have "?sw ! k = xs ! k" "?sw ! par k = xs ! par k"
        using k nth [of k] nth [of "par k"] by auto
      then show "v (?sw ! par k) \<le> v (?sw ! k)" using ex k by (simp add: heap_except_def)
    next
      fix k assume k: "k < n" "0 < k" "par k = i" "0 < i"
      then have "par i < i" "par i < n" "i < k" using par_less [of k] par_le [of i] i by auto
      then have "?sw ! k = xs ! k" "?sw ! par i = xs ! par i"
        using nth [of k] nth [of "par i"] k i by auto
      then show "v (?sw ! par i) \<le> v (?sw ! k)" using ex k by (simp add: heap_except_def)
    qed
    from sift_list [OF this i] nth [of n] n False assms(2) show ?thesis by (simp add: zs_def)
  qed
  then have zs: "heap_upto v zs n" "mset zs = mset xs" "length zs = Suc n" "zs ! n = xs ! i"
    using n by auto
  then have "zs \<noteq> []" by auto
  then have zs_eq: "zs = ys @ [x]" "x = xs ! i"
    using R zs by (simp, simp add: last_conv_nth)
  then show "x = xs ! i" by simp
  show "mset ys = mset xs - {#xs ! i#}" using zs zs_eq by (metis add_diff_cancel_right' mset.simps mset_append)
  show "length ys = length xs - 1" using zs(3) zs_eq n by simp
  have len: "length ys = n" using zs(3) zs_eq by simp
  show "heap_upto v ys (length ys)"
    unfolding len heap_upto_def
  proof (intro allI impI)
    fix k assume k: "k < n" "0 < k"
    then have "zs ! k = ys ! k" "zs ! par k = ys ! par k"
      using zs_eq len le_less_trans [OF par_le k(1)] by (simp_all add: nth_append)
    then show "v (ys ! par k) \<le> v (ys ! k)" using zs(1) k unfolding heap_upto_def by metis
  qed
qed

section \<open>The contract of an implementation\<close>

text \<open>
  \<open>elems h\<close> is the list the implementation stands for, \<open>val h x\<close> the key its \<open>Less\<close>
  compares, \<open>inv\<close> its own invariant (an implementation may keep book of positions) and
  \<open>pushable h x\<close> what \<open>Push\<close> demands of a new element.
\<close>

locale heap_iface =
  fixes I :: "('h, 'x) heap_interface"
    and elems :: "'h \<Rightarrow> 'x list"
    and val :: "'h \<Rightarrow> 'x \<Rightarrow> 'k::linorder"
    and inv :: "'h \<Rightarrow> bool"
    and pushable :: "'h \<Rightarrow> 'x \<Rightarrow> bool"
  assumes Len: "inv h \<Longrightarrow> i_Len I h = length (elems h)"
    and Less: "inv h \<Longrightarrow> i < length (elems h) \<Longrightarrow> j < length (elems h) \<Longrightarrow>
      i_Less I h i j \<longleftrightarrow> val h (elems h ! i) < val h (elems h ! j)"
    and Swap: "inv h \<Longrightarrow> i < length (elems h) \<Longrightarrow> j < length (elems h) \<Longrightarrow>
      elems (i_Swap I h i j) = swap_at (elems h) i j \<and> val (i_Swap I h i j) = val h \<and> inv (i_Swap I h i j)"
    and Push: "inv h \<Longrightarrow> pushable h x \<Longrightarrow>
      elems (i_Push I h x) = elems h @ [x] \<and> val (i_Push I h x) = val h \<and> inv (i_Push I h x)"
    and Pop: "inv h \<Longrightarrow> elems h \<noteq> [] \<Longrightarrow> i_Pop I h = (x, h') \<Longrightarrow>
      x = last (elems h) \<and> elems h' = butlast (elems h) \<and> val h' = val h \<and> inv h'"
begin

lemma up_sim:
  assumes "inv h" "j < length (elems h)"
  shows "inv (heap_up I h j) \<and> val (heap_up I h j) = val h \<and>
    elems (heap_up I h j) = heap_up (list_iface (val h)) (elems h) j"
  using assms
proof (induction j arbitrary: h rule: less_induct)
  case (less j)
  show ?case
  proof (cases "j = 0 \<or> \<not> i_Less I h j (par j)")
    case True
    have "j \<noteq> 0 \<Longrightarrow> \<not> val h (elems h ! j) < val h (elems h ! par j)"
      using True less.prems Less [of h j "par j"] le_less_trans [OF par_le less.prems(2)] by auto
    then show ?thesis
      using True less.prems by (auto simp: heap_up_par [of I h j] heap_up_unfold [of "val h" "elems h" j])
  next
    case False
    then have p: "par j < j" by simp
    then have sw: "elems (i_Swap I h (par j) j) = swap_at (elems h) (par j) j"
      "val (i_Swap I h (par j) j) = val h" "inv (i_Swap I h (par j) j)"
      using Swap [of h "par j" j] less.prems by auto
    have "par j < length (elems (i_Swap I h (par j) j))" using sw p less.prems by simp
    from less.IH [OF p sw(3) this] sw False Less [of h j "par j"] less.prems p
    show ?thesis by (simp add: heap_up_par [of I h j] heap_up_unfold [of "val h" "elems h" j])
  qed
qed

lemma down_loop_sim:
  assumes "inv h" "i < n" "n \<le> length (elems h)"
  shows "inv (fst (heap_down_loop I h i n)) \<and> val (fst (heap_down_loop I h i n)) = val h \<and>
    heap_down_loop (list_iface (val h)) (elems h) i n =
      (elems (fst (heap_down_loop I h i n)), snd (heap_down_loop I h i n))"
  using assms
proof (induction "n - i" arbitrary: h i rule: less_induct)
  case less
  let ?j = "small_child (val h) (elems h) i n"
  have unf: "heap_down_loop I h i n =
     (if n \<le> 2 * i + 1 then (h, i)
      else if \<not> val h (elems h ! ?j) < val h (elems h ! i) then (h, i)
      else heap_down_loop I (i_Swap I h i ?j) ?j n)"
    using less.prems
    by (subst heap_down_loop.simps) (auto simp: Let_def small_child_def Less)
  show ?case
  proof (cases "n \<le> 2 * i + 1 \<or> \<not> val h (elems h ! ?j) < val h (elems h ! i)")
    case True
    then show ?thesis
      using less.prems by (auto simp: unf heap_down_loop_unfold [of "val h" "elems h" i n])
  next
    case False
    then have j: "i < ?j" "?j < n" using small_child [of i n "val h" "elems h"] by auto
    then have sw: "elems (i_Swap I h i ?j) = swap_at (elems h) i ?j"
      "val (i_Swap I h i ?j) = val h" "inv (i_Swap I h i ?j)"
      using Swap [of h i ?j] less.prems by auto
    have "n - ?j < n - i" using j by linarith
    from less.hyps [OF this sw(3) j(2)] sw less.prems False
    show ?thesis by (simp add: unf heap_down_loop_unfold [of "val h" "elems h" i n])
  qed
qed

lemma down_sim:
  assumes "inv h" "i < n" "n \<le> length (elems h)" "heap_down I h i n = (h', moved)"
  shows "inv h' \<and> val h' = val h \<and> heap_down (list_iface (val h)) (elems h) i n = (elems h', moved)"
  using down_loop_sim [OF assms(1-3)] assms(4) by (auto simp: heap_down_def split: prod.splits)

lemma Push_sim:
  assumes "inv h" "pushable h x"
  shows "inv (heap_Push I h x) \<and> val (heap_Push I h x) = val h \<and>
    elems (heap_Push I h x) = heap_Push (list_iface (val h)) (elems h) x"
  using Push [OF assms] up_sim [of "i_Push I h x" "length (elems h)"] Len [of "i_Push I h x"]
  by (simp add: heap_Push_def)

lemma Fix_sim:
  assumes "inv h" "i < length (elems h)"
  shows "inv (heap_Fix I h i) \<and> val (heap_Fix I h i) = val h \<and>
    elems (heap_Fix I h i) = heap_Fix (list_iface (val h)) (elems h) i"
proof -
  obtain h' moved where d: "heap_down I h i (length (elems h)) = (h', moved)" by fastforce
  note sim = down_sim [OF assms order_refl d]
  have "length (elems h') = length (elems h)"
    using heap_down_loop_frame [of i "length (elems h)" "elems h" "val h"] sim assms
    by (auto simp: heap_down_def split: prod.splits)
  then show ?thesis
    using sim d assms up_sim [of h' i] by (auto simp: heap_Fix_def Len)
qed

lemma Remove_sim:
  assumes "inv h" "i < length (elems h)" "heap_Remove I h i = (x, h')"
  shows "inv h' \<and> val h' = val h \<and> heap_Remove (list_iface (val h)) (elems h) i = (x, elems h')"
proof -
  define n where "n = length (elems h) - 1"
  have n: "n < length (elems h)" using assms(2) by (auto simp: n_def)
  define g where "g = (if n \<noteq> i then let (h1, moved) = heap_down I (i_Swap I h i n) i n
                        in if \<not> moved then heap_up I h1 i else h1 else h)"
  define zs where "zs = (if n \<noteq> i then let (ys, moved) = heap_down (list_iface (val h)) (swap_at (elems h) i n) i n
                        in if \<not> moved then heap_up (list_iface (val h)) ys i else ys else elems h)"
  have g: "inv g \<and> val g = val h \<and> elems g = zs \<and> length zs = length (elems h)"
  proof (cases "n = i")
    case True
    then show ?thesis using assms(1) by (simp add: g_def zs_def)
  next
    case False
    then have i: "i < n" using assms(2) by (auto simp: n_def)
    obtain h1 moved where d: "heap_down I (i_Swap I h i n) i n = (h1, moved)" by fastforce
    have sw: "elems (i_Swap I h i n) = swap_at (elems h) i n" "val (i_Swap I h i n) = val h"
      "inv (i_Swap I h i n)" using Swap [OF assms(1,2) n] by auto
    have "inv h1 \<and> val h1 = val h \<and>
        heap_down (list_iface (val h)) (swap_at (elems h) i n) i n = (elems h1, moved)"
      using down_sim [OF sw(3) i _ d] sw n by simp
    moreover from this have "length (elems h1) = length (elems h)"
      using heap_down_loop_frame [of i n "swap_at (elems h) i n" "val h"] i n
      by (auto simp: heap_down_def split: prod.splits)
    ultimately show ?thesis
      using up_sim [of h1 i] heap_up_frame [of i "elems h1" "val h"] d False i n
      by (auto simp: g_def zs_def)
  qed
  have "i_Pop I g = (x, h')" using assms by (simp add: heap_Remove_def g_def n_def Len Let_def cong: if_cong)
  moreover have "elems g \<noteq> []" using g n by auto
  ultimately have "x = last zs \<and> elems h' = butlast zs \<and> val h' = val h \<and> inv h'"
    using Pop [of g x h'] g by auto
  then show ?thesis by (simp add: heap_Remove_def zs_def n_def Let_def)
qed

text \<open>What a client of the heap relies on.\<close>

lemma Push_heap:
  assumes "inv h" "pushable h x" "heap_upto (val h) (elems h) (length (elems h))"
  shows "inv (heap_Push I h x)" "val (heap_Push I h x) = val h"
    "mset (elems (heap_Push I h x)) = add_mset x (mset (elems h))"
    "heap_upto (val h) (elems (heap_Push I h x)) (length (elems (heap_Push I h x)))"
  using Push_sim [OF assms(1,2)] list_Push [OF assms(3), of x] by simp_all

lemma Fix_heap:
  assumes "inv h" "i < length (elems h)" "heap_except (val h) (elems h) (length (elems h)) i"
  shows "inv (heap_Fix I h i)" "val (heap_Fix I h i) = val h"
    "mset (elems (heap_Fix I h i)) = mset (elems h)"
    "heap_upto (val h) (elems (heap_Fix I h i)) (length (elems (heap_Fix I h i)))"
  using Fix_sim [OF assms(1,2)] list_Fix [OF assms(3,2)] by simp_all

lemma Remove_heap:
  assumes "inv h" "i < length (elems h)" "heap_upto (val h) (elems h) (length (elems h))"
    and "heap_Remove I h i = (x, h')"
  shows "inv h'" "val h' = val h" "x = elems h ! i" "mset (elems h') = mset (elems h) - {#elems h ! i#}"
    "heap_upto (val h) (elems h') (length (elems h'))"
  using Remove_sim [OF assms(1,2,4)] list_Remove [OF assms(3,2)] by auto

end

end
