(* ===== verification/RiskHeap.thy ===== *)
theory RiskHeap
  imports Models GoHeap
begin

text \<open>
  \<open>internal/models/risk.go\<close>: the list of pointers to \<open>UserRiskItem\<close> objects that the risk
  engine keeps as a heap, and its five \<open>heap.Interface\<close> methods. The objects are shared with
  the lookup table of the store and \<open>Swap\<close>, \<open>Push\<close> and \<open>Pop\<close> write to them, so the
  model keeps an explicit memory: a pointer is a number, \<open>rh_mem\<close> the object it points to and
  \<open>rh_fresh\<close> the next unused pointer.
\<close>

record risk_heap =
  rh_items :: "nat list"
  rh_mem :: "nat \<Rightarrow> user_risk_item"
  rh_fresh :: nat

definition RiskHeap_Len :: "risk_heap \<Rightarrow> nat" where
  "RiskHeap_Len h = length (rh_items h)"

definition RiskHeap_Less :: "risk_heap \<Rightarrow> nat \<Rightarrow> nat \<Rightarrow> bool" where
  "RiskHeap_Less h i j =
     (HealthFactor (rh_mem h (rh_items h ! i)) < HealthFactor (rh_mem h (rh_items h ! j)))"

definition set_index :: "nat \<Rightarrow> int \<Rightarrow> risk_heap \<Rightarrow> risk_heap" where
  "set_index p i h = h\<lparr>rh_mem := (rh_mem h)(p := (rh_mem h p)\<lparr>Index := i\<rparr>)\<rparr>"

definition RiskHeap_Swap :: "risk_heap \<Rightarrow> nat \<Rightarrow> nat \<Rightarrow> risk_heap" where
  "RiskHeap_Swap h i j =
     (let h1 = h\<lparr>rh_items := swap_at (rh_items h) i j\<rparr>;
          h2 = set_index (rh_items h1 ! i) (int i) h1
      in set_index (rh_items h2 ! j) (int j) h2)"

definition RiskHeap_Push :: "risk_heap \<Rightarrow> nat \<Rightarrow> risk_heap" where
  "RiskHeap_Push h item =
     (let n = length (rh_items h); h1 = set_index item (int n) h
      in h1\<lparr>rh_items := rh_items h1 @ [item]\<rparr>)"

definition RiskHeap_Pop :: "risk_heap \<Rightarrow> nat \<times> risk_heap" where
  "RiskHeap_Pop h =
     (let old = rh_items h; n = length old; item = old ! (n - 1); h1 = set_index item (-1) h
      in (item, h1\<lparr>rh_items := take (n - 1) old\<rparr>))"

definition RiskHeap_iface :: "(risk_heap, nat) heap_interface" where
  "RiskHeap_iface =
     \<lparr>i_Len = RiskHeap_Len, i_Less = RiskHeap_Less, i_Swap = RiskHeap_Swap,
      i_Push = RiskHeap_Push, i_Pop = RiskHeap_Pop\<rparr>"

section \<open>Invariant: every item knows its position\<close>

definition hf_of :: "risk_heap \<Rightarrow> nat \<Rightarrow> int" where
  "hf_of h p = HealthFactor (rh_mem h p)"

definition rh_inv :: "risk_heap \<Rightarrow> bool" where
  "rh_inv h \<longleftrightarrow> distinct (rh_items h) \<and> (\<forall>p \<in> set (rh_items h). p < rh_fresh h) \<and>
     (\<forall>i < length (rh_items h). Index (rh_mem h (rh_items h ! i)) = int i)"

text \<open>The heap methods write no field of an object but \<open>Index\<close>.\<close>

definition same_objects :: "risk_heap \<Rightarrow> risk_heap \<Rightarrow> bool" where
  "same_objects h h' \<longleftrightarrow> rh_fresh h' = rh_fresh h \<and>
     (\<forall>p. ri_UserAddress (rh_mem h' p) = ri_UserAddress (rh_mem h p) \<and>
          HealthFactor (rh_mem h' p) = HealthFactor (rh_mem h p) \<and>
          NextCheckAt (rh_mem h' p) = NextCheckAt (rh_mem h p))"

lemma same_objects_refl [simp]: "same_objects h h"
  by (simp add: same_objects_def)

lemma same_objects_hf: "same_objects h h' \<Longrightarrow> hf_of h' = hf_of h"
  by (auto simp: same_objects_def hf_of_def)

lemma set_index_simps [simp]:
  "rh_items (set_index p i h) = rh_items h"
  "rh_fresh (set_index p i h) = rh_fresh h"
  "rh_mem (set_index p i h) q = (if q = p then (rh_mem h p)\<lparr>Index := i\<rparr> else rh_mem h q)"
  by (simp_all add: set_index_def)

lemma hf_of_set_index [simp]: "hf_of (set_index p i h) = hf_of h"
  by (auto simp: hf_of_def)

lemma same_objects_set_index [simp]: "same_objects h (set_index p i h') = same_objects h h'"
  by (auto simp: same_objects_def)

lemma update_items_simps [simp]:
  "hf_of (h\<lparr>rh_items := xs\<rparr>) = hf_of h"
  "same_objects h (h'\<lparr>rh_items := xs\<rparr>) = same_objects h h'"
  by (auto simp: hf_of_def same_objects_def)

lemma Swap_items [simp]: "rh_items (RiskHeap_Swap h i j) = swap_at (rh_items h) i j"
  by (simp add: RiskHeap_Swap_def Let_def)

lemma Swap_frame [simp]:
  "hf_of (RiskHeap_Swap h i j) = hf_of h"
  "rh_fresh (RiskHeap_Swap h i j) = rh_fresh h"
  "same_objects h0 (RiskHeap_Swap h i j) = same_objects h0 h"
  by (simp_all add: RiskHeap_Swap_def Let_def)

lemma Swap_inv:
  assumes inv: "rh_inv h" and ij: "i < length (rh_items h)" "j < length (rh_items h)"
  shows "rh_inv (RiskHeap_Swap h i j)"
proof -
  let ?xs = "rh_items h" and ?ys = "swap_at (rh_items h) i j"
  have d: "distinct ?xs" using inv by (simp add: rh_inv_def)
  have i: "?ys ! i = ?xs ! j" and j: "?ys ! j = ?xs ! i"
    using ij by (simp_all add: nth_swap_at)
  have "Index (rh_mem (RiskHeap_Swap h i j) (?ys ! k)) = int k" if k: "k < length ?xs" for k
  proof -
    have "Index (rh_mem h (?xs ! k)) = int k" using inv k by (simp add: rh_inv_def)
    moreover have "?ys ! k = (if k = i then ?xs ! j else if k = j then ?xs ! i else ?xs ! k)"
      using ij k by (simp add: nth_swap_at)
    ultimately show ?thesis
      using d ij k i j by (auto simp: RiskHeap_Swap_def Let_def nth_eq_iff_index_eq)
  qed
  then show ?thesis using inv ij by (simp add: rh_inv_def)
qed

lemma Push_inv:
  assumes "rh_inv h" "p \<notin> set (rh_items h)" "p < rh_fresh h"
  shows "rh_inv (RiskHeap_Push h p)"
  using assms
  by (auto simp: rh_inv_def RiskHeap_Push_def Let_def nth_append less_Suc_eq)

lemma Pop_facts:
  assumes "rh_inv h" "rh_items h \<noteq> []" "RiskHeap_Pop h = (p, h')"
  shows "p = last (rh_items h)" "rh_items h' = butlast (rh_items h)" "hf_of h' = hf_of h"
    "same_objects h0 h' = same_objects h0 h" "rh_inv h'"
proof -
  let ?xs = "rh_items h"
  have last: "?xs ! (length ?xs - 1) = last ?xs" using assms(2) by (simp add: last_conv_nth)
  have take: "take (length ?xs - 1) ?xs = butlast ?xs" by (simp add: butlast_conv_take)
  have h': "h' = (set_index (last ?xs) (-1) h)\<lparr>rh_items := butlast ?xs\<rparr>" "p = last ?xs"
    using assms(3) last take by (auto simp: RiskHeap_Pop_def Let_def)
  then show "p = last ?xs" "rh_items h' = butlast ?xs" "hf_of h' = hf_of h"
    "same_objects h0 h' = same_objects h0 h" by simp_all
  have "distinct (butlast ?xs @ [last ?xs])" using assms(1,2) by (simp add: rh_inv_def)
  then have "last ?xs \<notin> set (butlast ?xs)" by simp
  then show "rh_inv h'"
    using assms(1) unfolding rh_inv_def h'
    by (auto simp: nth_butlast distinct_butlast dest: in_set_butlastD)
       (metis length_butlast nth_butlast nth_mem One_nat_def)
qed

section \<open>The heap contract holds for this implementation\<close>

text \<open>
  The parameter \<open>h0\<close> is the heap before the operation: the contract then also carries that the
  objects keep their other fields.
\<close>

interpretation rh: heap_iface RiskHeap_iface rh_items hf_of
  "\<lambda>h. rh_inv h \<and> same_objects h0 h" "\<lambda>h p. p \<notin> set (rh_items h) \<and> p < rh_fresh h0"
  for h0
proof (unfold_locales, goal_cases)
  case (1 h)
  then show ?case by (simp add: RiskHeap_iface_def RiskHeap_Len_def)
next
  case (2 h i j)
  then show ?case by (simp add: RiskHeap_iface_def RiskHeap_Less_def hf_of_def)
next
  case (3 h i j)
  then show ?case by (simp add: RiskHeap_iface_def Swap_inv)
next
  case (4 h p)
  then have "rh_fresh h = rh_fresh h0" by (simp add: same_objects_def)
  with 4 have "rh_inv (RiskHeap_Push h p)" by (intro Push_inv) simp_all
  with 4 show ?case by (simp add: RiskHeap_iface_def) (simp add: RiskHeap_Push_def Let_def)
next
  case (5 h p h')
  then show ?case using Pop_facts [of h p h'] by (simp add: RiskHeap_iface_def)
qed

end
