(* ===== verification/Store.thy ===== *)
theory Store
  imports RiskHeap
begin

text \<open>
  \<open>internal/store\<close>: the in-memory state of the bot. Every method takes the store's lock for
  its whole body, so each is one atomic state transformer. The getters \<open>Prices()\<close>,
  \<open>GlobalIndices()\<close> and so on return the maps themselves; a model of their caller reads or
  updates the field.
\<close>

section \<open>State\<close>

record state_store =
  globalIndices :: "string \<rightharpoonup> global_index"
  userPositions :: "string \<rightharpoonup> user_position"
  anchorBlock :: u64
  prices :: "string \<rightharpoonup> int"
  assetConfigs :: "string \<rightharpoonup> asset_config"
  assetSubscribers :: "string \<rightharpoonup> string set"
  riskHeap :: risk_heap
  heapLookup :: "string \<rightharpoonup> nat"
  eModeCategories :: "u8 \<rightharpoonup> emode_category"
  currentBlock :: u64

definition empty_risk_item :: user_risk_item where
  "empty_risk_item = \<lparr>ri_UserAddress = [], HealthFactor = 0, Index = 0, NextCheckAt = 0\<rparr>"

definition NewStateStore :: state_store where
  "NewStateStore =
     \<lparr>globalIndices = Map.empty, userPositions = Map.empty, anchorBlock = 0, prices = Map.empty,
      assetConfigs = Map.empty, assetSubscribers = Map.empty,
      riskHeap = \<lparr>rh_items = [], rh_mem = (\<lambda>_. empty_risk_item), rh_fresh = 0\<rparr>,
      heapLookup = Map.empty, eModeCategories = Map.empty, currentBlock = 0\<rparr>"

section \<open>Operations\<close>

definition GetAssetPrice :: "state_store \<Rightarrow> string \<Rightarrow> int option" where
  "GetAssetPrice s asset = prices s (ToLower asset)"

definition GetAssetConfig :: "state_store \<Rightarrow> string \<Rightarrow> asset_config option" where
  "GetAssetConfig s asset = assetConfigs s (ToLower asset)"

definition GetEModeCategory :: "state_store \<Rightarrow> u8 \<Rightarrow> emode_category option" where
  "GetEModeCategory s categoryId = eModeCategories s categoryId"

definition SetCurrentBlock :: "u64 \<Rightarrow> state_store \<Rightarrow> state_store" where
  "SetCurrentBlock block s = (if block > currentBlock s then s\<lparr>currentBlock := block\<rparr> else s)"

definition GetCurrentBlock :: "state_store \<Rightarrow> u64" where
  "GetCurrentBlock s = currentBlock s"

definition SetAnchorBlock :: "u64 \<Rightarrow> state_store \<Rightarrow> state_store" where
  "SetAnchorBlock block s =
     (let s1 = s\<lparr>anchorBlock := block\<rparr>
      in if currentBlock s1 = 0 then s1\<lparr>currentBlock := block\<rparr> else s1)"

definition SetGlobalIndex :: "string \<Rightarrow> global_index \<Rightarrow> state_store \<Rightarrow> state_store" where
  "SetGlobalIndex asset index s = s\<lparr>globalIndices := (globalIndices s)(ToLower asset \<mapsto> index)\<rparr>"

definition GetGlobalIndex :: "state_store \<Rightarrow> string \<Rightarrow> global_index option" where
  "GetGlobalIndex s asset = globalIndices s (ToLower asset)"

definition SetAssetPrice :: "string \<Rightarrow> int \<Rightarrow> state_store \<Rightarrow> state_store" where
  "SetAssetPrice asset price s = s\<lparr>prices := (prices s)(ToLower asset \<mapsto> price)\<rparr>"

definition SetAssetConfig :: "string \<Rightarrow> asset_config \<Rightarrow> state_store \<Rightarrow> state_store" where
  "SetAssetConfig asset config s = s\<lparr>assetConfigs := (assetConfigs s)(ToLower asset \<mapsto> config)\<rparr>"

definition SetEModeCategory :: "u8 \<Rightarrow> emode_category \<Rightarrow> state_store \<Rightarrow> state_store" where
  "SetEModeCategory categoryId category s =
     s\<lparr>eModeCategories := (eModeCategories s)(categoryId \<mapsto> category)\<rparr>"

text \<open>The two halves that several methods share: creating a position, and subscribing a user.\<close>

definition new_position :: "string \<Rightarrow> user_position" where
  "new_position uAddr =
     \<lparr>UserAddress = uAddr, Reserves = Map.empty, EModeCategoryId = 0, EModeFetched = False\<rparr>"

definition ensure_position :: "string \<Rightarrow> state_store \<Rightarrow> state_store" where
  "ensure_position uAddr s =
     (case userPositions s uAddr of
        None \<Rightarrow> s\<lparr>userPositions := (userPositions s)(uAddr \<mapsto> new_position uAddr)\<rparr>
      | Some _ \<Rightarrow> s)"

definition position_of :: "state_store \<Rightarrow> string \<Rightarrow> user_position" where
  "position_of s uAddr = (case userPositions s uAddr of None \<Rightarrow> new_position uAddr | Some p \<Rightarrow> p)"

definition subscribe :: "string \<Rightarrow> string \<Rightarrow> state_store \<Rightarrow> state_store" where
  "subscribe asset uAddr s =
     s\<lparr>assetSubscribers := (assetSubscribers s)
        (asset \<mapsto> insert uAddr (case assetSubscribers s asset of None \<Rightarrow> {} | Some S \<Rightarrow> S))\<rparr>"

definition put_reserve :: "string \<Rightarrow> string \<Rightarrow> user_reserve \<Rightarrow> state_store \<Rightarrow> state_store" where
  "put_reserve uAddr asset r s =
     (let p = position_of s uAddr in
      s\<lparr>userPositions := (userPositions s)(uAddr \<mapsto> p\<lparr>Reserves := (Reserves p)(asset \<mapsto> r)\<rparr>)\<rparr>)"

definition UpsertUserReserve :: "string \<Rightarrow> user_reserve \<Rightarrow> state_store \<Rightarrow> state_store" where
  "UpsertUserReserve userAddr reserve s =
     (let uAddr = ToLower userAddr; asset = ToLower (AssetAddress reserve);
          s1 = ensure_position uAddr s;
          s2 = put_reserve uAddr asset reserve s1
      in subscribe asset uAddr s2)"

definition SetUserEMode :: "string \<Rightarrow> u8 \<Rightarrow> state_store \<Rightarrow> state_store" where
  "SetUserEMode userAddr categoryId s =
     (let uAddr = ToLower userAddr; s1 = ensure_position uAddr s; p = position_of s1 uAddr in
      s1\<lparr>userPositions := (userPositions s1)
          (uAddr \<mapsto> p\<lparr>EModeCategoryId := categoryId, EModeFetched := True\<rparr>)\<rparr>)"

definition zero_reserve :: "string \<Rightarrow> user_reserve" where
  "zero_reserve assetAddr =
     \<lparr>AssetAddress = assetAddr, ScaledATokenBalance = 0, ScaledVariableDebt = 0,
      UsageAsCollateralEnabledOnUser = False\<rparr>"

text \<open>
  \<open>GetUserReserve\<close> creates what is missing and returns a pointer to the entry. The state
  transformer below is its effect; \<open>reserve_at\<close> reads through the pointer and
  \<open>update_reserve\<close> writes through it.
\<close>

definition GetUserReserve :: "string \<Rightarrow> string \<Rightarrow> state_store \<Rightarrow> state_store" where
  "GetUserReserve userAddr asset s =
     (let uAddr = ToLower userAddr; assetAddr = ToLower asset; s1 = ensure_position uAddr s in
      case Reserves (position_of s1 uAddr) assetAddr of
        None \<Rightarrow> subscribe assetAddr uAddr (put_reserve uAddr assetAddr (zero_reserve assetAddr) s1)
      | Some _ \<Rightarrow> s1)"

definition reserve_at :: "state_store \<Rightarrow> string \<Rightarrow> string \<Rightarrow> user_reserve option" where
  "reserve_at s u a = Option.bind (userPositions s u) (\<lambda>p. Reserves p a)"

definition update_reserve ::
    "string \<Rightarrow> string \<Rightarrow> (user_reserve \<Rightarrow> user_reserve) \<Rightarrow> state_store \<Rightarrow> state_store" where
  "update_reserve userAddr asset f s =
     (let uAddr = ToLower userAddr; assetAddr = ToLower asset in
      case reserve_at s uAddr assetAddr of None \<Rightarrow> s
      | Some r \<Rightarrow> put_reserve uAddr assetAddr (f r) s)"

text \<open>\<open>GetSubscribers\<close> ranges over the set of users: \<open>ord\<close> is the order of the visit.\<close>

definition subscribers :: "state_store \<Rightarrow> string \<Rightarrow> string set" where
  "subscribers s asset = (case assetSubscribers s (ToLower asset) of None \<Rightarrow> {} | Some S \<Rightarrow> S)"

definition GetSubscribers :: "string list \<Rightarrow> state_store \<Rightarrow> string \<Rightarrow> string list" where
  "GetSubscribers ord s asset = filter (\<lambda>u. u \<in> subscribers s asset) ord"

text \<open>
  \<open>DumpToJSONFile\<close>: the value it hands to the JSON encoder, with each subscriber set turned
  into a list in the visiting order \<open>ordS\<close>. Encoding and writing the file are I/O.
\<close>

record store_snapshot =
  ss_AnchorBlock :: u64
  ss_CurrentBlock :: u64
  ss_GlobalIndices :: "string \<rightharpoonup> global_index"
  ss_UserPositions :: "string \<rightharpoonup> user_position"
  ss_Prices :: "string \<rightharpoonup> int"
  ss_AssetConfigs :: "string \<rightharpoonup> asset_config"
  ss_AssetSubscribers :: "string \<rightharpoonup> string list"
  ss_RiskHeap :: "user_risk_item list"
  ss_HeapLookup :: "string \<rightharpoonup> user_risk_item"
  ss_EModeCategories :: "u8 \<rightharpoonup> emode_category"

definition dump_snapshot :: "(string \<Rightarrow> string list) \<Rightarrow> state_store \<Rightarrow> store_snapshot" where
  "dump_snapshot ordS s =
     \<lparr>ss_AnchorBlock = anchorBlock s, ss_CurrentBlock = currentBlock s,
      ss_GlobalIndices = globalIndices s, ss_UserPositions = userPositions s, ss_Prices = prices s,
      ss_AssetConfigs = assetConfigs s,
      ss_AssetSubscribers = (\<lambda>a. map_option (\<lambda>S. filter (\<lambda>u. u \<in> S) (ordS a)) (assetSubscribers s a)),
      ss_RiskHeap = map (rh_mem (riskHeap s)) (rh_items (riskHeap s)),
      ss_HeapLookup = (\<lambda>u. map_option (rh_mem (riskHeap s)) (heapLookup s u)),
      ss_EModeCategories = eModeCategories s\<rparr>"

section \<open>Effect of the operations on what a reader sees\<close>

definition subs_raw :: "state_store \<Rightarrow> string \<Rightarrow> string set" where
  "subs_raw s a = (case assetSubscribers s a of None \<Rightarrow> {} | Some S \<Rightarrow> S)"

lemma subscribers_raw: "subscribers s asset = subs_raw s (ToLower asset)"
  by (simp add: subscribers_def subs_raw_def)

lemma subs_raw_subscribe [store_simps]:
  "subs_raw (subscribe a u s) a' = (if a' = a then insert u (subs_raw s a) else subs_raw s a')"
  by (simp add: subs_raw_def subscribe_def)

lemma reserve_at_simps [store_simps]:
  "reserve_at (ensure_position u s) u' a' = reserve_at s u' a'"
  "reserve_at (put_reserve u a r s) u' a' = (if u' = u \<and> a' = a then Some r else reserve_at s u' a')"
  "reserve_at (subscribe a u s) u' a' = reserve_at s u' a'"
  "Reserves (position_of s u) a = reserve_at s u a"
  by (auto simp: reserve_at_def ensure_position_def put_reserve_def subscribe_def position_of_def
      new_position_def Let_def split: option.splits)

lemma subs_raw_frame [store_simps]:
  "subs_raw (ensure_position u s) = subs_raw s"
  "subs_raw (put_reserve u a r s) = subs_raw s"
  by (auto simp: subs_raw_def ensure_position_def put_reserve_def Let_def split: option.splits)

lemma reserve_at_GetUserReserve [store_simps]:
  "reserve_at (GetUserReserve u a s) u' a' =
     (if u' = ToLower u \<and> a' = ToLower a \<and> reserve_at s u' a' = None
      then Some (zero_reserve (ToLower a)) else reserve_at s u' a')"
  by (auto simp: GetUserReserve_def Let_def store_simps split: option.splits)

lemma subs_raw_GetUserReserve [store_simps]:
  "subs_raw (GetUserReserve u a s) a' =
     (if a' = ToLower a \<and> reserve_at s (ToLower u) a' = None
      then insert (ToLower u) (subs_raw s a') else subs_raw s a')"
  by (auto simp: GetUserReserve_def Let_def store_simps split: option.splits)

lemma reserve_at_update_reserve [store_simps]:
  "reserve_at (update_reserve u a f s) u' a' =
     (if u' = ToLower u \<and> a' = ToLower a then map_option f (reserve_at s u' a')
      else reserve_at s u' a')"
  by (auto simp: update_reserve_def Let_def store_simps split: option.splits)

lemma subs_raw_update_reserve [store_simps]: "subs_raw (update_reserve u a f s) = subs_raw s"
  by (auto simp: update_reserve_def Let_def store_simps split: option.splits)

lemma reserve_at_UpsertUserReserve [store_simps]:
  "reserve_at (UpsertUserReserve u r s) u' a' =
     (if u' = ToLower u \<and> a' = ToLower (AssetAddress r) then Some r else reserve_at s u' a')"
  by (simp add: UpsertUserReserve_def Let_def store_simps)

lemma subs_raw_UpsertUserReserve [store_simps]:
  "subs_raw (UpsertUserReserve u r s) a' =
     (if a' = ToLower (AssetAddress r) then insert (ToLower u) (subs_raw s a') else subs_raw s a')"
  by (simp add: UpsertUserReserve_def Let_def store_simps)

lemma reserve_at_SetUserEMode [store_simps]: "reserve_at (SetUserEMode u c s) = reserve_at s"
  by (auto simp: fun_eq_iff reserve_at_def SetUserEMode_def ensure_position_def position_of_def
      new_position_def Let_def split: option.splits)

lemma subs_raw_SetUserEMode [store_simps]: "subs_raw (SetUserEMode u c s) = subs_raw s"
  by (auto simp: fun_eq_iff subs_raw_def SetUserEMode_def ensure_position_def Let_def
      split: option.splits)

lemma other_ops_frame [store_simps]:
  "reserve_at (SetCurrentBlock b s) = reserve_at s" "subs_raw (SetCurrentBlock b s) = subs_raw s"
  "reserve_at (SetAnchorBlock b s) = reserve_at s" "subs_raw (SetAnchorBlock b s) = subs_raw s"
  "reserve_at (SetGlobalIndex a i s) = reserve_at s" "subs_raw (SetGlobalIndex a i s) = subs_raw s"
  "reserve_at (SetAssetPrice a p s) = reserve_at s" "subs_raw (SetAssetPrice a p s) = subs_raw s"
  "reserve_at (SetAssetConfig a c s) = reserve_at s" "subs_raw (SetAssetConfig a c s) = subs_raw s"
  "reserve_at (SetEModeCategory k e s) = reserve_at s" "subs_raw (SetEModeCategory k e s) = subs_raw s"
  by (auto simp: fun_eq_iff reserve_at_def subs_raw_def SetCurrentBlock_def SetAnchorBlock_def
      SetGlobalIndex_def SetAssetPrice_def SetAssetConfig_def SetEModeCategory_def Let_def)

section \<open>The keyed caches\<close>

text \<open>
  Prices, indices and configurations are cells addressed by an asset whose letter case does not
  matter. The clients that fill them in a loop (the bootstrapper, the oracle feeder) use this
  contract only.
\<close>

locale keyed_cells =
  fixes get :: "'s \<Rightarrow> string \<Rightarrow> 'v option"
    and put :: "string \<Rightarrow> 'v \<Rightarrow> 's \<Rightarrow> 's"
    and norm :: "string \<Rightarrow> string"
  assumes get_put: "get (put a v s) b = (if norm b = norm a then Some v else get s b)"
begin

lemma get_put_same: "get (put a v s) a = Some v"
  by (simp add: get_put)

lemma get_fold_put_other:
  "norm b \<notin> norm ` set (map fst kvs) \<Longrightarrow> get (fold (\<lambda>(a, v). put a v) kvs s) b = get s b"
  by (induction kvs arbitrary: s) (auto simp: get_put)

lemma get_fold_put:
  assumes "distinct (map (norm \<circ> fst) kvs)" and "(a, v) \<in> set kvs"
  shows "get (fold (\<lambda>(a, v). put a v) kvs s) a = Some v"
  using assms
proof (induction kvs arbitrary: s)
  case (Cons kv kvs)
  then show ?case
  proof (cases "kv = (a, v)")
    case True
    then have "norm a \<notin> norm ` set (map fst kvs)" using Cons.prems(1) by auto
    then show ?thesis using True get_fold_put_other by (simp add: get_put)
  next
    case False
    then show ?thesis using Cons by (cases kv) auto
  qed
qed simp

end

interpretation price_cells: keyed_cells GetAssetPrice SetAssetPrice ToLower
  by unfold_locales (simp add: GetAssetPrice_def SetAssetPrice_def)

interpretation index_cells: keyed_cells GetGlobalIndex SetGlobalIndex ToLower
  by unfold_locales (simp add: GetGlobalIndex_def SetGlobalIndex_def)

interpretation config_cells: keyed_cells GetAssetConfig SetAssetConfig ToLower
  by unfold_locales (simp add: GetAssetConfig_def SetAssetConfig_def)

section \<open>The states the store methods can produce\<close>

text \<open>
  One rule per method (and one for a write through the pointer that \<open>GetUserReserve\<close>
  returned). The fields of the risk heap belong to the risk engine and no method touches them.
\<close>

inductive store_step :: "state_store \<Rightarrow> state_store \<Rightarrow> bool" where
  st_current: "store_step s (SetCurrentBlock b s)"
| st_anchor: "store_step s (SetAnchorBlock b s)"
| st_index: "store_step s (SetGlobalIndex a i s)"
| st_upsert: "store_step s (UpsertUserReserve u r s)"
| st_emode: "store_step s (SetUserEMode u c s)"
| st_get: "store_step s (GetUserReserve u a s)"
| st_write: "store_step s (update_reserve u a f s)"
| st_price: "store_step s (SetAssetPrice a p s)"
| st_config: "store_step s (SetAssetConfig a cfg s)"
| st_category: "store_step s (SetEModeCategory k e s)"

inductive store_reachable :: "state_store \<Rightarrow> bool" where
  sr_new: "store_reachable NewStateStore"
| sr_step: "store_reachable s \<Longrightarrow> store_step s t \<Longrightarrow> store_reachable t"

inductive_cases store_stepE: "store_step s t"

text \<open>Every user with an entry for an asset is a subscriber of that asset.\<close>

definition subs_complete :: "state_store \<Rightarrow> bool" where
  "subs_complete s \<longleftrightarrow> (\<forall>u a. reserve_at s u a \<noteq> None \<longrightarrow> u \<in> subs_raw s a)"

lemma subs_complete_step: "store_step s t \<Longrightarrow> subs_complete s \<Longrightarrow> subs_complete t"
  by (erule store_stepE) (auto simp: subs_complete_def store_simps split: if_splits)

lemma subs_complete_reachable: "store_reachable s \<Longrightarrow> subs_complete s"
proof (induction rule: store_reachable.induct)
  case sr_new
  show ?case by (simp add: subs_complete_def NewStateStore_def reserve_at_def)
qed (rule subs_complete_step)

lemma enumerated_subscribers:
  "enumerates ord (subscribers s asset) \<Longrightarrow> GetSubscribers ord s asset = ord"
  by (simp add: GetSubscribers_def enumerates_def)

text \<open>
  C24: whatever sequence of store methods built the state, a price or index change of an asset
  reaches everybody it concerns: each user that has a balance entry for the asset is in the list
  \<open>GetSubscribers\<close> returns for it, in whatever order the map is visited.
\<close>

theorem subscribers_complete:
  assumes "store_reachable s" and "reserve_at s u (ToLower asset) \<noteq> None"
    and "enumerates ord (subscribers s asset)"
  shows "u \<in> set (GetSubscribers ord s asset)"
  using subs_complete_reachable [OF assms(1)] assms(2,3)
  by (simp add: subs_complete_def enumerated_subscribers enumerates_set subscribers_raw)

theorem subscribers_complete_witness:
  "let s = GetUserReserve ''0xAB'' ''0xCD'' NewStateStore in
   store_reachable s \<and> reserve_at s ''0xab'' (ToLower ''0xCD'') \<noteq> None \<and>
   ''0xab'' \<in> set (GetSubscribers [''0xab''] s ''0xCD'')"
proof -
  let ?s = "GetUserReserve ''0xAB'' ''0xCD'' NewStateStore"
  have l: "ToLower ''0xAB'' = ''0xab''" by code_simp
  have r: "store_reachable ?s" using sr_step [OF sr_new st_get] .
  have e: "reserve_at ?s ''0xab'' (ToLower ''0xCD'') \<noteq> None"
    by (simp add: store_simps l)
  have o: "enumerates [''0xab''] (subscribers ?s ''0xCD'')"
    by (simp add: subscribers_raw store_simps l)
       (simp add: enumerates_def subs_raw_def NewStateStore_def reserve_at_def)
  show ?thesis unfolding Let_def using r e subscribers_complete [OF r e o] by blast
qed

text \<open>The block height only moves forward; the first anchor sets it while it is unset.\<close>

lemma current_block_monotone:
  "currentBlock s \<le> currentBlock (SetCurrentBlock b s)"
  "b \<le> currentBlock (SetCurrentBlock b s)"
  "currentBlock s \<le> currentBlock (SetAnchorBlock b s)"
  by (auto simp: SetCurrentBlock_def SetAnchorBlock_def Let_def not_less)

end
