(* ===== verification/HealthFactor.thy ===== *)
theory HealthFactor
  imports Store
begin

text \<open>
  The health factor computation of the risk engine: \<open>computeHFMath\<close> in
  \<open>internal/engine/risk_engine.go\<close>. The loop over the user's reserves visits a Go map, so the
  model takes the visiting order; the section after the definitions shows that the result does
  not depend on it and gives it in closed form. The copies made for the log lines and the unused
  local \<open>impliedCurrentLTBps\<close> are left out.
\<close>

section \<open>The computation\<close>

definition asset_unit :: "asset_config \<Rightarrow> int" where
  "asset_unit cfg = big_Exp10 (sint (Decimals cfg))"

definition lt_to_use :: "state_store \<Rightarrow> bool \<Rightarrow> u8 \<Rightarrow> asset_config \<Rightarrow> u16" where
  "lt_to_use s eModeFetched userEModeCat cfg =
     (if eModeFetched \<and> userEModeCat \<noteq> 0 then
        (case eModeCategories s userEModeCat of
           Some eModeCategory \<Rightarrow>
             let shifted = big_Rsh (CollateralBitmap eModeCategory) (unat (ReserveID cfg));
                 bitCheck = big_And shifted 1
             in if bitCheck = 1 then em_LiquidationThreshold eModeCategory
                else LiquidationThreshold cfg
         | None \<Rightarrow> LiquidationThreshold cfg)
      else LiquidationThreshold cfg)"

text \<open>The three running totals: raw collateral, weighted collateral, debt.\<close>

type_synonym hf_totals = "int \<times> int \<times> int"

definition hf_add_collateral ::
    "u16 \<Rightarrow> int \<Rightarrow> int \<Rightarrow> int \<Rightarrow> user_reserve \<Rightarrow> hf_totals \<Rightarrow> hf_totals" where
  "hf_add_collateral ltToUse price liquidityIndex assetUnit res totals =
     (case totals of (rawCollateralBase, totalCollateralBase, totalDebtBase) \<Rightarrow>
        if UsageAsCollateralEnabledOnUser res \<and> ScaledATokenBalance res > 0 then
          let actualBal = RayMul (ScaledATokenBalance res) liquidityIndex;
              value = big_Div (actualBal * price) assetUnit
          in (rawCollateralBase + value, totalCollateralBase + value * uint ltToUse, totalDebtBase)
        else totals)"

definition hf_add_debt :: "int \<Rightarrow> int \<Rightarrow> int \<Rightarrow> user_reserve \<Rightarrow> hf_totals \<Rightarrow> hf_totals" where
  "hf_add_debt price variableBorrowIndex assetUnit res totals =
     (case totals of (rawCollateralBase, totalCollateralBase, totalDebtBase) \<Rightarrow>
        if ScaledVariableDebt res > 0 then
          let actualDebt = RayMul (ScaledVariableDebt res) variableBorrowIndex;
              value = big_Div (actualDebt * price) assetUnit
          in (rawCollateralBase, totalCollateralBase, totalDebtBase + value)
        else totals)"

text \<open>One iteration: \<open>None\<close> is the early return on missing price, index or configuration.\<close>

definition hf_iteration ::
    "state_store \<Rightarrow> bool \<Rightarrow> u8 \<Rightarrow> user_reserve \<Rightarrow> hf_totals \<Rightarrow> hf_totals option" where
  "hf_iteration s eModeFetched userEModeCat res totals =
     (let asset = AssetAddress res in
      if ScaledATokenBalance res = 0 \<and> ScaledVariableDebt res = 0 then Some totals
      else case (prices s asset, globalIndices s asset, assetConfigs s asset) of
          (Some price, Some idx, Some cfg) \<Rightarrow>
            let assetUnit = asset_unit cfg; ltToUse = lt_to_use s eModeFetched userEModeCat cfg in
            Some (hf_add_debt price (VariableBorrowIndex idx) assetUnit res
                   (hf_add_collateral ltToUse price (LiquidityIndex idx) assetUnit res totals))
        | _ \<Rightarrow> None)"

fun hf_loop ::
    "state_store \<Rightarrow> bool \<Rightarrow> u8 \<Rightarrow> (string \<times> user_reserve) list \<Rightarrow> hf_totals \<Rightarrow> hf_totals option" where
  "hf_loop s f c [] totals = Some totals"
| "hf_loop s f c ((_, res) # rest) totals =
     (case hf_iteration s f c res totals of None \<Rightarrow> None | Some totals' \<Rightarrow> hf_loop s f c rest totals')"

definition computeHFMath ::
    "string list \<Rightarrow> state_store \<Rightarrow> string \<Rightarrow> bool \<Rightarrow> u8 \<Rightarrow> risk_snapshot option" where
  "computeHFMath ord s userAddr eModeFetched userEModeCat =
     (case userPositions s userAddr of
        None \<Rightarrow> None
      | Some user \<Rightarrow>
          let startBlock = GetCurrentBlock s in
          case hf_loop s eModeFetched userEModeCat (visit (Reserves user) ord) (0, 0, 0) of
            None \<Rightarrow> None
          | Some (rawCollateralBase, totalCollateralBase, totalDebtBase) \<Rightarrow>
              if totalDebtBase = 0 then None
              else let hf = big_Div (big_Div (totalCollateralBase * WAD) 10000) totalDebtBase in
                Some \<lparr>snap_HealthFactor = hf, RawCollateralBase = rawCollateralBase,
                      TotalCollateralBase = totalCollateralBase, TotalDebtBase = totalDebtBase,
                      CalculatedAtBlock = startBlock\<rparr>)"

section \<open>Closed form\<close>

text \<open>What one reserve contributes, and when it makes the computation give up.\<close>

definition reserve_empty :: "user_reserve \<Rightarrow> bool" where
  "reserve_empty r \<longleftrightarrow> ScaledATokenBalance r = 0 \<and> ScaledVariableDebt r = 0"

definition data_known :: "state_store \<Rightarrow> user_reserve \<Rightarrow> bool" where
  "data_known s r \<longleftrightarrow> prices s (AssetAddress r) \<noteq> None \<and>
     globalIndices s (AssetAddress r) \<noteq> None \<and> assetConfigs s (AssetAddress r) \<noteq> None"

definition price_in :: "state_store \<Rightarrow> user_reserve \<Rightarrow> int" where
  "price_in s r = the (prices s (AssetAddress r))"

definition index_in :: "state_store \<Rightarrow> user_reserve \<Rightarrow> global_index" where
  "index_in s r = the (globalIndices s (AssetAddress r))"

definition config_in :: "state_store \<Rightarrow> user_reserve \<Rightarrow> asset_config" where
  "config_in s r = the (assetConfigs s (AssetAddress r))"

definition collateral_value :: "state_store \<Rightarrow> user_reserve \<Rightarrow> int" where
  "collateral_value s r =
     (if UsageAsCollateralEnabledOnUser r \<and> ScaledATokenBalance r > 0
      then RayMul (ScaledATokenBalance r) (LiquidityIndex (index_in s r)) * price_in s r
           div asset_unit (config_in s r)
      else 0)"

definition debt_value :: "state_store \<Rightarrow> user_reserve \<Rightarrow> int" where
  "debt_value s r =
     (if ScaledVariableDebt r > 0
      then RayMul (ScaledVariableDebt r) (VariableBorrowIndex (index_in s r)) * price_in s r
           div asset_unit (config_in s r)
      else 0)"

definition weighted_value :: "state_store \<Rightarrow> bool \<Rightarrow> u8 \<Rightarrow> user_reserve \<Rightarrow> int" where
  "weighted_value s f c r = collateral_value s r * uint (lt_to_use s f c (config_in s r))"

lemma asset_unit_pos [simp]: "0 < asset_unit cfg"
  by (simp add: asset_unit_def)

lemma empty_values [simp]:
  "reserve_empty r \<Longrightarrow> collateral_value s r = 0"
  "reserve_empty r \<Longrightarrow> debt_value s r = 0"
  "reserve_empty r \<Longrightarrow> weighted_value s f c r = 0"
  by (simp_all add: reserve_empty_def collateral_value_def debt_value_def weighted_value_def)

lemma hf_iteration_eq:
  "hf_iteration s f c r (raw, tot, debt) =
     (if reserve_empty r \<or> data_known s r
      then Some (raw + collateral_value s r, tot + weighted_value s f c r, debt + debt_value s r)
      else None)"
proof (cases "reserve_empty r")
  case True
  then show ?thesis by (simp add: hf_iteration_def) (simp add: reserve_empty_def)
next
  case False
  then show ?thesis
    by (auto simp: hf_iteration_def reserve_empty_def data_known_def Let_def hf_add_collateral_def
        hf_add_debt_def collateral_value_def weighted_value_def debt_value_def price_in_def
        index_in_def config_in_def big_Div_pos split: option.splits)
qed

lemma hf_loop_eq:
  "hf_loop s f c rs (raw, tot, debt) =
     (if \<forall>(k, r) \<in> set rs. reserve_empty r \<or> data_known s r
      then Some (raw + sum_list (map (\<lambda>(k, r). collateral_value s r) rs),
                 tot + sum_list (map (\<lambda>(k, r). weighted_value s f c r) rs),
                 debt + sum_list (map (\<lambda>(k, r). debt_value s r) rs))
      else None)"
proof (induction rs arbitrary: raw tot debt)
  case (Cons kr rs)
  obtain k r where kr: "kr = (k, r)" by fastforce
  then show ?case
    by (cases "reserve_empty r \<or> data_known s r") (simp_all add: hf_iteration_eq Cons.IH add.assoc)
qed simp

definition position_known :: "state_store \<Rightarrow> user_position \<Rightarrow> bool" where
  "position_known s p \<longleftrightarrow> (\<forall>a r. Reserves p a = Some r \<longrightarrow> reserve_empty r \<or> data_known s r)"

definition sum_reserves :: "(user_reserve \<Rightarrow> int) \<Rightarrow> user_position \<Rightarrow> int" where
  "sum_reserves f p = (\<Sum>a\<in>dom (Reserves p). f (the (Reserves p a)))"

lemma hf_loop_visit:
  assumes "enumerates ord (dom (Reserves p))"
  shows "hf_loop s f c (visit (Reserves p) ord) (0, 0, 0) =
     (if position_known s p
      then Some (sum_reserves (collateral_value s) p, sum_reserves (weighted_value s f c) p,
                 sum_reserves (debt_value s) p)
      else None)"
  using assms
  by (auto simp: hf_loop_eq position_known_def sum_reserves_def sum_list_visit set_visit_enumerates)

lemma computeHFMath_closed:
  assumes "userPositions s u = Some p" and "enumerates ord (dom (Reserves p))"
  shows "computeHFMath ord s u f c =
    (let C = sum_reserves (weighted_value s f c) p; D = sum_reserves (debt_value s) p in
     if \<not> position_known s p \<or> D = 0 then None
     else Some \<lparr>snap_HealthFactor = big_Div (C * WAD div 10000) D,
                RawCollateralBase = sum_reserves (collateral_value s) p,
                TotalCollateralBase = C, TotalDebtBase = D, CalculatedAtBlock = currentBlock s\<rparr>)"
  using assms by (simp add: computeHFMath_def hf_loop_visit Let_def GetCurrentBlock_def big_Div_pos)

lemma computeHFMath_no_user [simp]: "userPositions s u = None \<Longrightarrow> computeHFMath ord s u f c = None"
  by (simp add: computeHFMath_def)

section \<open>Specification and properties\<close>

text \<open>
  The specification: sums over the user's assets, no order, no early exit. Collateral counts with
  its threshold in basis points, and the factor is their quotient in WAD precision.
\<close>

definition hf_spec :: "state_store \<Rightarrow> user_position \<Rightarrow> bool \<Rightarrow> u8 \<Rightarrow> risk_snapshot option" where
  "hf_spec s p f c =
    (let C = sum_reserves (weighted_value s f c) p; D = sum_reserves (debt_value s) p in
     if \<not> position_known s p \<or> D = 0 then None
     else Some \<lparr>snap_HealthFactor = big_Div (C * WAD div 10000) D,
                RawCollateralBase = sum_reserves (collateral_value s) p,
                TotalCollateralBase = C, TotalDebtBase = D, CalculatedAtBlock = currentBlock s\<rparr>)"

text \<open>Prices and indices come from unsigned words.\<close>

definition market_nonneg :: "state_store \<Rightarrow> bool" where
  "market_nonneg s \<longleftrightarrow> (\<forall>a p. prices s a = Some p \<longrightarrow> 0 \<le> p) \<and>
     (\<forall>a i. globalIndices s a = Some i \<longrightarrow> 0 \<le> LiquidityIndex i \<and> 0 \<le> VariableBorrowIndex i)"

definition same_market :: "state_store \<Rightarrow> state_store \<Rightarrow> bool" where
  "same_market s t \<longleftrightarrow> prices t = prices s \<and> globalIndices t = globalIndices s \<and>
     assetConfigs t = assetConfigs s \<and> eModeCategories t = eModeCategories s"

lemma market_in:
  assumes "market_nonneg s" "data_known s r"
  shows "0 \<le> price_in s r" "0 \<le> LiquidityIndex (index_in s r)" "0 \<le> VariableBorrowIndex (index_in s r)"
  using assms by (auto simp: market_nonneg_def data_known_def price_in_def index_in_def)

lemma div_int_mono2:
  fixes a a' b b' :: int
  assumes "a \<le> a'" "0 \<le> a" "0 < b'" "b' \<le> b"
  shows "a div b \<le> a' div b'"
proof -
  have "a div b \<le> a div b'" using assms by (intro zdiv_mono2) auto
  also have "\<dots> \<le> a' div b'" using assms by (intro zdiv_mono1) auto
  finally show ?thesis .
qed

lemma div_less_iff:
  fixes x n d :: int
  assumes "0 < d"
  shows "x div d < n \<longleftrightarrow> x < n * d"
proof
  assume "x div d < n"
  then have "(x div d + 1) * d \<le> n * d" using assms by (intro mult_right_mono) auto
  moreover have "(x div d + 1) * d = x - x mod d + d" by (simp add: algebra_simps minus_mod_eq_mult_div)
  moreover have "x mod d < d" using assms by simp
  ultimately show "x < n * d" by linarith
next
  assume "x < n * d"
  show "x div d < n"
  proof (rule ccontr)
    assume "\<not> x div d < n"
    then have "n * d \<le> x div d * d" using assms by (intro mult_right_mono) auto
    also have "\<dots> = x - x mod d" by (simp add: minus_mod_eq_div_mult)
    also have "\<dots> \<le> x" using assms by simp
    finally show False using \<open>x < n * d\<close> by simp
  qed
qed

lemma value_nonneg:
  assumes "market_nonneg s" "reserve_empty r \<or> data_known s r"
  shows "0 \<le> collateral_value s r" "0 \<le> debt_value s r" "0 \<le> weighted_value s f c r"
proof -
  have *: "0 \<le> collateral_value s r \<and> 0 \<le> debt_value s r"
  proof (cases "reserve_empty r")
    case False
    then have "data_known s r" using assms by simp
    then show ?thesis
      using market_in [OF assms(1)] asset_unit_pos [of "config_in s r"]
      by (auto simp: collateral_value_def debt_value_def RayMul_nonneg pos_imp_zdiv_nonneg_iff)
  qed simp
  then show "0 \<le> collateral_value s r" "0 \<le> debt_value s r" by simp_all
  then show "0 \<le> weighted_value s f c r" by (simp add: weighted_value_def)
qed

lemma known_reserve:
  "position_known s p \<Longrightarrow> a \<in> dom (Reserves p) \<Longrightarrow>
   reserve_empty (the (Reserves p a)) \<or> data_known s (the (Reserves p a))"
  by (fastforce simp: position_known_def)

lemma sums_nonneg:
  assumes "market_nonneg s" "position_known s p"
  shows "0 \<le> sum_reserves (collateral_value s) p" "0 \<le> sum_reserves (debt_value s) p"
    "0 \<le> sum_reserves (weighted_value s f c) p"
  unfolding sum_reserves_def
  using value_nonneg [OF assms(1)] known_reserve [OF assms(2)] by (blast intro: sum_nonneg)+

lemma hf_spec_SomeD:
  assumes "hf_spec s p f c = Some snap"
  shows "position_known s p" "TotalDebtBase snap = sum_reserves (debt_value s) p"
    "TotalCollateralBase snap = sum_reserves (weighted_value s f c) p" "TotalDebtBase snap \<noteq> 0"
    "snap_HealthFactor snap = big_Div (TotalCollateralBase snap * WAD div 10000) (TotalDebtBase snap)"
  using assms by (auto simp: hf_spec_def Let_def split: if_splits)

lemma computeHFMath_SomeE:
  assumes "computeHFMath ord s u f c = Some snap"
  obtains p where "userPositions s u = Some p"
  using assms by (cases "userPositions s u") auto

text \<open>
  C1: the loop over the reserve map computes the order-free specification, whatever order Go picks
  for the map, early exits included.
\<close>

theorem computeHFMath_meets_spec:
  assumes "userPositions s u = Some p" and "enumerates ord (dom (Reserves p))"
  shows "computeHFMath ord s u f c = hf_spec s p f c"
  using computeHFMath_closed [OF assms] by (simp add: hf_spec_def)

text \<open>A small market for the witnesses: one asset, price 2 with no decimals, indices one RAY.\<close>

definition toy_position :: "int \<Rightarrow> int \<Rightarrow> user_position" where
  "toy_position supplied borrowed =
     \<lparr>UserAddress = ''u'',
      Reserves = [''a'' \<mapsto> \<lparr>AssetAddress = ''a'', ScaledATokenBalance = supplied,
                           ScaledVariableDebt = borrowed, UsageAsCollateralEnabledOnUser = True\<rparr>],
      EModeCategoryId = 0, EModeFetched = True\<rparr>"

definition toy_store :: "int \<Rightarrow> int \<Rightarrow> state_store" where
  "toy_store supplied borrowed = NewStateStore
     \<lparr>userPositions := [''u'' \<mapsto> toy_position supplied borrowed], prices := [''a'' \<mapsto> 2],
      globalIndices := [''a'' \<mapsto> \<lparr>gi_AssetAddress = ''a'', LiquidityIndex = RAY,
                                VariableBorrowIndex = RAY, LastUpdateBlock = 1\<rparr>],
      assetConfigs := [''a'' \<mapsto> \<lparr>Decimals = 0, LiquidationThreshold = 8000, LiquidationBonus = 10500,
                               ReserveID = 0, ATokenAddress = [], VTokenAddress = [],
                               LiquidationProtocolFee = 0\<rparr>]\<rparr>"

lemma RayMul_one [simp]: "RayMul x RAY = x"
  by (simp add: RayMul_eq RAY_def)

lemma toy_enum [simp]: "enumerates [''a''] (dom (Reserves (toy_position x y)))"
  by (simp add: enumerates_def toy_position_def)

lemma toy_user [simp]: "userPositions (toy_store x y) ''u'' = Some (toy_position x y)"
  by (simp add: toy_store_def)

lemma toy_market [simp]: "market_nonneg (toy_store x y)"
  by (simp add: market_nonneg_def toy_store_def RAY_def)

lemma toy_hf:
  assumes "0 < x" "0 < y"
  shows "hf_spec (toy_store x y) (toy_position x y) True 0 =
    Some \<lparr>snap_HealthFactor = (2 * x * 8000 * WAD div 10000) div (2 * y), RawCollateralBase = 2 * x,
          TotalCollateralBase = 2 * x * 8000, TotalDebtBase = 2 * y, CalculatedAtBlock = 0\<rparr>"
  using assms
  by (auto simp: hf_spec_def sum_reserves_def position_known_def data_known_def toy_store_def
      toy_position_def weighted_value_def collateral_value_def debt_value_def price_in_def
      index_in_def config_in_def asset_unit_def big_Exp10_def lt_to_use_def NewStateStore_def
      big_Div_pos Let_def mult.commute)

theorem computeHFMath_meets_spec_witness:
  "computeHFMath [''a''] (toy_store 100 90) ''u'' True 0 = hf_spec (toy_store 100 90) (toy_position 100 90) True 0 \<and>
   map_option snap_HealthFactor (computeHFMath [''a''] (toy_store 100 90) ''u'' True 0) =
     Some 888888888888888888"
  using computeHFMath_meets_spec [OF toy_user toy_enum, of 100 90 True 0] toy_hf [of 100 90]
  by (simp add: WAD_def)

text \<open>
  C2: the rounded quotient decides liquidation exactly. When the computation returns a snapshot of
  a market with non-negative data, the debt is positive, the health factor is not negative, and the
  test \<open>HealthFactor < 1e18\<close> of the worker holds exactly when the threshold-weighted collateral
  (in basis points) is below the debt, as if no division had rounded.
\<close>

theorem liquidation_test_exact:
  assumes "market_nonneg s" and "userPositions s u = Some p" and "enumerates ord (dom (Reserves p))"
    and "computeHFMath ord s u f c = Some snap"
  shows "0 < TotalDebtBase snap \<and> 0 \<le> snap_HealthFactor snap \<and>
    (snap_HealthFactor snap < HFLiquidationThreshold \<longleftrightarrow>
       TotalCollateralBase snap < 10000 * TotalDebtBase snap)"
proof -
  have spec: "hf_spec s p f c = Some snap"
    using computeHFMath_closed [OF assms(2,3)] assms(4) by (simp add: hf_spec_def)
  note d = hf_spec_SomeD [OF spec]
  let ?C = "TotalCollateralBase snap" and ?D = "TotalDebtBase snap"
  have D: "0 < ?D" using sums_nonneg(2) [OF assms(1) d(1)] d(2,4) by simp
  have C: "0 \<le> ?C" using sums_nonneg(3) [OF assms(1) d(1)] d(3) by simp
  have hf: "snap_HealthFactor snap = ?C * WAD div 10000 div ?D" using d(5) D by (simp add: big_Div_pos)
  have "snap_HealthFactor snap < WAD \<longleftrightarrow> ?C * WAD div 10000 < WAD * ?D"
    unfolding hf using D by (rule div_less_iff)
  also have "\<dots> \<longleftrightarrow> ?C * WAD < WAD * ?D * 10000" by (rule div_less_iff) simp
  also have "\<dots> \<longleftrightarrow> WAD * ?C < WAD * (10000 * ?D)" by (simp add: algebra_simps)
  also have "\<dots> \<longleftrightarrow> ?C < 10000 * ?D" by (rule mult_less_cancel_left_pos) simp
  finally show ?thesis
    using D C hf WAD_pos by (simp add: HFLiquidationThreshold_def pos_imp_zdiv_nonneg_iff mult_nonneg_nonneg less_imp_le)
qed

theorem liquidation_test_exact_witness:
  "\<exists>snap. computeHFMath [''a''] (toy_store 100 90) ''u'' True 0 = Some snap \<and>
    TotalCollateralBase snap < 10000 * TotalDebtBase snap \<and>
    snap_HealthFactor snap < HFLiquidationThreshold"
proof -
  obtain snap where s: "computeHFMath [''a''] (toy_store 100 90) ''u'' True 0 = Some snap"
    and v: "TotalCollateralBase snap = 1600000" "TotalDebtBase snap = 180"
    using toy_hf [of 100 90] computeHFMath_closed [OF toy_user toy_enum, of 100 90 True 0]
    by (simp add: hf_spec_def)
  from liquidation_test_exact [OF toy_market toy_user toy_enum s] s v show ?thesis by auto
qed

section \<open>Improving a position\<close>

text \<open>At least as much supplied, at most as much borrowed, collateral use not revoked.\<close>

definition safer :: "user_reserve \<Rightarrow> user_reserve \<Rightarrow> bool" where
  "safer r r' \<longleftrightarrow> AssetAddress r' = AssetAddress r \<and>
     ScaledATokenBalance r \<le> ScaledATokenBalance r' \<and> ScaledVariableDebt r' \<le> ScaledVariableDebt r \<and>
     (UsageAsCollateralEnabledOnUser r \<longrightarrow> UsageAsCollateralEnabledOnUser r')"

definition safer_position :: "user_position \<Rightarrow> user_position \<Rightarrow> bool" where
  "safer_position p q \<longleftrightarrow> dom (Reserves q) = dom (Reserves p) \<and>
     (\<forall>a \<in> dom (Reserves p). safer (the (Reserves p a)) (the (Reserves q a)))"

lemma same_market_values:
  assumes "same_market s t"
  shows "collateral_value t = collateral_value s" "debt_value t = debt_value s"
    "weighted_value t f c = weighted_value s f c" "position_known t = position_known s"
  using assms
  by (auto simp: fun_eq_iff same_market_def collateral_value_def debt_value_def weighted_value_def
      position_known_def data_known_def price_in_def index_in_def config_in_def lt_to_use_def)

lemma safer_market:
  assumes "safer r r'"
  shows "data_known s r' = data_known s r" "price_in s r' = price_in s r"
    "index_in s r' = index_in s r" "config_in s r' = config_in s r"
  using assms by (auto simp: safer_def data_known_def price_in_def index_in_def config_in_def)

lemma scaled_value_mono:
  assumes "0 \<le> x" "x \<le> y" "0 \<le> i" "0 \<le> pr" "0 < unit"
  shows "RayMul x i * pr div unit \<le> RayMul y i * pr div unit"
  using assms by (intro zdiv_mono1 mult_right_mono RayMul_mono) auto

lemma safer_collateral:
  assumes m: "market_nonneg s" and k: "reserve_empty r' \<or> data_known s r'" and safer: "safer r r'"
  shows "collateral_value s r \<le> collateral_value s r'"
proof (cases "UsageAsCollateralEnabledOnUser r \<and> 0 < ScaledATokenBalance r")
  case True
  then have on: "UsageAsCollateralEnabledOnUser r'" "0 < ScaledATokenBalance r'"
    using safer by (auto simp: safer_def)
  then have "data_known s r'" using k by (auto simp: reserve_empty_def)
  then have known: "data_known s r" using safer_market(1) [OF safer] by simp
  have "collateral_value s r = RayMul (ScaledATokenBalance r) (LiquidityIndex (index_in s r)) * price_in s r
      div asset_unit (config_in s r)" using True by (simp add: collateral_value_def)
  also have "\<dots> \<le> RayMul (ScaledATokenBalance r') (LiquidityIndex (index_in s r)) * price_in s r
      div asset_unit (config_in s r)"
    using True safer market_in [OF m known] by (intro scaled_value_mono) (auto simp: safer_def)
  also have "\<dots> = collateral_value s r'" using on by (simp add: collateral_value_def safer_market [OF safer])
  finally show ?thesis .
next
  case False
  then have "collateral_value s r = 0" by (auto simp: collateral_value_def)
  then show ?thesis using value_nonneg(1) [OF m k] by simp
qed

lemma safer_debt:
  assumes m: "market_nonneg s" and k: "reserve_empty r \<or> data_known s r" and safer: "safer r r'"
  shows "debt_value s r' \<le> debt_value s r"
proof (cases "0 < ScaledVariableDebt r'")
  case True
  then have on: "0 < ScaledVariableDebt r" using safer by (auto simp: safer_def)
  then have known: "data_known s r" using k by (auto simp: reserve_empty_def)
  have "debt_value s r' = RayMul (ScaledVariableDebt r') (VariableBorrowIndex (index_in s r)) * price_in s r
      div asset_unit (config_in s r)" using True by (simp add: debt_value_def safer_market [OF safer])
  also have "\<dots> \<le> RayMul (ScaledVariableDebt r) (VariableBorrowIndex (index_in s r)) * price_in s r
      div asset_unit (config_in s r)"
    using True safer market_in [OF m known] by (intro scaled_value_mono) (auto simp: safer_def)
  also have "\<dots> = debt_value s r" using on by (simp add: debt_value_def)
  finally show ?thesis .
next
  case False
  then have "debt_value s r' = 0" by (simp add: debt_value_def)
  then show ?thesis using value_nonneg(2) [OF m k] by simp
qed

lemma safer_sums:
  assumes m: "market_nonneg s" and p: "position_known s p" and q: "position_known s q"
    and safer: "safer_position p q"
  shows "sum_reserves (weighted_value s f c) p \<le> sum_reserves (weighted_value s f c) q"
    "sum_reserves (debt_value s) q \<le> sum_reserves (debt_value s) p"
proof -
  have dom: "dom (Reserves q) = dom (Reserves p)" using safer by (simp add: safer_position_def)
  have *: "weighted_value s f c (the (Reserves p a)) \<le> weighted_value s f c (the (Reserves q a)) \<and>
      debt_value s (the (Reserves q a)) \<le> debt_value s (the (Reserves p a))"
    if a: "a \<in> dom (Reserves p)" for a
  proof -
    have sf: "safer (the (Reserves p a)) (the (Reserves q a))"
      using safer a by (simp add: safer_position_def)
    have "collateral_value s (the (Reserves p a)) \<le> collateral_value s (the (Reserves q a))"
      using known_reserve [OF q] a dom by (intro safer_collateral [OF m _ sf]) simp
    then show ?thesis
      using safer_debt [OF m known_reserve [OF p a] sf]
      by (simp add: weighted_value_def safer_market [OF sf] mult_right_mono)
  qed
  show "sum_reserves (weighted_value s f c) p \<le> sum_reserves (weighted_value s f c) q"
    unfolding sum_reserves_def dom using * by (intro sum_mono) blast
  show "sum_reserves (debt_value s) q \<le> sum_reserves (debt_value s) p"
    unfolding sum_reserves_def dom using * by (intro sum_mono) blast
qed

text \<open>
  in an unchanged market, adding collateral, paying debt back or enabling collateral never lowers
  the computed health factor: each state's own visiting order, rounding and E-Mode threshold
  included.
\<close>

theorem health_factor_monotone:
  assumes "market_nonneg s" and "same_market s t" and "safer_position p q"
    and "userPositions s u = Some p" and "enumerates ordp (dom (Reserves p))"
    and "userPositions t u = Some q" and "enumerates ordq (dom (Reserves q))"
    and "computeHFMath ordp s u f c = Some before" and "computeHFMath ordq t u f c = Some after"
  shows "snap_HealthFactor before \<le> snap_HealthFactor after"
proof -
  have sp: "hf_spec s p f c = Some before"
    using computeHFMath_closed [OF assms(4,5)] assms(8) by (simp add: hf_spec_def)
  have "hf_spec t q f c = Some after"
    using computeHFMath_closed [OF assms(6,7)] assms(9) by (simp add: hf_spec_def)
  note b = hf_spec_SomeD [OF sp] and a = hf_spec_SomeD [OF this, unfolded same_market_values [OF assms(2)]]
  note le = safer_sums [OF assms(1) b(1) a(1) assms(3)]
  have C0: "0 \<le> TotalCollateralBase before" using sums_nonneg(3) [OF assms(1) b(1)] b(3) by simp
  have D: "0 < TotalDebtBase after" using sums_nonneg(2) [OF assms(1) a(1)] a(2,4) by simp
  have C: "TotalCollateralBase before * WAD div 10000 \<le> TotalCollateralBase after * WAD div 10000"
    using le(1) [of f c] b(3) a(3) by (intro zdiv_mono1 mult_right_mono) (auto simp: less_imp_le)
  have "0 \<le> TotalCollateralBase before * WAD div 10000"
    using C0 by (simp add: pos_imp_zdiv_nonneg_iff mult_nonneg_nonneg less_imp_le)
  then show ?thesis
    unfolding b(5) a(5) using C D le(2) b(2) a(2) by (simp add: big_Div_pos div_int_mono2)
qed

theorem health_factor_monotone_witness:
  "map_option snap_HealthFactor (computeHFMath [''a''] (toy_store 100 90) ''u'' True 0) = Some 888888888888888888 \<and>
   map_option snap_HealthFactor (computeHFMath [''a''] (toy_store 120 80) ''u'' True 0) = Some 1200000000000000000 \<and>
   (888888888888888888 :: int) \<le> 1200000000000000000"
proof -
  have m: "same_market (toy_store 100 90) (toy_store 120 80)" by (simp add: same_market_def toy_store_def)
  have sf: "safer_position (toy_position 100 90) (toy_position 120 80)"
    by (simp add: safer_position_def toy_position_def safer_def)
  obtain x where x: "computeHFMath [''a''] (toy_store 100 90) ''u'' True 0 = Some x"
    "snap_HealthFactor x = 888888888888888888"
    using computeHFMath_closed [OF toy_user toy_enum, of 100 90 True 0] toy_hf [of 100 90]
    by (simp add: hf_spec_def WAD_def)
  obtain y where y: "computeHFMath [''a''] (toy_store 120 80) ''u'' True 0 = Some y"
    "snap_HealthFactor y = 1200000000000000000"
    using computeHFMath_closed [OF toy_user toy_enum, of 120 80 True 0] toy_hf [of 120 80]
    by (simp add: hf_spec_def WAD_def)
  from health_factor_monotone [OF toy_market m sf toy_user toy_enum toy_user toy_enum x(1) y(1)]
  show ?thesis using x y by simp
qed

end
