(* ===== verification/RiskBook.thy ===== *)
theory RiskBook
  imports HealthFactor
begin

text \<open>
  The risk book of \<open>internal/engine/risk_engine.go\<close>: \<open>updateHeap\<close> keeps the users below the
  safety threshold in a heap of shared objects together with a lookup table. The calls to
  \<open>container/heap\<close> use the position stored in the object, so a wrong position is a panic of the
  model. The book is specified as a map from users to a health factor and a cooldown time.
\<close>

section \<open>Operations\<close>

definition put_heap :: "risk_heap \<Rightarrow> state_store \<Rightarrow> state_store" where
  "put_heap h s = s\<lparr>riskHeap := h\<rparr>"

text \<open>\<open>heap.Remove(h, i)\<close> at a position that may be out of range.\<close>

definition heap_remove_at :: "risk_heap \<Rightarrow> int \<Rightarrow> risk_heap outcome" where
  "heap_remove_at h i =
     (if 0 \<le> i \<and> nat i < length (rh_items h) then Inr (snd (heap_Remove RiskHeap_iface h (nat i)))
      else Inl IndexOutOfRange)"

text \<open>
  \<open>heap.Fix(h, i)\<close>: out of range, \<open>down\<close> does nothing and \<open>up\<close> stops at once when \<open>i\<close> is its own
  parent (-1 or 0) and panics in \<open>Less\<close> otherwise.
\<close>

definition heap_fix_at :: "risk_heap \<Rightarrow> int \<Rightarrow> risk_heap outcome" where
  "heap_fix_at h i =
     (if 0 \<le> i \<and> nat i < length (rh_items h) then Inr (heap_Fix RiskHeap_iface h (nat i))
      else if i = -1 \<or> i = 0 then Inr h
      else Inl IndexOutOfRange)"

definition set_hf :: "nat \<Rightarrow> int \<Rightarrow> risk_heap \<Rightarrow> risk_heap" where
  "set_hf p hf h = h\<lparr>rh_mem := (rh_mem h)(p := (rh_mem h p)\<lparr>HealthFactor := hf\<rparr>)\<rparr>"

text \<open>\<open>&models.UserRiskItem\<close>: a new object at an unused address.\<close>

definition new_item :: "string \<Rightarrow> int \<Rightarrow> risk_heap \<Rightarrow> nat \<times> risk_heap" where
  "new_item userAddr hf h =
     (let p = rh_fresh h in
      (p, h\<lparr>rh_mem := (rh_mem h)(p := \<lparr>ri_UserAddress = userAddr, HealthFactor = hf, Index = 0, NextCheckAt = 0\<rparr>),
            rh_fresh := Suc p\<rparr>))"

definition drop_user :: "string \<Rightarrow> state_store \<Rightarrow> state_store outcome" where
  "drop_user userAddr s =
     (case heapLookup s userAddr of
        None \<Rightarrow> Inr s
      | Some item \<Rightarrow>
          bind_outcome (heap_remove_at (riskHeap s) (Index (rh_mem (riskHeap s) item)))
            (\<lambda>h. Inr ((put_heap h s)\<lparr>heapLookup := (heapLookup s)(userAddr := None)\<rparr>)))"

definition track_user :: "string \<Rightarrow> int \<Rightarrow> state_store \<Rightarrow> state_store outcome" where
  "track_user userAddr hf s =
     (case heapLookup s userAddr of
        Some item \<Rightarrow>
          let h = set_hf item hf (riskHeap s) in
          bind_outcome (heap_fix_at h (Index (rh_mem h item))) (\<lambda>h'. Inr (put_heap h' s))
      | None \<Rightarrow>
          let (newItem, h) = new_item userAddr hf (riskHeap s) in
          Inr ((put_heap (heap_Push RiskHeap_iface h newItem) s)
                \<lparr>heapLookup := (heapLookup s)(userAddr \<mapsto> newItem)\<rparr>))"

definition updateHeap :: "string \<Rightarrow> int option \<Rightarrow> state_store \<Rightarrow> state_store outcome" where
  "updateHeap userAddr hf s =
     (case hf of
        None \<Rightarrow> drop_user userAddr s
      | Some v \<Rightarrow> if v \<ge> HFSafetyThreshold then drop_user userAddr s else track_user userAddr v s)"

text \<open>The cooldown: written through the lookup table, and only for a user that is in it.\<close>

definition set_next_check :: "string \<Rightarrow> int \<Rightarrow> state_store \<Rightarrow> state_store" where
  "set_next_check userAddr t s =
     (case heapLookup s userAddr of
        None \<Rightarrow> s
      | Some item \<Rightarrow>
          let h = riskHeap s in
          put_heap (h\<lparr>rh_mem := (rh_mem h)(item := (rh_mem h item)\<lparr>NextCheckAt := t\<rparr>)\<rparr>) s)"

section \<open>Invariant and abstraction\<close>

definition heap_book :: "state_store \<Rightarrow> bool" where
  "heap_book s \<longleftrightarrow> rh_inv (riskHeap s) \<and>
     heap_upto (hf_of (riskHeap s)) (rh_items (riskHeap s)) (length (rh_items (riskHeap s))) \<and>
     (\<forall>u p. heapLookup s u = Some p \<longleftrightarrow>
        p \<in> set (rh_items (riskHeap s)) \<and> ri_UserAddress (rh_mem (riskHeap s) p) = u) \<and>
     (\<forall>p \<in> set (rh_items (riskHeap s)). hf_of (riskHeap s) p < HFSafetyThreshold)"

text \<open>The abstract book: health factor and earliest next check of every tracked user.\<close>

type_synonym risk_book = "string \<rightharpoonup> int \<times> int"

definition book_of :: "state_store \<Rightarrow> risk_book" where
  "book_of s u = map_option (\<lambda>p. (HealthFactor (rh_mem (riskHeap s) p), NextCheckAt (rh_mem (riskHeap s) p)))
     (heapLookup s u)"

definition book_update :: "string \<Rightarrow> int option \<Rightarrow> risk_book \<Rightarrow> risk_book" where
  "book_update u hf b =
     (case hf of None \<Rightarrow> b(u := None)
      | Some v \<Rightarrow> if v \<ge> HFSafetyThreshold then b(u := None)
                 else b(u \<mapsto> (v, case b u of None \<Rightarrow> 0 | Some (_, t) \<Rightarrow> t)))"

lemma heap_bookD:
  assumes "heap_book s"
  shows "rh_inv (riskHeap s)"
    "heap_upto (hf_of (riskHeap s)) (rh_items (riskHeap s)) (length (rh_items (riskHeap s)))"
    "heapLookup s u = Some p \<longleftrightarrow>
       p \<in> set (rh_items (riskHeap s)) \<and> ri_UserAddress (rh_mem (riskHeap s) p) = u"
    "p \<in> set (rh_items (riskHeap s)) \<Longrightarrow> hf_of (riskHeap s) p < HFSafetyThreshold"
  using assms unfolding heap_book_def by blast+

lemma put_heap_simps [simp]:
  "riskHeap (put_heap h s) = h" "heapLookup (put_heap h s) = heapLookup s"
  "userPositions (put_heap h s) = userPositions s" "eModeCategories (put_heap h s) = eModeCategories s"
  by (simp_all add: put_heap_def)

lemma tracked_index:
  assumes "heap_book s" "heapLookup s u = Some p"
  obtains i where "i < length (rh_items (riskHeap s))" "rh_items (riskHeap s) ! i = p"
    "Index (rh_mem (riskHeap s) p) = int i"
proof -
  have "p \<in> set (rh_items (riskHeap s))" using assms heap_bookD(3) by blast
  then obtain i where i: "i < length (rh_items (riskHeap s))" "rh_items (riskHeap s) ! i = p"
    by (auto simp: in_set_conv_nth)
  moreover have "Index (rh_mem (riskHeap s) p) = int i"
    using heap_bookD(1) [OF assms(1)] i by (auto simp: rh_inv_def)
  ultimately show ?thesis using that by blast
qed

lemma heap_upto_cong:
  assumes "\<And>x. x \<in> set xs \<Longrightarrow> v x = w x" and "n \<le> length xs"
  shows "heap_upto v xs n = heap_upto w xs n"
proof -
  have "v (xs ! k) = w (xs ! k)" "v (xs ! par k) = w (xs ! par k)" if "k < n" for k
  proof -
    have "par k < length xs" "k < length xs" using that assms(2) le_less_trans [OF par_le that] by linarith+
    then show "v (xs ! k) = w (xs ! k)" "v (xs ! par k) = w (xs ! par k)"
      using assms(1) nth_mem by blast+
  qed
  then show ?thesis by (auto simp: heap_upto_def)
qed

section \<open>The operations keep the invariant and implement the abstract book\<close>

lemma drop_user_book:
  assumes book: "heap_book s"
  shows "\<exists>t. drop_user u s = Inr t \<and> heap_book t \<and> book_of t = (book_of s)(u := None)"
proof (cases "heapLookup s u")
  case None
  then show ?thesis using book by (auto simp: drop_user_def book_of_def fun_eq_iff)
next
  case (Some p)
  let ?h = "riskHeap s"
  obtain i where i: "i < length (rh_items ?h)" "rh_items ?h ! i = p" "Index (rh_mem ?h p) = int i"
    using tracked_index [OF book Some] .
  obtain x h' where r: "heap_Remove RiskHeap_iface ?h i = (x, h')" by fastforce
  let ?t = "(put_heap h' s)\<lparr>heapLookup := (heapLookup s)(u := None)\<rparr>"
  have t: "drop_user u s = Inr ?t" using Some i r by (simp add: drop_user_def heap_remove_at_def)
  have pre: "rh_inv ?h \<and> same_objects ?h ?h" using heap_bookD(1) [OF book] by simp
  note rem = rh.Remove_heap [OF pre i(1) heap_bookD(2) [OF book] r]
  have inv': "rh_inv h'" and same: "same_objects ?h h'" and hf: "hf_of h' = hf_of ?h" using rem(1,2) by auto
  have "mset (rh_items h') = mset (rh_items ?h) - {#p#}" using rem(4) i by simp
  moreover have "distinct (rh_items ?h)" using pre by (simp add: rh_inv_def)
  ultimately have items: "set (rh_items h') = set (rh_items ?h) - {p}"
    by (metis remove1_remdups set_remove1_eq mset_remove1 set_mset_mset)
  have mem: "ri_UserAddress (rh_mem h' q) = ri_UserAddress (rh_mem ?h q)"
    "HealthFactor (rh_mem h' q) = HealthFactor (rh_mem ?h q)" "NextCheckAt (rh_mem h' q) = NextCheckAt (rh_mem ?h q)" for q
    using same by (auto simp: same_objects_def)
  have pu: "ri_UserAddress (rh_mem ?h p) = u" using heap_bookD(3) [OF book] Some by blast
  have look: "heapLookup ?t v = Some q \<longleftrightarrow> q \<in> set (rh_items h') \<and> ri_UserAddress (rh_mem h' q) = v" for v q
    using heap_bookD(3) [OF book, of v q] heap_bookD(3) [OF book, of u q] Some pu by (auto simp: items mem)
  have "heap_book ?t"
    unfolding heap_book_def
    using inv' rem(5) look items heap_bookD(4) [OF book] hf by simp
  moreover have "book_of ?t = (book_of s)(u := None)" by (auto simp: book_of_def mem)
  ultimately show ?thesis using t by blast
qed

lemma set_hf_simps [simp]:
  "rh_items (set_hf p v h) = rh_items h" "rh_fresh (set_hf p v h) = rh_fresh h"
  "rh_mem (set_hf p v h) q = (if q = p then (rh_mem h p)\<lparr>HealthFactor := v\<rparr> else rh_mem h q)"
  "hf_of (set_hf p v h) = (hf_of h)(p := v)"
  by (auto simp: set_hf_def hf_of_def)

lemma set_hf_inv: "rh_inv h \<Longrightarrow> rh_inv (set_hf p v h)"
  by (auto simp: rh_inv_def)

text \<open>Changing one key leaves the order intact away from its position.\<close>

lemma heap_except_update:
  assumes h: "heap_upto f xs (length xs)" and d: "distinct xs" and i: "i < length xs"
  shows "heap_except (f(xs ! i := v)) xs (length xs) i"
proof -
  have e: "heap_except f xs (length xs) i" using h heap_upto_iff [OF i] by blast
  have ne: "xs ! k \<noteq> xs ! i" if "k < length xs" "k \<noteq> i" for k
    using that d i by (simp add: nth_eq_iff_index_eq)
  show ?thesis unfolding heap_except_def
  proof (intro conjI allI impI)
    fix k assume k: "k < length xs" "0 < k" "k \<noteq> i" "par k \<noteq> i"
    then show "(f(xs ! i := v)) (xs ! par k) \<le> (f(xs ! i := v)) (xs ! k)"
      using e ne [of k] ne [of "par k"] le_less_trans [OF par_le k(1)] unfolding heap_except_def by auto
  next
    fix k assume k: "k < length xs" "0 < k" "par k = i" "0 < i"
    then have "k \<noteq> i" "par i \<noteq> i" using par_less [of k] par_less [of i] by auto
    then show "(f(xs ! i := v)) (xs ! par i) \<le> (f(xs ! i := v)) (xs ! k)"
      using e ne [of k] ne [of "par i"] k le_less_trans [OF par_le i] unfolding heap_except_def by auto
  qed
qed

lemma track_known_user:
  assumes book: "heap_book s" and Some: "heapLookup s u = Some p" and v: "v < HFSafetyThreshold"
  shows "\<exists>t. track_user u v s = Inr t \<and> heap_book t \<and>
    book_of t = (book_of s)(u \<mapsto> (v, NextCheckAt (rh_mem (riskHeap s) p)))"
proof -
  let ?h = "riskHeap s" and ?g = "set_hf p v (riskHeap s)"
  obtain i where i: "i < length (rh_items ?h)" "rh_items ?h ! i = p" "Index (rh_mem ?h p) = int i"
    using tracked_index [OF book Some] .
  let ?k = "heap_Fix RiskHeap_iface ?g i"
  have t: "track_user u v s = Inr (put_heap ?k s)"
    using Some i by (simp add: track_user_def heap_fix_at_def)
  have pre: "rh_inv ?g \<and> same_objects ?g ?g" using set_hf_inv heap_bookD(1) [OF book] by simp
  have "heap_except (hf_of ?g) (rh_items ?g) (length (rh_items ?g)) i"
    using heap_except_update [OF heap_bookD(2) [OF book] _ i(1), of v] heap_bookD(1) [OF book] i
    by (simp add: rh_inv_def)
  moreover have "i < length (rh_items ?g)" using i by simp
  ultimately have "rh_inv ?k \<and> same_objects ?g ?k" "hf_of ?k = hf_of ?g" "mset (rh_items ?k) = mset (rh_items ?g)"
    "heap_upto (hf_of ?g) (rh_items ?k) (length (rh_items ?k))"
    using rh.Fix_heap [OF pre] by blast+
  note fixed = this
  have items: "set (rh_items ?k) = set (rh_items ?h)" using mset_eq_setD [OF fixed(3)] by simp
  have same: "same_objects ?g ?k" using fixed(1) by simp
  have mem: "ri_UserAddress (rh_mem ?k q) = ri_UserAddress (rh_mem ?h q)"
    "HealthFactor (rh_mem ?k q) = (if q = p then v else HealthFactor (rh_mem ?h q))"
    "NextCheckAt (rh_mem ?k q) = NextCheckAt (rh_mem ?h q)" for q
    using same by (auto simp: same_objects_def)
  have "heap_book (put_heap ?k s)"
    unfolding heap_book_def
    using fixed(1,2,4) heap_bookD(3,4) [OF book] v by (simp add: items mem)
  moreover have "book_of (put_heap ?k s) = (book_of s)(u \<mapsto> (v, NextCheckAt (rh_mem ?h p)))"
  proof
    fix w
    have "q = p \<longleftrightarrow> w = u" if "heapLookup s w = Some q" for q
      using that Some heap_bookD(3) [OF book] by (metis option.inject)
    then show "book_of (put_heap ?k s) w = ((book_of s)(u \<mapsto> (v, NextCheckAt (rh_mem ?h p)))) w"
      using Some by (cases "heapLookup s w") (auto simp: book_of_def mem)
  qed
  ultimately show ?thesis using t by blast
qed

lemma track_new_user:
  assumes book: "heap_book s" and None: "heapLookup s u = None" and v: "v < HFSafetyThreshold"
  shows "\<exists>t. track_user u v s = Inr t \<and> heap_book t \<and> book_of t = (book_of s)(u \<mapsto> (v, 0))"
proof -
  let ?h = "riskHeap s" and ?p = "rh_fresh (riskHeap s)"
  define g where "g = snd (new_item u v ?h)"
  have n: "new_item u v ?h = (?p, g)" by (simp add: g_def new_item_def Let_def)
  have g: "rh_items g = rh_items ?h" "rh_fresh g = Suc ?p"
    "rh_mem g q = (if q = ?p then \<lparr>ri_UserAddress = u, HealthFactor = v, Index = 0, NextCheckAt = 0\<rparr> else rh_mem ?h q)"
    "hf_of g = (hf_of ?h)(?p := v)" for q
    by (auto simp: g_def new_item_def Let_def hf_of_def)
  have fresh: "?p \<notin> set (rh_items ?h)" using heap_bookD(1) [OF book] by (auto simp: rh_inv_def)
  have inv: "rh_inv g" using heap_bookD(1) [OF book] fresh
    by (auto simp: rh_inv_def g dest: nth_mem intro: less_SucI)
  have order: "heap_upto (hf_of g) (rh_items g) (length (rh_items g))"
  proof -
    have "hf_of g q = hf_of ?h q" if "q \<in> set (rh_items ?h)" for q using that fresh by (auto simp: g(4))
    then show ?thesis
      using heap_bookD(2) [OF book] heap_upto_cong [of "rh_items ?h" "hf_of g" "hf_of ?h"] by (simp add: g(1))
  qed
  have pre: "rh_inv g \<and> same_objects g g" using inv by simp
  have psh: "?p \<notin> set (rh_items g) \<and> ?p < rh_fresh g" using fresh by (simp add: g)
  let ?k = "heap_Push RiskHeap_iface g ?p"
  note push = rh.Push_heap [OF pre psh order]
  let ?t = "(put_heap ?k s)\<lparr>heapLookup := (heapLookup s)(u \<mapsto> ?p)\<rparr>"
  have t: "track_user u v s = Inr ?t" using None n by (simp add: track_user_def)
  have items: "set (rh_items ?k) = insert ?p (set (rh_items ?h))"
    using push(3) by (metis g(1) set_mset_add_mset_insert set_mset_mset)
  have same: "same_objects g ?k" using push(1) by simp
  have mem: "ri_UserAddress (rh_mem ?k q) = (if q = ?p then u else ri_UserAddress (rh_mem ?h q))"
    "HealthFactor (rh_mem ?k q) = (if q = ?p then v else HealthFactor (rh_mem ?h q))"
    "NextCheckAt (rh_mem ?k q) = (if q = ?p then 0 else NextCheckAt (rh_mem ?h q))" for q
    using same by (auto simp: same_objects_def g)
  have notin: "q \<noteq> ?p" if "heapLookup s w = Some q" for w q
    using that heap_bookD(3) [OF book] fresh by blast
  have none: "ri_UserAddress (rh_mem ?h q) \<noteq> u" if "q \<in> set (rh_items ?h)" for q
    using that None heap_bookD(3) [OF book, of u q] by auto
  have look: "heapLookup ?t w = Some q \<longleftrightarrow> q \<in> set (rh_items ?k) \<and> ri_UserAddress (rh_mem ?k q) = w" for w q
    using heap_bookD(3) [OF book, of w q] notin none fresh by (auto simp: items mem)
  have low: "hf_of ?k q < HFSafetyThreshold" if "q \<in> set (rh_items ?k)" for q
    using that heap_bookD(4) [OF book] v by (auto simp: items push(2) g(4))
  have "heap_book ?t"
    unfolding heap_book_def using push(1,2,4) look low by simp
  moreover have "book_of ?t = (book_of s)(u \<mapsto> (v, 0))"
  proof
    fix w show "book_of ?t w = ((book_of s)(u \<mapsto> (v, 0))) w"
      using notin [of w] by (cases "heapLookup s w") (auto simp: book_of_def mem)
  qed
  ultimately show ?thesis using t by blast
qed

lemma updateHeap_book:
  assumes "heap_book s"
  shows "\<exists>t. updateHeap u hf s = Inr t \<and> heap_book t \<and> book_of t = book_update u hf (book_of s)"
proof (cases "case hf of None \<Rightarrow> True | Some v \<Rightarrow> HFSafetyThreshold \<le> v")
  case True
  then have "updateHeap u hf s = drop_user u s" "book_update u hf (book_of s) = (book_of s)(u := None)"
    by (auto simp: updateHeap_def book_update_def split: option.splits)
  then show ?thesis using drop_user_book [OF assms] by simp
next
  case False
  then obtain v where v: "hf = Some v" "v < HFSafetyThreshold" by (auto split: option.splits)
  then have up: "updateHeap u hf s = track_user u v s" by (simp add: updateHeap_def)
  show ?thesis
  proof (cases "heapLookup s u")
    case None
    then show ?thesis using track_new_user [OF assms None v(2)] v up
      by (simp add: book_update_def book_of_def)
  next
    case (Some p)
    then show ?thesis using track_known_user [OF assms Some v(2)] v up
      by (simp add: book_update_def book_of_def)
  qed
qed

section \<open>Properties\<close>

lemma empty_heap_book: "heap_book NewStateStore" and empty_book_of: "book_of NewStateStore = Map.empty"
  by (auto simp: heap_book_def NewStateStore_def rh_inv_def heap_upto_def book_of_def)

text \<open>
  C6: \<open>updateHeap\<close> implements the abstract book and never panics. From a consistent book it finishes
  (every stored position is in range), the result is consistent again (heap order, positions in the
  objects, lookup table, only users below 1.05), and the user is dropped for a missing or safe health
  factor and otherwise filed under the new one with the old cooldown.
\<close>

theorem updateHeap_refines:
  assumes "heap_book s"
  shows "\<exists>t. updateHeap u hf s = Inr t \<and> heap_book t \<and> book_of t = book_update u hf (book_of s)"
  using updateHeap_book [OF assms] .

theorem updateHeap_refines_witness:
  "\<exists>t. updateHeap ''u'' (Some 5) NewStateStore = Inr t \<and> heap_book t \<and> book_of t = [''u'' \<mapsto> (5, 0)]"
  using updateHeap_refines [OF empty_heap_book, of "''u''" "Some 5"]
  by (simp add: empty_book_of book_update_def HFSafetyThreshold_def)

text \<open>
  the top of the heap is the user at the highest risk: no tracked user has a lower health factor
  than the object at position 0, and that object is the book's entry of its own user.
\<close>

theorem heap_top_is_riskiest:
  assumes "heap_book s" and "book_of s u = Some (hf, c)"
  shows "\<exists>p. rh_items (riskHeap s) \<noteq> [] \<and> p = rh_items (riskHeap s) ! 0 \<and>
    HealthFactor (rh_mem (riskHeap s) p) \<le> hf \<and>
    book_of s (ri_UserAddress (rh_mem (riskHeap s) p)) =
      Some (HealthFactor (rh_mem (riskHeap s) p), NextCheckAt (rh_mem (riskHeap s) p))"
proof -
  let ?h = "riskHeap s"
  obtain q where q: "heapLookup s u = Some q" "HealthFactor (rh_mem ?h q) = hf"
    using assms(2) by (auto simp: book_of_def)
  then have "q \<in> set (rh_items ?h)" using heap_bookD(3) [OF assms(1)] by blast
  then obtain k where k: "k < length (rh_items ?h)" "rh_items ?h ! k = q" by (auto simp: in_set_conv_nth)
  let ?p = "rh_items ?h ! 0"
  have "hf_of ?h ?p \<le> hf_of ?h q" using heap_upto_min [OF heap_bookD(2) [OF assms(1)] k(1)] k(2) by simp
  moreover have "?p \<in> set (rh_items ?h)" using k(1) by (intro nth_mem) auto
  then have "heapLookup s (ri_UserAddress (rh_mem ?h ?p)) = Some ?p" using heap_bookD(3) [OF assms(1)] by blast
  ultimately show ?thesis using k q by (auto simp: hf_of_def book_of_def)
qed

theorem heap_top_is_riskiest_witness:
  "\<exists>s p. book_of s = [''u'' \<mapsto> (5, 0), ''v'' \<mapsto> (3, 0)] \<and> p = rh_items (riskHeap s) ! 0 \<and>
     HealthFactor (rh_mem (riskHeap s) p) \<le> 3"
proof -
  obtain s where s: "heap_book s" "book_of s = [''u'' \<mapsto> (5, 0)]"
    using updateHeap_book [OF empty_heap_book, of "''u''" "Some 5"]
    by (auto simp: empty_book_of book_update_def HFSafetyThreshold_def)
  then obtain t where t: "heap_book t" "book_of t = [''u'' \<mapsto> (5, 0), ''v'' \<mapsto> (3, 0)]"
    using updateHeap_book [OF s(1), of "''v''" "Some 3"]
    by (auto simp: book_update_def HFSafetyThreshold_def)
  then have "book_of t ''v'' = Some (3, 0)" by simp
  from heap_top_is_riskiest [OF t(1) this] show ?thesis using t(2) by blast
qed

end
