(* ===== verification/Strategy.thy ===== *)
theory Strategy
  imports HealthFactor
begin

text \<open>
  \<open>internal/engine/strategy_engine.go\<close>: the search for the most profitable pair of a debt and a
  collateral of one user. Amounts are unbounded integers; the two divisions by values that come
  from prices and from the bonus can panic, so the functions on that path return an outcome. The
  figures that only feed the debug log (fee, slippage loss, floats) are left out.
\<close>

section \<open>Data and constants\<close>

record liquidation_recipe =
  lr_UserAddress :: string
  DebtAsset :: string
  CollateralAsset :: string
  DebtToCover :: int
  ExpectedSeizedAmount :: int
  ExpectedProfitUSD :: int
  LiquidationBonusBps :: u16

record asset_data =
  ad_address :: string
  ad_balance :: int
  ad_price :: int
  ad_decimals :: u64
  ad_reserveID :: u16

definition CloseFactorHfThreshold :: int where "CloseFactorHfThreshold = 95 * 10 ^ 16"

definition MinBaseMaxCloseFactorThreshold :: int where
  "MinBaseMaxCloseFactorThreshold = 200000000000"

definition MinLeftoverBase :: int where "MinLeftoverBase = 100000000000"

definition DefaultLiquidationCloseFactor :: int where "DefaultLiquidationCloseFactor = 5000"

definition PercentageFactor :: int where "PercentageFactor = 10000"

definition flashloanFeeBps :: int where "flashloanFeeBps = 5"

definition estimatedDexSlippageBps :: int where "estimatedDexSlippageBps = 50"

definition estimatedGasCostUSD :: int where "estimatedGasCostUSD = 1000000"

definition valueInBaseCurrency :: "int \<Rightarrow> int \<Rightarrow> u64 \<Rightarrow> int" where
  "valueInBaseCurrency amount price decimals =
     (let unit = big_Exp10 (sint decimals); val = amount * price in big_Div val unit)"

definition percentDivCeil :: "int \<Rightarrow> int \<Rightarrow> int" where
  "percentDivCeil value percentage =
     (if value = 0 \<or> percentage = 0 then 0
      else let num = value * PercentageFactor + percentage - 1 in big_Div num percentage)"

section \<open>The inventory of debts and collaterals\<close>

record inventory =
  inv_debts :: "asset_data list"
  inv_collaterals :: "asset_data list"
  inv_totalDebt :: int
  inv_totalCollateral :: int

definition empty_inventory :: inventory where
  "empty_inventory = \<lparr>inv_debts = [], inv_collaterals = [], inv_totalDebt = 0, inv_totalCollateral = 0\<rparr>"

definition inventory_step :: "state_store \<Rightarrow> string \<times> user_reserve \<Rightarrow> inventory \<Rightarrow> inventory" where
  "inventory_step s kr iv =
     (case kr of (assetAddr, reserve) \<Rightarrow>
      case (prices s assetAddr, globalIndices s assetAddr, assetConfigs s assetAddr) of
        (Some price, Some idx, Some cfg) \<Rightarrow>
          let iv1 =
            (if ScaledVariableDebt reserve > 0 then
               let actualDebt = RayMul (ScaledVariableDebt reserve) (VariableBorrowIndex idx);
                   debtBase = valueInBaseCurrency actualDebt price (Decimals cfg)
               in iv\<lparr>inv_debts := inv_debts iv @
                      [\<lparr>ad_address = assetAddr, ad_balance = actualDebt, ad_price = price,
                        ad_decimals = Decimals cfg, ad_reserveID = ReserveID cfg\<rparr>],
                    inv_totalDebt := inv_totalDebt iv + debtBase\<rparr>
             else iv)
          in if UsageAsCollateralEnabledOnUser reserve \<and> ScaledATokenBalance reserve > 0 then
               let actualCol = RayMul (ScaledATokenBalance reserve) (LiquidityIndex idx);
                   colBase = valueInBaseCurrency actualCol price (Decimals cfg)
               in iv1\<lparr>inv_collaterals := inv_collaterals iv1 @
                      [\<lparr>ad_address = assetAddr, ad_balance = actualCol, ad_price = price,
                        ad_decimals = Decimals cfg, ad_reserveID = ReserveID cfg\<rparr>],
                    inv_totalCollateral := inv_totalCollateral iv1 + colBase\<rparr>
             else iv1
      | _ \<Rightarrow> iv)"

definition take_inventory :: "string list \<Rightarrow> state_store \<Rightarrow> user_position \<Rightarrow> inventory" where
  "take_inventory ord s position =
     fold (inventory_step s) (visit (Reserves position) ord) empty_inventory"

section \<open>One debt against one collateral\<close>

text \<open>The close factor: half of the total debt unless the position is small or deeply unhealthy.\<close>

definition max_liquidatable_debt :: "inventory \<Rightarrow> int \<Rightarrow> asset_data \<Rightarrow> int outcome" where
  "max_liquidatable_debt iv hf debt =
     (let debtBase = valueInBaseCurrency (ad_balance debt) (ad_price debt) (ad_decimals debt) in
      if inv_totalCollateral iv \<ge> MinBaseMaxCloseFactorThreshold \<and>
         inv_totalDebt iv \<ge> MinBaseMaxCloseFactorThreshold \<and> hf > CloseFactorHfThreshold
      then let totalDefaultLiquidatableBase =
                 big_Div (inv_totalDebt iv * DefaultLiquidationCloseFactor) PercentageFactor in
           if debtBase > totalDefaultLiquidatableBase
           then let debtUnit = big_Exp10 (sint (ad_decimals debt)) in
                big_Div_checked (totalDefaultLiquidatableBase * debtUnit) (ad_price debt)
           else Inr (ad_balance debt)
      else Inr (ad_balance debt))"

definition bonus_and_fee :: "state_store \<Rightarrow> user_position \<Rightarrow> asset_data \<Rightarrow> u16 \<times> u16" where
  "bonus_and_fee s position col =
     (let (bonusBps, protocolFeeBps) =
        (case assetConfigs s (ad_address col) of None \<Rightarrow> (0, 0)
         | Some cfg \<Rightarrow> (LiquidationBonus cfg, LiquidationProtocolFee cfg))
      in if EModeFetched position \<and> EModeCategoryId position \<noteq> 0 then
           (case eModeCategories s (EModeCategoryId position) of
              None \<Rightarrow> (bonusBps, protocolFeeBps)
            | Some eModeCat \<Rightarrow>
                let colBit = big_And (big_Rsh (CollateralBitmap eModeCat) (unat (ad_reserveID col))) 1
                in if colBit = 1 then (em_LiquidationBonus eModeCat, protocolFeeBps)
                   else (bonusBps, protocolFeeBps))
         else (bonusBps, protocolFeeBps))"

text \<open>What is repaid and what is seized for a given maximal debt.\<close>

definition seize_amounts :: "asset_data \<Rightarrow> asset_data \<Rightarrow> int \<Rightarrow> int \<Rightarrow> (int \<times> int) outcome" where
  "seize_amounts debt col maxLiquidatableDebt bonusFactor =
     (let debtUnit = big_Exp10 (sint (ad_decimals debt)); colUnit = big_Exp10 (sint (ad_decimals col)) in
      bind_outcome
        (big_Div_checked (ad_price debt * maxLiquidatableDebt * colUnit) (ad_price col * debtUnit))
        (\<lambda>baseCollateral.
          let maxCollateralToLiquidate = big_Div (baseCollateral * bonusFactor) PercentageFactor in
          if maxCollateralToLiquidate > ad_balance col then
            bind_outcome
              (big_Div_checked (ad_price col * ad_balance col * debtUnit) (ad_price debt * colUnit))
              (\<lambda>debtNeededBase. Inr (percentDivCeil debtNeededBase bonusFactor, ad_balance col))
          else Inr (maxLiquidatableDebt, maxCollateralToLiquidate)))"

definition protocol_fee :: "u16 \<Rightarrow> int \<Rightarrow> int \<Rightarrow> int outcome" where
  "protocol_fee protocolFeeBps bonusFactor actualCollateralToLiquidate =
     (if protocolFeeBps > 0 then
        bind_outcome (big_Div_checked (actualCollateralToLiquidate * PercentageFactor) bonusFactor)
          (\<lambda>bonusPortion.
            let bonusCollateral = actualCollateralToLiquidate - bonusPortion
            in Inr (big_Div (bonusCollateral * uint protocolFeeBps) PercentageFactor))
      else Inr 0)"

text \<open>The protocol rejects a partial liquidation that leaves a small remainder.\<close>

definition leaves_dust :: "asset_data \<Rightarrow> asset_data \<Rightarrow> int \<Rightarrow> int \<Rightarrow> bool" where
  "leaves_dust debt col actualDebtToCover actualCollateralToLiquidate =
     (if actualDebtToCover < ad_balance debt \<and> actualCollateralToLiquidate < ad_balance col then
        let leftoverDebtBase =
              valueInBaseCurrency (ad_balance debt - actualDebtToCover) (ad_price debt) (ad_decimals debt);
            leftoverColBase =
              valueInBaseCurrency (ad_balance col - actualCollateralToLiquidate) (ad_price col) (ad_decimals col)
        in leftoverDebtBase < MinLeftoverBase \<or> leftoverColBase < MinLeftoverBase
      else False)"

definition net_profit :: "asset_data \<Rightarrow> asset_data \<Rightarrow> int \<Rightarrow> int \<Rightarrow> int" where
  "net_profit debt col actualDebtToCover botReceivesCollateral =
     (let costFactor = 10000 + flashloanFeeBps;
          debtCostAmt = big_Div (actualDebtToCover * costFactor) PercentageFactor;
          costUSD = valueInBaseCurrency debtCostAmt (ad_price debt) (ad_decimals debt);
          idealRevenueUSD = valueInBaseCurrency botReceivesCollateral (ad_price col) (ad_decimals col);
          slippageFactor = 10000 - estimatedDexSlippageBps;
          actualRevenueUSD = big_Div (idealRevenueUSD * slippageFactor) PercentageFactor;
          grossProfitUSD = actualRevenueUSD - costUSD
      in grossProfitUSD - estimatedGasCostUSD)"

text \<open>The body of the inner loop: \<open>None\<close> is its \<open>continue\<close>.\<close>

definition evaluate_pair ::
    "state_store \<Rightarrow> string \<Rightarrow> user_position \<Rightarrow> asset_data \<Rightarrow> int \<Rightarrow> asset_data \<Rightarrow>
     liquidation_recipe option outcome" where
  "evaluate_pair s userAddr position debt maxLiquidatableDebt col =
     (let (bonusBps, protocolFeeBps) = bonus_and_fee s position col; bonusFactor = uint bonusBps in
      bind_outcome (seize_amounts debt col maxLiquidatableDebt bonusFactor)
        (\<lambda>(actualDebtToCover, actualCollateralToLiquidate).
          bind_outcome (protocol_fee protocolFeeBps bonusFactor actualCollateralToLiquidate)
            (\<lambda>liquidationProtocolFee.
              let botReceivesCollateral = actualCollateralToLiquidate - liquidationProtocolFee in
              if leaves_dust debt col actualDebtToCover actualCollateralToLiquidate then Inr None
              else Inr (Some
                \<lparr>lr_UserAddress = userAddr, DebtAsset = ad_address debt,
                 CollateralAsset = ad_address col, DebtToCover = actualDebtToCover,
                 ExpectedSeizedAmount = botReceivesCollateral,
                 ExpectedProfitUSD = net_profit debt col actualDebtToCover botReceivesCollateral,
                 LiquidationBonusBps = bonusBps\<rparr>))))"

section \<open>The search\<close>

text \<open>\<open>bestRecipe\<close> and \<open>highestProfit\<close>.\<close>

type_synonym best = "liquidation_recipe option \<times> int"

definition keep_best :: "best \<Rightarrow> liquidation_recipe option \<Rightarrow> best" where
  "keep_best acc r =
     (case r of None \<Rightarrow> acc
      | Some cand \<Rightarrow> if ExpectedProfitUSD cand > snd acc then (Some cand, ExpectedProfitUSD cand) else acc)"

fun collateral_loop ::
    "state_store \<Rightarrow> string \<Rightarrow> user_position \<Rightarrow> asset_data \<Rightarrow> int \<Rightarrow> asset_data list \<Rightarrow> best \<Rightarrow> best outcome" where
  "collateral_loop s u pos debt maxDebt [] acc = Inr acc"
| "collateral_loop s u pos debt maxDebt (col # cols) acc =
     bind_outcome (evaluate_pair s u pos debt maxDebt col)
       (\<lambda>r. collateral_loop s u pos debt maxDebt cols (keep_best acc r))"

fun debt_loop ::
    "state_store \<Rightarrow> string \<Rightarrow> user_position \<Rightarrow> int \<Rightarrow> inventory \<Rightarrow> asset_data list \<Rightarrow> best \<Rightarrow> best outcome" where
  "debt_loop s u pos hf iv [] acc = Inr acc"
| "debt_loop s u pos hf iv (debt # debts) acc =
     bind_outcome (max_liquidatable_debt iv hf debt)
       (\<lambda>maxDebt. bind_outcome (collateral_loop s u pos debt maxDebt (inv_collaterals iv) acc)
         (\<lambda>acc'. debt_loop s u pos hf iv debts acc'))"

definition CalculateOptimalRecipe ::
    "string list \<Rightarrow> state_store \<Rightarrow> string \<Rightarrow> user_position \<Rightarrow> int \<Rightarrow> liquidation_recipe option outcome" where
  "CalculateOptimalRecipe ord s userAddr position hf =
     (let iv = take_inventory ord s position in
      bind_outcome (debt_loop s userAddr position hf iv (inv_debts iv) (None, 0)) (\<lambda>acc. Inr (fst acc)))"

section \<open>The inventory in closed form\<close>

definition ad_value :: "asset_data \<Rightarrow> int" where
  "ad_value d = valueInBaseCurrency (ad_balance d) (ad_price d) (ad_decimals d)"

definition debt_entries :: "state_store \<Rightarrow> string \<times> user_reserve \<Rightarrow> asset_data list" where
  "debt_entries s kr =
     (case (prices s (fst kr), globalIndices s (fst kr), assetConfigs s (fst kr)) of
        (Some price, Some idx, Some cfg) \<Rightarrow>
          if ScaledVariableDebt (snd kr) > 0
          then [\<lparr>ad_address = fst kr, ad_balance = RayMul (ScaledVariableDebt (snd kr)) (VariableBorrowIndex idx),
                 ad_price = price, ad_decimals = Decimals cfg, ad_reserveID = ReserveID cfg\<rparr>]
          else []
      | _ \<Rightarrow> [])"

definition collateral_entries :: "state_store \<Rightarrow> string \<times> user_reserve \<Rightarrow> asset_data list" where
  "collateral_entries s kr =
     (case (prices s (fst kr), globalIndices s (fst kr), assetConfigs s (fst kr)) of
        (Some price, Some idx, Some cfg) \<Rightarrow>
          if UsageAsCollateralEnabledOnUser (snd kr) \<and> ScaledATokenBalance (snd kr) > 0
          then [\<lparr>ad_address = fst kr, ad_balance = RayMul (ScaledATokenBalance (snd kr)) (LiquidityIndex idx),
                 ad_price = price, ad_decimals = Decimals cfg, ad_reserveID = ReserveID cfg\<rparr>]
          else []
      | _ \<Rightarrow> [])"

lemma inventory_step_eq:
  "inventory_step s kr iv =
     \<lparr>inv_debts = inv_debts iv @ debt_entries s kr,
      inv_collaterals = inv_collaterals iv @ collateral_entries s kr,
      inv_totalDebt = inv_totalDebt iv + sum_list (map ad_value (debt_entries s kr)),
      inv_totalCollateral = inv_totalCollateral iv + sum_list (map ad_value (collateral_entries s kr))\<rparr>"
  by (cases kr) (auto simp: inventory_step_def debt_entries_def collateral_entries_def ad_value_def
      Let_def split: option.splits)

lemma fold_inventory:
  "fold (inventory_step s) krs iv =
     \<lparr>inv_debts = inv_debts iv @ concat (map (debt_entries s) krs),
      inv_collaterals = inv_collaterals iv @ concat (map (collateral_entries s) krs),
      inv_totalDebt = inv_totalDebt iv + sum_list (map ad_value (concat (map (debt_entries s) krs))),
      inv_totalCollateral =
        inv_totalCollateral iv + sum_list (map ad_value (concat (map (collateral_entries s) krs)))\<rparr>"
  by (induction krs arbitrary: iv) (simp_all add: inventory_step_eq add.assoc)

lemma take_inventory_eq:
  "take_inventory ord s p =
     \<lparr>inv_debts = concat (map (debt_entries s) (visit (Reserves p) ord)),
      inv_collaterals = concat (map (collateral_entries s) (visit (Reserves p) ord)),
      inv_totalDebt = sum_list (map ad_value (concat (map (debt_entries s) (visit (Reserves p) ord)))),
      inv_totalCollateral =
        sum_list (map ad_value (concat (map (collateral_entries s) (visit (Reserves p) ord))))\<rparr>"
  by (simp add: take_inventory_def fold_inventory empty_inventory_def)

text \<open>Entries of an inventory of non-negative data.\<close>

definition ad_nonneg :: "asset_data \<Rightarrow> bool" where
  "ad_nonneg d \<longleftrightarrow> 0 \<le> ad_balance d \<and> 0 \<le> ad_price d"

lemma entries_nonneg:
  assumes "market_nonneg s"
  shows "d \<in> set (debt_entries s kr) \<Longrightarrow> ad_nonneg d"
    and "d \<in> set (collateral_entries s kr) \<Longrightarrow> ad_nonneg d"
  using assms
  by (auto simp: debt_entries_def collateral_entries_def ad_nonneg_def market_nonneg_def RayMul_nonneg
      split: option.splits if_splits)

lemma inventory_nonneg:
  assumes "market_nonneg s"
  shows "d \<in> set (inv_debts (take_inventory ord s p)) \<Longrightarrow> ad_nonneg d"
    and "d \<in> set (inv_collaterals (take_inventory ord s p)) \<Longrightarrow> ad_nonneg d"
  using entries_nonneg [OF assms] by (auto simp: take_inventory_eq)

lemma valueInBaseCurrency_eq:
  "valueInBaseCurrency a pr dec = a * pr div big_Exp10 (sint dec)"
  by (simp add: valueInBaseCurrency_def big_Div_pos)

lemma ad_value_nonneg: "ad_nonneg d \<Longrightarrow> 0 \<le> ad_value d"
  by (simp add: ad_value_def valueInBaseCurrency_eq ad_nonneg_def pos_imp_zdiv_nonneg_iff)

lemma totals_nonneg:
  assumes "market_nonneg s"
  shows "0 \<le> inv_totalDebt (take_inventory ord s p)" "0 \<le> inv_totalCollateral (take_inventory ord s p)"
  using inventory_nonneg [OF assms, of _ ord p] ad_value_nonneg
  by (auto simp: take_inventory_eq intro!: sum_list_nonneg simp del: set_concat)

text \<open>The visiting order permutes the two lists and keeps the totals.\<close>

lemma inventory_order:
  assumes "enumerates xs (dom (Reserves p))" and "enumerates ys (dom (Reserves p))"
  shows "set (inv_debts (take_inventory xs s p)) = set (inv_debts (take_inventory ys s p))"
    "set (inv_collaterals (take_inventory xs s p)) = set (inv_collaterals (take_inventory ys s p))"
    "inv_totalDebt (take_inventory xs s p) = inv_totalDebt (take_inventory ys s p)"
    "inv_totalCollateral (take_inventory xs s p) = inv_totalCollateral (take_inventory ys s p)"
proof -
  have m: "mset (visit (Reserves p) xs) = mset (visit (Reserves p) ys)" using mset_visit [OF assms] .
  then have sets: "set (visit (Reserves p) xs) = set (visit (Reserves p) ys)" by (rule mset_eq_setD)
  have total: "sum_list (map ad_value (concat (map f (visit (Reserves p) xs)))) =
      sum_list (map ad_value (concat (map f (visit (Reserves p) ys))))" for f
  proof -
    have *: "sum_list (map ad_value (concat (map f zs))) = sum_mset (image_mset (\<lambda>z. sum_list (map ad_value (f z))) (mset zs))"
      for zs by (induction zs) simp_all
    show ?thesis unfolding * m ..
  qed
  show "set (inv_debts (take_inventory xs s p)) = set (inv_debts (take_inventory ys s p))"
    "set (inv_collaterals (take_inventory xs s p)) = set (inv_collaterals (take_inventory ys s p))"
    "inv_totalDebt (take_inventory xs s p) = inv_totalDebt (take_inventory ys s p)"
    "inv_totalCollateral (take_inventory xs s p) = inv_totalCollateral (take_inventory ys s p)"
    using sets total by (simp_all add: take_inventory_eq)
qed

section \<open>Bounds of one evaluation\<close>

lemma div_mult_le: "0 < (d :: int) \<Longrightarrow> x div d * d \<le> x"
  using pos_mod_sign [of d x] by (simp add: minus_mod_eq_div_mult [symmetric])

lemma ceil_div_le:
  fixes x d m :: int
  assumes "0 < d" and "x \<le> m * d"
  shows "(x + d - 1) div d \<le> m"
proof -
  have "x + d - 1 < (m + 1) * d" using assms by (simp add: algebra_simps)
  then have "(x + d - 1) div d < m + 1" using assms(1) by (simp only: div_less_iff)
  then show ?thesis by simp
qed

lemma percentDivCeil_eq:
  "0 < pct \<Longrightarrow> percentDivCeil v pct = (if v = 0 then 0 else (v * 10000 + pct - 1) div pct)"
  by (simp add: percentDivCeil_def PercentageFactor_def big_Div_pos)

lemma percentDivCeil_bounds:
  assumes "0 \<le> v" "0 < pct"
  shows "0 \<le> percentDivCeil v pct" and "v * 10000 \<le> m * pct \<Longrightarrow> 0 \<le> m \<Longrightarrow> percentDivCeil v pct \<le> m"
    and "v * 10000 \<le> percentDivCeil v pct * pct"
proof -
  show "0 \<le> percentDivCeil v pct"
    using assms by (simp add: percentDivCeil_eq pos_imp_zdiv_nonneg_iff)
  show "percentDivCeil v pct \<le> m" if "v * 10000 \<le> m * pct" "0 \<le> m"
    using that assms ceil_div_le [of pct "v * 10000" m] by (simp add: percentDivCeil_eq)
  show "v * 10000 \<le> percentDivCeil v pct * pct"
  proof (cases "v = 0")
    case False
    let ?n = "v * 10000 + pct - 1"
    have "?n - ?n mod pct = ?n div pct * pct" by (simp add: minus_mod_eq_div_mult)
    moreover have "?n mod pct < pct" using assms(2) by (rule pos_mod_bound)
    ultimately have "v * 10000 \<le> ?n div pct * pct" by linarith
    then show ?thesis using False assms by (simp add: percentDivCeil_eq)
  qed (simp add: percentDivCeil_def)
qed

lemma max_liquidatable_cases:
  assumes d: "ad_nonneg debt" and t: "0 \<le> inv_totalDebt iv"
  obtains m where "max_liquidatable_debt iv hf debt = Inr m" "0 \<le> m" "m \<le> ad_balance debt"
    "MinBaseMaxCloseFactorThreshold \<le> inv_totalCollateral iv \<Longrightarrow>
     MinBaseMaxCloseFactorThreshold \<le> inv_totalDebt iv \<Longrightarrow> CloseFactorHfThreshold < hf \<Longrightarrow>
     valueInBaseCurrency m (ad_price debt) (ad_decimals debt) \<le> inv_totalDebt iv div 2"
proof -
  let ?half = "inv_totalDebt iv div 2" and ?u = "big_Exp10 (sint (ad_decimals debt))"
  let ?cap = "MinBaseMaxCloseFactorThreshold \<le> inv_totalCollateral iv \<and>
     MinBaseMaxCloseFactorThreshold \<le> inv_totalDebt iv \<and> CloseFactorHfThreshold < hf"
  have half: "big_Div (inv_totalDebt iv * 5000) 10000 = ?half" by (simp add: big_Div_pos)
  show ?thesis
  proof (cases "?cap \<and> ?half < ad_value debt")
    case False
    then have "max_liquidatable_debt iv hf debt = Inr (ad_balance debt)"
      by (auto simp: max_liquidatable_debt_def Let_def DefaultLiquidationCloseFactor_def
          PercentageFactor_def half ad_value_def)
    then show ?thesis using that [of "ad_balance debt"] False d by (auto simp: ad_nonneg_def ad_value_def)
  next
    case True
    have h0: "0 \<le> ?half" using t by simp
    have pr: "0 < ad_price debt"
      using True h0 d by (cases "ad_price debt = 0") (auto simp: ad_value_def valueInBaseCurrency_eq ad_nonneg_def)
    let ?m = "?half * ?u div ad_price debt"
    have m: "max_liquidatable_debt iv hf debt = Inr ?m"
      using True pr by (simp add: max_liquidatable_debt_def Let_def DefaultLiquidationCloseFactor_def
          PercentageFactor_def half ad_value_def big_Div_checked_def big_Div_pos)
    have m0: "0 \<le> ?m" using h0 pr by (simp add: pos_imp_zdiv_nonneg_iff less_imp_le)
    have mp: "?m * ad_price debt \<le> ?half * ?u" using pr by (rule div_mult_le)
    then have "?m * ad_price debt div ?u \<le> ?half * ?u div ?u" by (intro zdiv_mono1) simp_all
    then have v: "valueInBaseCurrency ?m (ad_price debt) (ad_decimals debt) \<le> ?half"
      using big_Exp10_pos [of "sint (ad_decimals debt)"] by (simp add: valueInBaseCurrency_eq)
    have "?half < ad_balance debt * ad_price debt div ?u"
      using True by (simp add: ad_value_def valueInBaseCurrency_eq)
    then have "\<not> ad_balance debt * ad_price debt < (?half + 1) * ?u"
      using div_less_iff [of ?u "ad_balance debt * ad_price debt" "?half + 1"] by simp
    then have "(?half + 1) * ?u \<le> ad_balance debt * ad_price debt" by simp
    moreover have "?half * ?u \<le> (?half + 1) * ?u" by (simp add: less_imp_le)
    ultimately have "?half * ?u \<le> ad_balance debt * ad_price debt" by linarith
    then have "?m * ad_price debt \<le> ad_balance debt * ad_price debt" using mp by linarith
    then have "?m \<le> ad_balance debt" using pr by simp
    then show ?thesis using that [OF m m0] v by blast
  qed
qed

lemma big_Div_checked_Inr: "big_Div_checked x y = Inr z \<longleftrightarrow> y \<noteq> 0 \<and> z = big_Div x y"
  by (auto simp: big_Div_checked_def)

lemma big_Div_checked_Inl: "big_Div_checked x y = Inl e \<longleftrightarrow> y = 0 \<and> e = DivisionByZero"
  by (auto simp: big_Div_checked_def)

text \<open>Repaying what the seized collateral is worth never exceeds the allowed debt.\<close>

lemma needed_le_max:
  fixes dp cp m bal du cu bonus :: int
  assumes pos: "0 < dp" "0 < cp" "0 < du" "0 < cu" "0 < bonus" and bal: "0 \<le> bal"
    and big: "bal < dp * m * cu div (cp * du) * bonus div 10000"
  shows "cp * bal * du div (dp * cu) * 10000 \<le> m * bonus"
proof -
  let ?base = "dp * m * cu div (cp * du)" and ?need = "cp * bal * du div (dp * cu)"
  have "bal * 10000 \<le> ?base * bonus div 10000 * 10000" using big by simp
  also have "\<dots> \<le> ?base * bonus" by (rule div_mult_le) simp
  finally have 1: "bal * 10000 \<le> ?base * bonus" .
  have 2: "?base * (cp * du) \<le> dp * m * cu" using pos by (intro div_mult_le) simp
  have 3: "?need * (dp * cu) \<le> cp * bal * du" using pos by (intro div_mult_le) simp
  have "?need * 10000 * (dp * cu) = ?need * (dp * cu) * 10000" by simp
  also have "\<dots> \<le> cp * bal * du * 10000" using 3 by (intro mult_right_mono) auto
  also have "\<dots> = (bal * 10000) * (cp * du)" by (simp add: algebra_simps)
  also have "\<dots> \<le> ?base * bonus * (cp * du)" using 1 pos by (intro mult_right_mono) auto
  also have "\<dots> = ?base * (cp * du) * bonus" by (simp add: algebra_simps)
  also have "\<dots> \<le> dp * m * cu * bonus" using 2 pos by (intro mult_right_mono) auto
  also have "\<dots> = m * bonus * (dp * cu)" by (simp add: algebra_simps)
  finally show ?thesis using pos by (simp add: mult_le_cancel_right)
qed

lemma seize_amounts_bounds:
  assumes d: "ad_nonneg debt" and c: "ad_nonneg col" and m: "0 \<le> m" and b: "0 \<le> bonus"
    and r: "seize_amounts debt col m bonus = Inr (dc, ac)"
  shows "0 \<le> dc \<and> dc \<le> m \<and> 0 \<le> ac \<and> ac \<le> ad_balance col"
proof -
  let ?du = "big_Exp10 (sint (ad_decimals debt))" and ?cu = "big_Exp10 (sint (ad_decimals col))"
  let ?base = "ad_price debt * m * ?cu div (ad_price col * ?du)"
  have cp: "0 < ad_price col" using r c by (cases "ad_price col = 0")
      (auto simp: seize_amounts_def Let_def big_Div_checked_def ad_nonneg_def)
  have nn: "0 \<le> ad_price debt" "0 \<le> ad_balance col" using d c by (auto simp: ad_nonneg_def)
  have base0: "0 \<le> ?base" using nn cp m by (simp add: pos_imp_zdiv_nonneg_iff less_imp_le)
  have baseq: "big_Div_checked (ad_price debt * m * ?cu) (ad_price col * ?du) = Inr ?base"
    using cp big_Exp10_pos [of "sint (ad_decimals debt)"]
    by (auto simp: big_Div_checked_def big_Div_pos)
  show ?thesis
  proof (cases "ad_balance col < ?base * bonus div 10000")
    case False
    then show ?thesis using r baseq m base0 b nn
      by (auto simp: seize_amounts_def Let_def PercentageFactor_def big_Div_pos pos_imp_zdiv_nonneg_iff)
  next
    case True
    have bp: "0 < bonus" using True b nn by (cases "bonus = 0") auto
    have dp: "0 < ad_price debt" using True nn by (cases "ad_price debt = 0") auto
    let ?need = "ad_price col * ad_balance col * ?du div (ad_price debt * ?cu)"
    have "big_Div_checked (ad_price col * ad_balance col * ?du) (ad_price debt * ?cu) = Inr ?need"
      using dp big_Exp10_pos [of "sint (ad_decimals col)"] by (auto simp: big_Div_checked_def big_Div_pos)
    then have "seize_amounts debt col m bonus = Inr (percentDivCeil ?need bonus, ad_balance col)"
      using baseq True by (simp add: seize_amounts_def Let_def PercentageFactor_def big_Div_pos)
    then have res: "dc = percentDivCeil ?need bonus" "ac = ad_balance col" using r by simp_all
    have need0: "0 \<le> ?need" using nn cp dp by (simp add: pos_imp_zdiv_nonneg_iff less_imp_le)
    have "?need * 10000 \<le> m * bonus" using needed_le_max [OF dp cp _ _ bp nn(2) True] by simp
    then show ?thesis
      using percentDivCeil_bounds(1,2) [OF need0 bp] m res nn by simp
  qed
qed

text \<open>When the evaluation of a pair panics.\<close>

definition pair_panics :: "state_store \<Rightarrow> user_position \<Rightarrow> asset_data \<Rightarrow> bool" where
  "pair_panics s pos col \<longleftrightarrow> ad_price col = 0 \<or>
     fst (bonus_and_fee s pos col) = 0 \<and> 0 < snd (bonus_and_fee s pos col)"

lemma seize_amounts_panic:
  assumes d: "ad_nonneg debt" and c: "ad_nonneg col" and m: "0 \<le> m" and b: "0 \<le> bonus"
  shows "seize_amounts debt col m bonus = Inl e \<longleftrightarrow> ad_price col = 0 \<and> e = DivisionByZero"
proof (cases "ad_price col = 0")
  case True
  then show ?thesis by (auto simp: seize_amounts_def Let_def big_Div_checked_def)
next
  case False
  let ?du = "big_Exp10 (sint (ad_decimals debt))" and ?cu = "big_Exp10 (sint (ad_decimals col))"
  let ?base = "ad_price debt * m * ?cu div (ad_price col * ?du)"
  have du: "0 < ?du" and cu: "0 < ?cu" by simp_all
  have cp: "0 < ad_price col" using False c by (simp add: ad_nonneg_def)
  then have baseq: "big_Div_checked (ad_price debt * m * ?cu) (ad_price col * ?du) = Inr ?base"
    using du by (auto simp: big_Div_checked_def big_Div_pos)
  have "ad_price debt \<noteq> 0" if "ad_balance col < ?base * bonus div 10000"
    using that c by (auto simp: ad_nonneg_def)
  then show ?thesis using False baseq cu
    by (auto simp: seize_amounts_def Let_def big_Div_checked_def PercentageFactor_def big_Div_pos)
qed

lemma evaluate_pair_panic:
  assumes "ad_nonneg debt" "ad_nonneg col" "0 \<le> m"
  shows "evaluate_pair s u pos debt m col = Inl e \<longleftrightarrow> pair_panics s pos col \<and> e = DivisionByZero"
proof -
  obtain bonus fee where bf: "bonus_and_fee s pos col = (bonus, fee)" by fastforce
  have b0: "uint bonus = 0 \<longleftrightarrow> bonus = 0" by (simp add: uint_0_iff)
  show ?thesis
  proof (cases "ad_price col = 0")
    case True
    then have "seize_amounts debt col m (uint bonus) = Inl DivisionByZero"
      using seize_amounts_panic [OF assms, of "uint bonus"] by simp
    then show ?thesis using True bf by (auto simp: evaluate_pair_def pair_panics_def)
  next
    case False
    then obtain dc ac where "seize_amounts debt col m (uint bonus) = Inr (dc, ac)"
      using seize_amounts_panic [OF assms, of "uint bonus"] by (cases "seize_amounts debt col m (uint bonus)") auto
    then show ?thesis using False bf b0
      by (auto simp: evaluate_pair_def pair_panics_def protocol_fee_def big_Div_checked_def Let_def
          split: if_splits)
  qed
qed

section \<open>The search keeps the best candidate\<close>

definition acc_ok :: "best \<Rightarrow> bool" where
  "acc_ok acc \<longleftrightarrow> (case fst acc of None \<Rightarrow> snd acc = 0
     | Some r \<Rightarrow> ExpectedProfitUSD r = snd acc \<and> 0 < snd acc)"

definition profit_of :: "liquidation_recipe option \<Rightarrow> int" where
  "profit_of r = (case r of None \<Rightarrow> 0 | Some x \<Rightarrow> ExpectedProfitUSD x)"

lemma acc_ok_profit: "acc_ok acc \<Longrightarrow> snd acc = profit_of (fst acc)"
  by (auto simp: acc_ok_def profit_of_def split: option.splits)

lemma acc_ok_nonneg: "acc_ok acc \<Longrightarrow> 0 \<le> snd acc"
  by (auto simp: acc_ok_def split: option.splits)

lemma keep_best:
  assumes "acc_ok acc"
  shows "acc_ok (keep_best acc r)" "snd acc \<le> snd (keep_best acc r)"
    "r = Some cand \<Longrightarrow> ExpectedProfitUSD cand \<le> snd (keep_best acc r)"
    "fst (keep_best acc r) = fst acc \<or> fst (keep_best acc r) = r"
  using assms acc_ok_nonneg [OF assms] by (auto simp: keep_best_def acc_ok_def split: option.splits)

lemma collateral_loop_best:
  assumes "acc_ok acc" and "collateral_loop s u pos debt m cols acc = Inr acc'"
  shows "acc_ok acc' \<and> snd acc \<le> snd acc' \<and>
    (\<forall>col \<in> set cols. \<forall>cand. evaluate_pair s u pos debt m col = Inr (Some cand) \<longrightarrow>
       ExpectedProfitUSD cand \<le> snd acc') \<and>
    (fst acc' = fst acc \<or> (\<exists>col \<in> set cols. evaluate_pair s u pos debt m col = Inr (fst acc')))"
  using assms
proof (induction cols arbitrary: acc)
  case (Cons col cols)
  then obtain r where r: "evaluate_pair s u pos debt m col = Inr r"
    and loop: "collateral_loop s u pos debt m cols (keep_best acc r) = Inr acc'"
    by (auto simp: bind_outcome_Inr_iff)
  note kb = keep_best [OF Cons.prems(1)]
  note ih = Cons.IH [OF kb(1) loop]
  have "snd acc \<le> snd acc'" using ih kb(2) [of r] by simp
  moreover have "ExpectedProfitUSD cand \<le> snd acc'" if "r = Some cand" for cand
    using ih kb(3) [OF that] that by simp
  ultimately show ?case using ih r kb(4) [of r] by auto
qed simp

lemma debt_loop_best:
  assumes "acc_ok acc" and "debt_loop s u pos hf iv debts acc = Inr acc'"
  shows "acc_ok acc' \<and> snd acc \<le> snd acc' \<and>
    (\<forall>debt \<in> set debts. \<forall>m. max_liquidatable_debt iv hf debt = Inr m \<longrightarrow>
       (\<forall>col \<in> set (inv_collaterals iv). \<forall>cand. evaluate_pair s u pos debt m col = Inr (Some cand) \<longrightarrow>
          ExpectedProfitUSD cand \<le> snd acc')) \<and>
    (fst acc' = fst acc \<or>
     (\<exists>debt \<in> set debts. \<exists>m. max_liquidatable_debt iv hf debt = Inr m \<and>
        (\<exists>col \<in> set (inv_collaterals iv). evaluate_pair s u pos debt m col = Inr (fst acc'))))"
  using assms
proof (induction debts arbitrary: acc)
  case (Cons debt debts)
  then obtain m acc1 where m: "max_liquidatable_debt iv hf debt = Inr m"
    and inner: "collateral_loop s u pos debt m (inv_collaterals iv) acc = Inr acc1"
    and loop: "debt_loop s u pos hf iv debts acc1 = Inr acc'"
    by (auto simp: bind_outcome_Inr_iff)
  note in1 = collateral_loop_best [OF Cons.prems(1) inner]
  note ih = Cons.IH [OF _ loop]
  have ok: "acc_ok acc1" and up: "snd acc \<le> snd acc1" using in1 by blast+
  note ih = ih [OF ok]
  have "snd acc \<le> snd acc'" and up1: "snd acc1 \<le> snd acc'" using ih up by auto
  moreover have "ExpectedProfitUSD cand \<le> snd acc'"
    if "col \<in> set (inv_collaterals iv)" "evaluate_pair s u pos debt m col = Inr (Some cand)" for col cand
    using in1 that up1 by (meson order_trans)
  ultimately show ?case using ih in1 m by auto
qed simp

section \<open>The candidates of the search\<close>

text \<open>\<open>cand\<close> is what the loop body builds for some debt and collateral of the position.\<close>

definition candidate ::
    "string list \<Rightarrow> state_store \<Rightarrow> string \<Rightarrow> user_position \<Rightarrow> int \<Rightarrow> liquidation_recipe \<Rightarrow> bool" where
  "candidate ord s u p hf cand \<longleftrightarrow>
     (\<exists>debt \<in> set (inv_debts (take_inventory ord s p)). \<exists>m.
        max_liquidatable_debt (take_inventory ord s p) hf debt = Inr m \<and>
        (\<exists>col \<in> set (inv_collaterals (take_inventory ord s p)).
           evaluate_pair s u p debt m col = Inr (Some cand)))"

lemma search_result:
  assumes "CalculateOptimalRecipe ord s u p hf = Inr res"
  shows "candidate ord s u p hf cand \<Longrightarrow> ExpectedProfitUSD cand \<le> profit_of res"
    and "res = Some r \<Longrightarrow> candidate ord s u p hf r \<and> 0 < ExpectedProfitUSD r"
proof -
  obtain acc where acc: "debt_loop s u p hf (take_inventory ord s p) (inv_debts (take_inventory ord s p)) (None, 0) = Inr acc"
    and res: "res = fst acc"
    using assms by (auto simp: CalculateOptimalRecipe_def Let_def bind_outcome_Inr_iff)
  have "acc_ok (None, 0)" by (simp add: acc_ok_def)
  note best = debt_loop_best [OF this acc]
  have ok: "acc_ok acc" using best by blast
  show "ExpectedProfitUSD cand \<le> profit_of res" if "candidate ord s u p hf cand"
    using that best acc_ok_profit [OF ok] res by (auto simp: candidate_def)
  show "candidate ord s u p hf r \<and> 0 < ExpectedProfitUSD r" if "res = Some r"
    using that best res by (auto simp: candidate_def acc_ok_def)
qed

lemma candidate_order:
  assumes "enumerates xs (dom (Reserves p))" and "enumerates ys (dom (Reserves p))"
  shows "candidate xs s u p hf cand = candidate ys s u p hf cand"
  using inventory_order [OF assms, of s] by (simp add: candidate_def max_liquidatable_debt_def)

lemma debt_entries_iff:
  "d \<in> set (debt_entries s kr) \<longleftrightarrow>
     (\<exists>price idx cfg. prices s (fst kr) = Some price \<and> globalIndices s (fst kr) = Some idx \<and>
        assetConfigs s (fst kr) = Some cfg \<and> 0 < ScaledVariableDebt (snd kr) \<and>
        d = \<lparr>ad_address = fst kr, ad_balance = RayMul (ScaledVariableDebt (snd kr)) (VariableBorrowIndex idx),
             ad_price = price, ad_decimals = Decimals cfg, ad_reserveID = ReserveID cfg\<rparr>)"
  by (cases "prices s (fst kr)"; cases "globalIndices s (fst kr)"; cases "assetConfigs s (fst kr)")
    (auto simp: debt_entries_def)

lemma collateral_entries_iff:
  "d \<in> set (collateral_entries s kr) \<longleftrightarrow>
     (\<exists>price idx cfg. prices s (fst kr) = Some price \<and> globalIndices s (fst kr) = Some idx \<and>
        assetConfigs s (fst kr) = Some cfg \<and> UsageAsCollateralEnabledOnUser (snd kr) \<and>
        0 < ScaledATokenBalance (snd kr) \<and>
        d = \<lparr>ad_address = fst kr, ad_balance = RayMul (ScaledATokenBalance (snd kr)) (LiquidityIndex idx),
             ad_price = price, ad_decimals = Decimals cfg, ad_reserveID = ReserveID cfg\<rparr>)"
  by (cases "prices s (fst kr)"; cases "globalIndices s (fst kr)"; cases "assetConfigs s (fst kr)")
    (auto simp: collateral_entries_def)

lemma debt_entry_of:
  assumes "enumerates ord (dom (Reserves p))" and "d \<in> set (inv_debts (take_inventory ord s p))"
  shows "\<exists>rv idx cfg. Reserves p (ad_address d) = Some rv \<and> globalIndices s (ad_address d) = Some idx \<and>
    prices s (ad_address d) = Some (ad_price d) \<and> assetConfigs s (ad_address d) = Some cfg \<and>
    0 < ScaledVariableDebt rv \<and> ad_balance d = RayMul (ScaledVariableDebt rv) (VariableBorrowIndex idx) \<and>
    ad_decimals d = Decimals cfg \<and> ad_reserveID d = ReserveID cfg"
  using assms by (auto simp: take_inventory_eq debt_entries_iff set_visit_enumerates)

lemma collateral_entry_of:
  assumes "enumerates ord (dom (Reserves p))" and "d \<in> set (inv_collaterals (take_inventory ord s p))"
  shows "\<exists>rv idx cfg. Reserves p (ad_address d) = Some rv \<and> globalIndices s (ad_address d) = Some idx \<and>
    prices s (ad_address d) = Some (ad_price d) \<and> assetConfigs s (ad_address d) = Some cfg \<and>
    UsageAsCollateralEnabledOnUser rv \<and> 0 < ScaledATokenBalance rv \<and>
    ad_balance d = RayMul (ScaledATokenBalance rv) (LiquidityIndex idx) \<and>
    ad_decimals d = Decimals cfg \<and> ad_reserveID d = ReserveID cfg"
  using assms by (auto simp: take_inventory_eq collateral_entries_iff set_visit_enumerates)

text \<open>Bonuses include the repaid part (at least 100%), the protocol takes at most the whole bonus.\<close>

definition bonuses_sane :: "state_store \<Rightarrow> bool" where
  "bonuses_sane s \<longleftrightarrow>
     (\<forall>cfg \<in> ran (assetConfigs s). 10000 \<le> LiquidationBonus cfg \<and> LiquidationProtocolFee cfg \<le> 10000) \<and>
     (\<forall>cat \<in> ran (eModeCategories s). 10000 \<le> em_LiquidationBonus cat)"

lemma bonus_and_fee_sane:
  assumes "bonuses_sane s" and "assetConfigs s (ad_address col) = Some cfg"
  shows "10000 \<le> fst (bonus_and_fee s p col)" and "snd (bonus_and_fee s p col) \<le> 10000"
  using assms by (auto simp: bonus_and_fee_def bonuses_sane_def ran_def Let_def split: option.splits)

lemma protocol_fee_bounds:
  fixes bonus fee :: u16
  assumes b: "10000 \<le> bonus" and f: "fee \<le> 10000" and ac: "0 \<le> ac"
    and r: "protocol_fee fee (uint bonus) ac = Inr x"
  shows "0 \<le> x \<and> x \<le> ac"
proof (cases "0 < fee")
  case True
  have B: "10000 \<le> uint bonus" using b by (simp add: word_le_def)
  have F: "0 \<le> uint fee" "uint fee \<le> 10000" using f by (simp_all add: word_le_def)
  let ?p = "ac * 10000 div uint bonus"
  have p0: "0 \<le> ?p" using ac B by (simp add: pos_imp_zdiv_nonneg_iff)
  have "ac * 10000 div uint bonus \<le> ac * uint bonus div uint bonus"
    using B ac by (intro zdiv_mono1 mult_left_mono) simp_all
  then have p1: "?p \<le> ac" using B by simp
  have x: "x = (ac - ?p) * uint fee div 10000"
    using r True B by (simp add: protocol_fee_def big_Div_checked_def big_Div_pos PercentageFactor_def
        Let_def split: if_splits)
  have "(ac - ?p) * uint fee \<le> ac * 10000"
    using p0 p1 F ac by (intro mult_mono) simp_all
  then have "x \<le> ac * 10000 div 10000" unfolding x by (intro zdiv_mono1) simp_all
  moreover have "0 \<le> x" unfolding x using p1 F by (simp add: pos_imp_zdiv_nonneg_iff)
  ultimately show ?thesis by simp
next
  case False
  then show ?thesis using r ac by (simp add: protocol_fee_def)
qed

lemma evaluate_pair_Some:
  assumes "evaluate_pair s u pos debt m col = Inr (Some r)"
  obtains dc ac fee where
    "seize_amounts debt col m (uint (fst (bonus_and_fee s pos col))) = Inr (dc, ac)"
    "protocol_fee (snd (bonus_and_fee s pos col)) (uint (fst (bonus_and_fee s pos col))) ac = Inr fee"
    "\<not> leaves_dust debt col dc ac" "lr_UserAddress r = u" "DebtAsset r = ad_address debt"
    "CollateralAsset r = ad_address col" "DebtToCover r = dc" "ExpectedSeizedAmount r = ac - fee"
    "ExpectedProfitUSD r = net_profit debt col dc (ac - fee)" "LiquidationBonusBps r = fst (bonus_and_fee s pos col)"
  using assms by (auto simp: evaluate_pair_def bind_outcome_Inr_iff Let_def split: prod.splits if_splits)

lemma value_mono:
  "a \<le> b \<Longrightarrow> 0 \<le> pr \<Longrightarrow> valueInBaseCurrency a pr dec \<le> valueInBaseCurrency b pr dec"
  by (simp add: valueInBaseCurrency_eq zdiv_mono1 mult_right_mono)

section \<open>Properties of the strategy\<close>

text \<open>A position with one borrowed and one supplied asset and its market, for the examples.\<close>

definition pair_position :: user_position where
  "pair_position = \<lparr>UserAddress = ''u'', Reserves =
     [''d'' \<mapsto> \<lparr>AssetAddress = ''d'', ScaledATokenBalance = 0, ScaledVariableDebt = 5000,
               UsageAsCollateralEnabledOnUser = False\<rparr>,
      ''c'' \<mapsto> \<lparr>AssetAddress = ''c'', ScaledATokenBalance = 9000, ScaledVariableDebt = 0,
               UsageAsCollateralEnabledOnUser = True\<rparr>],
     EModeCategoryId = 0, EModeFetched = True\<rparr>"

definition pair_config :: "u16 \<Rightarrow> u16 \<Rightarrow> asset_config" where
  "pair_config reserve bonus = \<lparr>Decimals = 0, LiquidationThreshold = 8000, LiquidationBonus = bonus,
     ReserveID = reserve, ATokenAddress = ''a'', VTokenAddress = ''v'', LiquidationProtocolFee = 1000\<rparr>"

definition pair_store :: "int \<Rightarrow> u16 \<Rightarrow> state_store" where
  "pair_store colPrice bonus = NewStateStore
     \<lparr>userPositions := [''u'' \<mapsto> pair_position], prices := [''d'' \<mapsto> 100000000, ''c'' \<mapsto> colPrice],
      globalIndices := [''d'' \<mapsto> \<lparr>gi_AssetAddress = ''d'', LiquidityIndex = RAY, VariableBorrowIndex = RAY, LastUpdateBlock = 0\<rparr>,
                        ''c'' \<mapsto> \<lparr>gi_AssetAddress = ''c'', LiquidityIndex = RAY, VariableBorrowIndex = RAY, LastUpdateBlock = 0\<rparr>],
      assetConfigs := [''d'' \<mapsto> pair_config 0 10500, ''c'' \<mapsto> pair_config 1 bonus]\<rparr>"

lemma pair_enum [simp]: "enumerates [''c'', ''d''] (dom (Reserves pair_position))"
  "enumerates [''d'', ''c''] (dom (Reserves pair_position))"
  by (auto simp: enumerates_def pair_position_def)

lemma pair_market [simp]: "0 \<le> colPrice \<Longrightarrow> market_nonneg (pair_store colPrice bonus)"
  by (auto simp: market_nonneg_def pair_store_def RAY_def NewStateStore_def)

lemma pair_bonuses [simp]: "bonuses_sane (pair_store colPrice 10500)"
  by (auto simp: bonuses_sane_def pair_store_def pair_config_def NewStateStore_def ran_def)

text \<open>What a returned recipe was built from: a debt, a collateral, the amounts and the fee.\<close>

definition built_from ::
    "inventory \<Rightarrow> state_store \<Rightarrow> string \<Rightarrow> int \<Rightarrow> liquidation_recipe \<Rightarrow> asset_data \<Rightarrow> asset_data \<Rightarrow>
     int \<Rightarrow> int \<Rightarrow> int \<Rightarrow> bool" where
  "built_from iv s u hf r debt col dc ac fee \<longleftrightarrow>
     debt \<in> set (inv_debts iv) \<and> col \<in> set (inv_collaterals iv) \<and> ad_nonneg debt \<and> ad_nonneg col \<and>
     0 \<le> dc \<and> dc \<le> ad_balance debt \<and> 0 \<le> ac \<and> ac \<le> ad_balance col \<and>
     (bonuses_sane s \<longrightarrow> 0 \<le> fee \<and> fee \<le> ac) \<and> \<not> leaves_dust debt col dc ac \<and>
     lr_UserAddress r = u \<and> DebtAsset r = ad_address debt \<and> CollateralAsset r = ad_address col \<and>
     DebtToCover r = dc \<and> ExpectedSeizedAmount r = ac - fee \<and>
     ExpectedProfitUSD r = net_profit debt col dc (ac - fee) \<and>
     (MinBaseMaxCloseFactorThreshold \<le> inv_totalCollateral iv \<and>
      MinBaseMaxCloseFactorThreshold \<le> inv_totalDebt iv \<and> CloseFactorHfThreshold < hf \<longrightarrow>
      valueInBaseCurrency dc (ad_price debt) (ad_decimals debt) \<le> inv_totalDebt iv div 2)"

text \<open>
  The gross amount \<open>ac\<close> that a recipe seizes, read off the recipe: all of the collateral or what the repaid debt
  buys at the prices and the bonus, and what is left of it after the protocol fee is the expected amount.
\<close>

definition seizes :: "state_store \<Rightarrow> liquidation_recipe \<Rightarrow> asset_data \<Rightarrow> asset_data \<Rightarrow> int \<Rightarrow> bool" where
  "seizes s r debt col ac \<longleftrightarrow> (\<exists>cfg. assetConfigs s (ad_address col) = Some cfg \<and>
     (let bonus = uint (LiquidationBonusBps r); fee = uint (LiquidationProtocolFee cfg);
          bought = ad_price debt * DebtToCover r * big_Exp10 (sint (ad_decimals col))
            div (ad_price col * big_Exp10 (sint (ad_decimals debt))) * bonus div 10000 in
      (ac = ad_balance col \<or> ac = bought \<and> bought \<le> ad_balance col) \<and>
      ExpectedSeizedAmount r = ac - (if fee > 0 then (ac - ac * 10000 div bonus) * fee div 10000 else 0)))"

lemma seize_amounts_shape:
  assumes "ad_nonneg col" and "seize_amounts debt col m bonus = Inr (dc, ac)"
  shows "ac = ad_balance col \<or>
    ac = ad_price debt * dc * big_Exp10 (sint (ad_decimals col)) div (ad_price col * big_Exp10 (sint (ad_decimals debt))) * bonus div 10000 \<and>
    ac \<le> ad_balance col"
proof -
  let ?du = "big_Exp10 (sint (ad_decimals debt))" and ?cu = "big_Exp10 (sint (ad_decimals col))"
  let ?base = "ad_price debt * m * ?cu div (ad_price col * ?du)"
  have cp: "0 < ad_price col" using assms by (cases "ad_price col = 0")
      (auto simp: seize_amounts_def Let_def big_Div_checked_def ad_nonneg_def)
  have baseq: "big_Div_checked (ad_price debt * m * ?cu) (ad_price col * ?du) = Inr ?base"
    using cp big_Exp10_pos [of "sint (ad_decimals debt)"] by (auto simp: big_Div_checked_def big_Div_pos)
  show ?thesis
  proof (cases "ad_balance col < ?base * bonus div 10000")
    case True
    let ?x = "big_Div_checked (ad_price col * ad_balance col * ?du) (ad_price debt * ?cu)"
    have "seize_amounts debt col m bonus = bind_outcome ?x (\<lambda>need. Inr (percentDivCeil need bonus, ad_balance col))"
      using baseq True by (simp add: seize_amounts_def Let_def PercentageFactor_def big_Div_pos)
    then show ?thesis using assms(2) by (cases ?x) simp_all
  next
    case False
    then have "seize_amounts debt col m bonus = Inr (m, ?base * bonus div 10000)"
      using baseq by (simp add: seize_amounts_def Let_def PercentageFactor_def big_Div_pos)
    then have "dc = m" "ac = ?base * bonus div 10000" using assms(2) by simp_all
    then show ?thesis using False by simp
  qed
qed

lemma protocol_fee_shape:
  fixes bonus fee :: u16
  assumes "protocol_fee fee (uint bonus) ac = Inr x"
  shows "x = (if uint fee > 0 then (ac - ac * 10000 div uint bonus) * uint fee div 10000 else 0)"
proof (cases "0 < fee")
  case True
  then have f: "0 < uint fee" by (simp add: word_less_def)
  have "uint bonus \<noteq> 0" using assms True by (cases "uint bonus = 0") (simp_all add: protocol_fee_def big_Div_checked_def)
  then have "0 < uint bonus" using uint_ge_0 [of bonus] by linarith
  then show ?thesis using assms True f
    by (simp add: protocol_fee_def big_Div_checked_def big_Div_pos Let_def PercentageFactor_def)
next
  case False
  then have "\<not> 0 < uint fee" by (simp add: word_less_def)
  then show ?thesis using assms False by (simp add: protocol_fee_def)
qed

lemma recipe_origin:
  assumes nn: "market_nonneg s" and en: "enumerates ord (dom (Reserves p))"
    and r: "CalculateOptimalRecipe ord s u p hf = Inr (Some r)"
  shows "\<exists>debt col dc ac fee. built_from (take_inventory ord s p) s u hf r debt col dc ac fee \<and> seizes s r debt col ac"
proof -
  let ?iv = "take_inventory ord s p"
  have "candidate ord s u p hf r" using search_result(2) [OF r] by simp
  then obtain debt col m where d: "debt \<in> set (inv_debts ?iv)" and c: "col \<in> set (inv_collaterals ?iv)"
    and m: "max_liquidatable_debt ?iv hf debt = Inr m" and ev: "evaluate_pair s u p debt m col = Inr (Some r)"
    by (auto simp: candidate_def)
  have dn: "ad_nonneg debt" and cn: "ad_nonneg col" using inventory_nonneg [OF nn] d c by blast+
  have m0: "0 \<le> m" and mb: "m \<le> ad_balance debt"
    and cap: "MinBaseMaxCloseFactorThreshold \<le> inv_totalCollateral ?iv \<Longrightarrow>
      MinBaseMaxCloseFactorThreshold \<le> inv_totalDebt ?iv \<Longrightarrow> CloseFactorHfThreshold < hf \<Longrightarrow>
      valueInBaseCurrency m (ad_price debt) (ad_decimals debt) \<le> inv_totalDebt ?iv div 2"
    using max_liquidatable_cases [OF dn totals_nonneg(1) [OF nn], of ord p hf] m by auto
  from ev obtain dc ac fee where
    sz: "seize_amounts debt col m (uint (fst (bonus_and_fee s p col))) = Inr (dc, ac)"
    and fee: "protocol_fee (snd (bonus_and_fee s p col)) (uint (fst (bonus_and_fee s p col))) ac = Inr fee"
    and rest: "\<not> leaves_dust debt col dc ac" "lr_UserAddress r = u" "DebtAsset r = ad_address debt"
      "CollateralAsset r = ad_address col" "DebtToCover r = dc" "ExpectedSeizedAmount r = ac - fee"
      "ExpectedProfitUSD r = net_profit debt col dc (ac - fee)"
      "LiquidationBonusBps r = fst (bonus_and_fee s p col)"
    by (rule evaluate_pair_Some)
  have bounds: "0 \<le> dc" "dc \<le> m" "0 \<le> ac" "ac \<le> ad_balance col"
    using seize_amounts_bounds [OF dn cn m0 _ sz] by simp_all
  obtain cfg where cfg: "assetConfigs s (ad_address col) = Some cfg"
    using collateral_entry_of [OF en c] by blast
  then have "0 \<le> fee \<and> fee \<le> ac" if "bonuses_sane s"
    using protocol_fee_bounds [OF _ _ _ fee] bonus_and_fee_sane [OF that] bounds by blast
  moreover have "valueInBaseCurrency dc (ad_price debt) (ad_decimals debt) \<le>
      valueInBaseCurrency m (ad_price debt) (ad_decimals debt)"
    using bounds(2) dn by (simp add: value_mono ad_nonneg_def)
  ultimately have "built_from ?iv s u hf r debt col dc ac fee"
    unfolding built_from_def using d c dn cn mb rest cap bounds
    by (intro conjI impI; (assumption | linarith)?)
  moreover have "snd (bonus_and_fee s p col) = LiquidationProtocolFee cfg"
    using cfg by (auto simp: bonus_and_fee_def Let_def split: option.split)
  then have f: "fee = (if uint (LiquidationProtocolFee cfg) > 0
      then (ac - ac * 10000 div uint (LiquidationBonusBps r)) * uint (LiquidationProtocolFee cfg) div 10000 else 0)"
    using protocol_fee_shape [OF fee] rest(8) by simp
  have g: "ac = ad_balance col \<or>
    ac = ad_price debt * DebtToCover r * big_Exp10 (sint (ad_decimals col)) div (ad_price col * big_Exp10 (sint (ad_decimals debt)))
      * uint (LiquidationBonusBps r) div 10000 \<and> ac \<le> ad_balance col"
    using seize_amounts_shape [OF cn sz] unfolding rest(5,8) .
  have "seizes s r debt col ac"
    unfolding seizes_def Let_def using cfg g rest(6) f by (intro exI [of _ cfg] conjI) (blast, metis, simp)
  ultimately show ?thesis by blast
qed

text \<open>
  C3: a recipe only touches what the user has. It names the user it was asked for, repays an amount
  between nothing and the user's debt in the debt asset, and expects to receive an amount between
  nothing and the balance the user supplies, as enabled collateral, in the collateral asset.
\<close>

theorem recipe_within_position:
  assumes "market_nonneg s" and "bonuses_sane s" and "enumerates ord (dom (Reserves p))"
    and "CalculateOptimalRecipe ord s u p hf = Inr (Some r)"
  shows "lr_UserAddress r = u \<and>
    (\<exists>rv idx. Reserves p (DebtAsset r) = Some rv \<and> globalIndices s (DebtAsset r) = Some idx \<and>
       0 \<le> DebtToCover r \<and> DebtToCover r \<le> RayMul (ScaledVariableDebt rv) (VariableBorrowIndex idx)) \<and>
    (\<exists>rv idx. Reserves p (CollateralAsset r) = Some rv \<and> globalIndices s (CollateralAsset r) = Some idx \<and>
       UsageAsCollateralEnabledOnUser rv \<and> 0 \<le> ExpectedSeizedAmount r \<and>
       ExpectedSeizedAmount r \<le> RayMul (ScaledATokenBalance rv) (LiquidityIndex idx))"
proof -
  obtain debt col dc ac fee where b: "built_from (take_inventory ord s p) s u hf r debt col dc ac fee"
    using recipe_origin [OF assms(1,3,4)] by blast
  then have "dc \<le> ad_balance debt" "0 \<le> ac - fee" "ac - fee \<le> ad_balance col"
    using assms(2) by (simp_all add: built_from_def)
  then show ?thesis
    using debt_entry_of [OF assms(3), of debt s] collateral_entry_of [OF assms(3), of col s] b
    by (auto simp: built_from_def)
qed

lemma pair_recipe:
  "CalculateOptimalRecipe [''c'', ''d''] (pair_store 100000000 10500) ''u'' pair_position 990000000000000000 =
     Inr (Some \<lparr>lr_UserAddress = ''u'', DebtAsset = ''d'', CollateralAsset = ''c'', DebtToCover = 2500,
       ExpectedSeizedAmount = 2613, ExpectedProfitUSD = 9892500000, LiquidationBonusBps = 10500\<rparr>)"
  by code_simp

theorem recipe_within_position_witness:
  "\<exists>rv idx. Reserves pair_position ''d'' = Some rv \<and> globalIndices (pair_store 100000000 10500) ''d'' = Some idx \<and>
     2500 \<le> RayMul (ScaledVariableDebt rv) (VariableBorrowIndex idx)"
  using recipe_within_position [OF pair_market pair_bonuses pair_enum(1) pair_recipe] by auto

text \<open>
  C12: a recipe respects the protocol's two limits. If the position is large on both sides (2000 USD)
  and its health factor is above 0.95, the repaid debt is worth at most half of the whole debt. And the
  amount seized is what the recipe says, before the protocol fee: the whole collateral, or what the repaid debt
  buys at the prices and the bonus; either it or the repaid debt uses up its balance or both remainders are
  worth at least 1000 USD.
\<close>

theorem recipe_protocol_limits:
  assumes "market_nonneg s" and "enumerates ord (dom (Reserves p))"
    and "CalculateOptimalRecipe ord s u p hf = Inr (Some r)"
  shows "\<exists>debt \<in> set (inv_debts (take_inventory ord s p)). \<exists>col \<in> set (inv_collaterals (take_inventory ord s p)).
    DebtAsset r = ad_address debt \<and> CollateralAsset r = ad_address col \<and>
      (200000000000 \<le> inv_totalCollateral (take_inventory ord s p) \<and>
       200000000000 \<le> inv_totalDebt (take_inventory ord s p) \<and> 950000000000000000 < hf \<longrightarrow>
       valueInBaseCurrency (DebtToCover r) (ad_price debt) (ad_decimals debt)
         \<le> inv_totalDebt (take_inventory ord s p) div 2) \<and>
      (\<exists>seized. seizes s r debt col seized \<and>
        (DebtToCover r = ad_balance debt \<or> seized = ad_balance col \<or>
         100000000000 \<le> valueInBaseCurrency (ad_balance debt - DebtToCover r) (ad_price debt) (ad_decimals debt) \<and>
         100000000000 \<le> valueInBaseCurrency (ad_balance col - seized) (ad_price col) (ad_decimals col)))"
proof -
  obtain debt col dc ac fee where b: "built_from (take_inventory ord s p) s u hf r debt col dc ac fee"
    and z: "seizes s r debt col ac"
    using recipe_origin [OF assms] by blast
  have left: "DebtToCover r = ad_balance debt \<or> ac = ad_balance col \<or>
      100000000000 \<le> valueInBaseCurrency (ad_balance debt - DebtToCover r) (ad_price debt) (ad_decimals debt) \<and>
      100000000000 \<le> valueInBaseCurrency (ad_balance col - ac) (ad_price col) (ad_decimals col)"
    using b by (auto simp: built_from_def leaves_dust_def Let_def MinLeftoverBase_def)
  have half: "200000000000 \<le> inv_totalCollateral (take_inventory ord s p) \<Longrightarrow>
      200000000000 \<le> inv_totalDebt (take_inventory ord s p) \<Longrightarrow> 950000000000000000 < hf \<Longrightarrow>
      valueInBaseCurrency (DebtToCover r) (ad_price debt) (ad_decimals debt) \<le> inv_totalDebt (take_inventory ord s p) div 2"
    using b by (simp add: built_from_def MinBaseMaxCloseFactorThreshold_def CloseFactorHfThreshold_def)
  show ?thesis
    using b by (intro bexI [of _ debt] bexI [of _ col] conjI impI exI [of _ ac] z left half)
      (simp_all add: built_from_def)
qed

text \<open>In the example 2500 of the debt buy 2625 of the collateral, of which the fee takes 12.\<close>

theorem recipe_protocol_limits_witness:
  "\<exists>(debt :: asset_data) (col :: asset_data) seized. ad_address debt = ''d'' \<and> ad_address col = ''c'' \<and>
     valueInBaseCurrency 2500 (ad_price debt) (ad_decimals debt) \<le> 250000000000 \<and>
     2613 = seized - (seized - seized * 10000 div 10500) * 1000 div 10000 \<and>
     (ad_balance debt = 2500 \<or> seized = ad_balance col \<or>
      100000000000 \<le> valueInBaseCurrency (ad_balance col - seized) (ad_price col) (ad_decimals col))"
proof -
  let ?s = "pair_store 100000000 10500"
  have t: "inv_totalDebt (take_inventory [''c'', ''d''] ?s pair_position) = 500000000000"
    "inv_totalCollateral (take_inventory [''c'', ''d''] ?s pair_position) = 900000000000"
    by code_simp+
  define r where "r = \<lparr>lr_UserAddress = ''u'', DebtAsset = ''d'', CollateralAsset = ''c'', DebtToCover = 2500,
    ExpectedSeizedAmount = 2613, ExpectedProfitUSD = 9892500000, LiquidationBonusBps = 10500\<rparr>"
  have r: "CalculateOptimalRecipe [''c'', ''d''] ?s ''u'' pair_position 990000000000000000 = Inr (Some r)"
    by (simp only: r_def pair_recipe)
  obtain debt col seized where d: "DebtAsset r = ad_address debt" "CollateralAsset r = ad_address col"
    "valueInBaseCurrency (DebtToCover r) (ad_price debt) (ad_decimals debt) \<le> 500000000000 div 2"
    "DebtToCover r = ad_balance debt \<or> seized = ad_balance col \<or>
     100000000000 \<le> valueInBaseCurrency (ad_balance debt - DebtToCover r) (ad_price debt) (ad_decimals debt) \<and>
     100000000000 \<le> valueInBaseCurrency (ad_balance col - seized) (ad_price col) (ad_decimals col)"
    and z: "seizes ?s r debt col seized"
    using recipe_protocol_limits [OF pair_market pair_enum(1) r, unfolded t] by auto
  have d: "ad_address debt = ''d''" "ad_address col = ''c''"
    "valueInBaseCurrency 2500 (ad_price debt) (ad_decimals debt) \<le> 250000000000"
    "ad_balance debt = 2500 \<or> seized = ad_balance col \<or>
      100000000000 \<le> valueInBaseCurrency (ad_balance col - seized) (ad_price col) (ad_decimals col)"
    using d by (auto simp: r_def)
  have "assetConfigs ?s ''c'' = Some (pair_config 1 10500)" by (simp add: pair_store_def)
  moreover have "uint (LiquidationProtocolFee (pair_config 1 10500)) = 1000" by (simp add: pair_config_def)
  ultimately have "2613 = seized - (seized - seized * 10000 div 10500) * 1000 div 10000"
    using z d(2) by (auto simp: seizes_def Let_def r_def)
  then show ?thesis using d by blast
qed

text \<open>
  C13: the search is exhaustive. A returned recipe is one of the candidates the loop builds, it makes a
  profit, and no candidate makes more; when nothing is returned, no candidate makes a profit.
\<close>

theorem recipe_optimal:
  assumes "CalculateOptimalRecipe ord s u p hf = Inr res"
  shows "(case res of
      None \<Rightarrow> (\<forall>cand. candidate ord s u p hf cand \<longrightarrow> ExpectedProfitUSD cand \<le> 0)
    | Some r \<Rightarrow> candidate ord s u p hf r \<and> 0 < ExpectedProfitUSD r \<and>
        (\<forall>cand. candidate ord s u p hf cand \<longrightarrow> ExpectedProfitUSD cand \<le> ExpectedProfitUSD r))"
  using search_result [OF assms] by (auto simp: profit_of_def split: option.split)

theorem recipe_optimal_witness:
  "\<exists>r. candidate [''c'', ''d''] (pair_store 100000000 10500) ''u'' pair_position 990000000000000000 r \<and>
     0 < ExpectedProfitUSD r \<and> ExpectedProfitUSD r = 9892500000"
  using recipe_optimal [OF pair_recipe] by auto

text \<open>
  C14: a recipe never promises more than it brings in. The collateral received is worth at least the
  debt repaid plus the promised profit plus the gas estimate of 0.01 USD.
\<close>

theorem recipe_profit_covered:
  assumes "market_nonneg s" and "bonuses_sane s" and "enumerates ord (dom (Reserves p))"
    and "CalculateOptimalRecipe ord s u p hf = Inr (Some r)"
  shows "\<exists>debt \<in> set (inv_debts (take_inventory ord s p)). \<exists>col \<in> set (inv_collaterals (take_inventory ord s p)).
    DebtAsset r = ad_address debt \<and> CollateralAsset r = ad_address col \<and>
    valueInBaseCurrency (DebtToCover r) (ad_price debt) (ad_decimals debt) + ExpectedProfitUSD r + 1000000
      \<le> valueInBaseCurrency (ExpectedSeizedAmount r) (ad_price col) (ad_decimals col)"
proof -
  obtain debt col dc ac fee where b: "built_from (take_inventory ord s p) s u hf r debt col dc ac fee"
    using recipe_origin [OF assms(1,3,4)] by blast
  let ?got = "valueInBaseCurrency (ac - fee) (ad_price col) (ad_decimals col)"
  have "dc * 10000 div 10000 \<le> dc * 10005 div 10000"
    using b by (intro zdiv_mono1) (simp_all add: built_from_def)
  then have cost: "valueInBaseCurrency dc (ad_price debt) (ad_decimals debt) \<le>
      valueInBaseCurrency (dc * 10005 div 10000) (ad_price debt) (ad_decimals debt)"
    using b by (simp add: value_mono built_from_def ad_nonneg_def)
  have "0 \<le> ?got" using b assms(2)
    by (simp add: built_from_def valueInBaseCurrency_eq ad_nonneg_def pos_imp_zdiv_nonneg_iff)
  then have "?got * 9950 div 10000 \<le> ?got * 10000 div 10000" by (intro zdiv_mono1) simp_all
  then have "net_profit debt col dc (ac - fee) + 1000000 +
      valueInBaseCurrency dc (ad_price debt) (ad_decimals debt) \<le> ?got"
    using cost by (simp add: net_profit_def Let_def flashloanFeeBps_def PercentageFactor_def
        estimatedDexSlippageBps_def estimatedGasCostUSD_def big_Div_pos)
  then show ?thesis using b
    by (intro bexI [of _ debt] bexI [of _ col]) (simp_all add: built_from_def)
qed

theorem recipe_profit_covered_witness:
  "\<exists>debt \<in> set (inv_debts (take_inventory [''c'', ''d''] (pair_store 100000000 10500) pair_position)).
   \<exists>col \<in> set (inv_collaterals (take_inventory [''c'', ''d''] (pair_store 100000000 10500) pair_position)).
     valueInBaseCurrency 2500 (ad_price debt) (ad_decimals debt) + 9892500000 + 1000000
       \<le> valueInBaseCurrency 2613 (ad_price col) (ad_decimals col)"
  using recipe_profit_covered [OF pair_market pair_bonuses pair_enum(1) pair_recipe] by auto

text \<open>The loops panic when a pair does, with the same panic.\<close>

lemma collateral_loop_panic:
  assumes "ad_nonneg debt" "0 \<le> m" "\<And>col. col \<in> set cols \<Longrightarrow> ad_nonneg col"
  shows "collateral_loop s u pos debt m cols acc = Inl e \<longleftrightarrow>
    e = DivisionByZero \<and> (\<exists>col \<in> set cols. pair_panics s pos col)"
  using assms(3)
proof (induction cols arbitrary: acc)
  case (Cons col cols)
  have p: "evaluate_pair s u pos debt m col = Inl e' \<longleftrightarrow> pair_panics s pos col \<and> e' = DivisionByZero" for e'
    using evaluate_pair_panic [OF assms(1) _ assms(2)] Cons.prems by simp
  show ?case
  proof (cases "evaluate_pair s u pos debt m col")
    case (Inl e')
    then show ?thesis using p [of e'] by auto
  next
    case (Inr r)
    then have "\<not> pair_panics s pos col" using p [of DivisionByZero] by auto
    then show ?thesis using Inr Cons.IH Cons.prems by simp
  qed
qed simp

lemma debt_loop_panic:
  assumes "\<And>d. d \<in> set debts \<Longrightarrow> ad_nonneg d" "\<And>col. col \<in> set (inv_collaterals iv) \<Longrightarrow> ad_nonneg col"
    and t: "0 \<le> inv_totalDebt iv"
  shows "debt_loop s u pos hf iv debts acc = Inl e \<longleftrightarrow>
    e = DivisionByZero \<and> debts \<noteq> [] \<and> (\<exists>col \<in> set (inv_collaterals iv). pair_panics s pos col)"
  using assms(1)
proof (induction debts arbitrary: acc)
  case (Cons debt debts)
  have d: "ad_nonneg debt" using Cons.prems by simp
  obtain m where m: "max_liquidatable_debt iv hf debt = Inr m" "0 \<le> m"
    using max_liquidatable_cases [OF d t] by metis
  note inner = collateral_loop_panic [OF d m(2) assms(2), where acc = acc and s = s and u = u and pos = pos]
  show ?case
  proof (cases "collateral_loop s u pos debt m (inv_collaterals iv) acc")
    case (Inl e')
    then show ?thesis using inner [of "inv_collaterals iv" e'] m by auto
  next
    case (Inr acc')
    then have "\<not> (\<exists>col \<in> set (inv_collaterals iv). pair_panics s pos col)"
      using inner [of "inv_collaterals iv" DivisionByZero] by auto
    then show ?thesis using Inr m Cons.IH Cons.prems by simp
  qed
qed simp

lemma search_panic:
  assumes "market_nonneg s"
  shows "CalculateOptimalRecipe ord s u p hf = Inl e \<longleftrightarrow>
    e = DivisionByZero \<and> inv_debts (take_inventory ord s p) \<noteq> [] \<and>
    (\<exists>col \<in> set (inv_collaterals (take_inventory ord s p)). pair_panics s p col)"
proof -
  let ?iv = "take_inventory ord s p"
  have "CalculateOptimalRecipe ord s u p hf = Inl e \<longleftrightarrow>
      debt_loop s u p hf ?iv (inv_debts ?iv) (None, 0) = Inl e"
    by (cases "debt_loop s u p hf ?iv (inv_debts ?iv) (None, 0)") (simp_all add: CalculateOptimalRecipe_def Let_def)
  then show ?thesis
    using debt_loop_panic [of "inv_debts ?iv" ?iv] inventory_nonneg [OF assms, of _ ord p] totals_nonneg(1) [OF assms]
    by simp
qed

text \<open>
  C37: exactly when the search crashes. In a market of non-negative data it panics, with a division by
  zero, if and only if the user has a debt and some enabled collateral has the price zero, or the
  bonus zero together with a protocol fee. The caller does not recover, so the process would stop.
\<close>

theorem strategy_panic_iff:
  assumes "market_nonneg s"
  shows "CalculateOptimalRecipe ord s u p hf = Inl e \<longleftrightarrow>
    e = DivisionByZero \<and> inv_debts (take_inventory ord s p) \<noteq> [] \<and>
    (\<exists>col \<in> set (inv_collaterals (take_inventory ord s p)).
       ad_price col = 0 \<or> fst (bonus_and_fee s p col) = 0 \<and> 0 < snd (bonus_and_fee s p col))"
  unfolding search_panic [OF assms] pair_panics_def ..

theorem strategy_panic_iff_witness:
  "CalculateOptimalRecipe [''c'', ''d''] (pair_store 0 10500) ''u'' pair_position 990000000000000000 = Inl DivisionByZero \<and>
   CalculateOptimalRecipe [''c'', ''d''] (pair_store 100000000 0) ''u'' pair_position 990000000000000000 = Inl DivisionByZero"
proof -
  have i: "inv_debts (take_inventory [''c'', ''d''] (pair_store c b) pair_position) \<noteq> []" for c b
    by (simp add: take_inventory_eq pair_position_def pair_store_def NewStateStore_def debt_entries_def)
  have c: "\<lparr>ad_address = ''c'', ad_balance = RayMul 9000 RAY, ad_price = c, ad_decimals = 0, ad_reserveID = 1\<rparr>
      \<in> set (inv_collaterals (take_inventory [''c'', ''d''] (pair_store c b) pair_position))" for c b
    by (simp add: take_inventory_eq pair_position_def pair_store_def NewStateStore_def
        collateral_entries_def pair_config_def)
  have f: "bonus_and_fee (pair_store c 0) pair_position
      \<lparr>ad_address = ''c'', ad_balance = b, ad_price = pr, ad_decimals = 0, ad_reserveID = 1\<rparr> = (0, 1000)" for c b pr
    by (simp add: bonus_and_fee_def pair_store_def pair_config_def pair_position_def NewStateStore_def)
  have m: "market_nonneg (pair_store 100000000 0)" by simp
  show ?thesis
    unfolding strategy_panic_iff [OF pair_market [OF order_refl]] strategy_panic_iff [OF m]
    using i c [of 0] c [of 100000000] f by (auto intro!: bexI [OF _ c])
qed

lemma outcome_agree:
  assumes "(\<forall>e. X = Inl e \<longleftrightarrow> Y = Inl e) \<and> (\<forall>a b. X = Inr a \<longrightarrow> Y = Inr b \<longrightarrow> f a = f b)"
  shows "map_sum id f X = map_sum id f Y"
proof (cases X)
  case (Inl e)
  moreover have "Y = Inl e" using assms Inl by blast
  ultimately show ?thesis by simp
next
  case (Inr a)
  then have "Y \<noteq> Inl e" for e using assms by (metis Inl_Inr_False)
  then obtain b where "Y = Inr b" by (cases Y) blast+
  then show ?thesis using assms Inr by simp
qed

text \<open>
  Go's random map order does not change the outcome. Two runs over the same position either both
  panic in the same way or promise the same profit.
\<close>

theorem recipe_order_independent:
  assumes "market_nonneg s" and "enumerates xs (dom (Reserves p))" and "enumerates ys (dom (Reserves p))"
  shows "map_sum id (map_option ExpectedProfitUSD) (CalculateOptimalRecipe xs s u p hf) =
    map_sum id (map_option ExpectedProfitUSD) (CalculateOptimalRecipe ys s u p hf)"
proof -
  let ?X = "CalculateOptimalRecipe xs s u p hf" and ?Y = "CalculateOptimalRecipe ys s u p hf"
  note same = inventory_order [OF assms(2,3), of s]
  have "?X = Inl e \<longleftrightarrow> ?Y = Inl e" for e
    unfolding search_panic [OF assms(1)] using same(1,2) by (metis set_empty)
  moreover have "map_option ExpectedProfitUSD a = map_option ExpectedProfitUSD b" if "?X = Inr a" "?Y = Inr b" for a b
  proof -
    note c = candidate_order [OF assms(2,3), of s u hf]
    note X = search_result [OF that(1)] and Y = search_result [OF that(2)]
    show ?thesis
    proof (cases a; cases b)
      fix x y assume "a = Some x" "b = Some y"
      then show ?thesis using X(1) [of y] X(2) [of x] Y(1) [of x] Y(2) [of y] c by (auto simp: profit_of_def)
    next
      fix x assume "a = Some x" "b = None"
      then show ?thesis using X(2) [of x] Y(1) [of x] c by (simp add: profit_of_def)
    next
      fix y assume "a = None" "b = Some y"
      then show ?thesis using Y(2) [of y] X(1) [of y] c by (simp add: profit_of_def)
    qed simp
  qed
  ultimately have "(\<forall>e. ?X = Inl e \<longleftrightarrow> ?Y = Inl e) \<and>
      (\<forall>a b. ?X = Inr a \<longrightarrow> ?Y = Inr b \<longrightarrow> map_option ExpectedProfitUSD a = map_option ExpectedProfitUSD b)"
    by blast
  then show ?thesis by (rule outcome_agree)
qed

theorem recipe_order_independent_witness:
  "map_sum id (map_option ExpectedProfitUSD)
     (CalculateOptimalRecipe [''d'', ''c''] (pair_store 100000000 10500) ''u'' pair_position 990000000000000000) =
   Inr (Some 9892500000)"
proof -
  have m: "market_nonneg (pair_store 100000000 10500)" by simp
  show ?thesis
    using recipe_order_independent [OF m pair_enum(1) pair_enum(2), of "''u''" 990000000000000000]
    by (simp add: pair_recipe)
qed

end
