(* ===== verification/Multicall.thy ===== *)
theory Multicall
  imports Models
begin

text \<open>
  The pieces of \<open>internal/rpc\<close> that every read of the chain goes through: the Multicall3 structs of
  \<open>multicall.go\<close>, the \<open>eth_call\<close> round trip, and the text a reverted call left behind.
\<close>

section \<open>Structs\<close>

type_synonym address = "160 word"

record multicall_call =
  Target :: address
  AllowFailure :: bool
  CallData :: "u8 list"

record multicall_result =
  mr_Success :: bool
  mr_ReturnData :: "u8 list"

section \<open>One eth\_call\<close>

text \<open>
  What is outside the repository: \<open>eth_call to data block\<close> is the raw JSON result of
  \<open>CallWithRetry(ctx, "eth_call", ...)\<close> (\<open>None\<close> after an error) and \<open>hex_Decode\<close> is go-ethereum's
  \<open>hexutil.Decode\<close>.
\<close>

record eth_port =
  eth_call :: "string \<Rightarrow> u8 list \<Rightarrow> string \<Rightarrow> string option"
  hex_Decode :: "string \<Rightarrow> u8 list option"

definition eth_call_hex :: "eth_port \<Rightarrow> string \<Rightarrow> u8 list \<Rightarrow> string \<Rightarrow> string option" where
  "eth_call_hex port dest data block =
     (case eth_call port dest data block of None \<Rightarrow> None | Some rawResult \<Rightarrow> json_string rawResult)"

definition eth_call_bytes :: "eth_port \<Rightarrow> string \<Rightarrow> u8 list \<Rightarrow> string \<Rightarrow> u8 list option" where
  "eth_call_bytes port dest data block =
     (case eth_call_hex port dest data block of None \<Rightarrow> None | Some resultHex \<Rightarrow> hex_Decode port resultHex)"

text \<open>\<open>fmt.Sprintf("0x%x", blockNumber)\<close>.\<close>

definition hex_block :: "u64 \<Rightarrow> string" where
  "hex_block b = ''0x'' @ hex_of_nat (unat b)"

section \<open>The reason of a revert\<close>

text \<open>\<open>new(big.Int).SetBytes\<close>: big endian.\<close>

definition big_SetBytes :: "u8 list \<Rightarrow> int" where
  "big_SetBytes bs = foldl (\<lambda>acc b. acc * 256 + uint b) 0 bs"

definition errorSelector :: "u8 list" where
  "errorSelector = [0x08, 0xC3, 0x79, 0xA0]"

text \<open>The fixed message for an empty answer, in UTF-8.\<close>

definition emptyReturnMessage :: "u8 list" where
  "emptyReturnMessage =
     [0xE7, 0xA9, 0xBA, 0xE8, 0xBF, 0x94, 0xE5, 0x9B, 0x9E, 0xE6, 0x95, 0xB0, 0xE6, 0x8D, 0xAE, 0xEF,
      0xBC, 0x88, 0xE5, 0x87, 0xBD, 0xE6, 0x95, 0xB0, 0xE9, 0x80, 0x89, 0xE6, 0x8B, 0xA9, 0xE5, 0x99,
      0xA8, 0xE5, 0x8F, 0xAF, 0xE8, 0x83, 0xBD, 0xE4, 0xB8, 0x8D, 0xE5, 0xAD, 0x98, 0xE5, 0x9C, 0xA8,
      0xEF, 0xBC, 0x89]"

definition bytes_of_string :: "string \<Rightarrow> u8 list" where
  "bytes_of_string s = map of_char s"

text \<open>\<open>"0x" + common.Bytes2Hex(data)\<close>: two digits for each byte.\<close>

definition byte_hex :: "u8 \<Rightarrow> string" where
  "byte_hex b = [hex_char (unat b div 16), hex_char (unat b mod 16)]"

text \<open>
  \<open>68 + strLen\<close> is a \<open>uint64\<close> that wraps; \<open>int(...)\<close> reads its bits as a signed number, and the slice
  expression checks the unsigned bounds.
\<close>

definition decodeRevertReason :: "u8 list \<Rightarrow> u8 list outcome" where
  "decodeRevertReason returnData =
     (if returnData = [] then Inr emptyReturnMessage
      else
        let strLen = big_Uint64 (big_SetBytes (slice returnData 36 68)); high = 68 + strLen;
            plain = Inr (bytes_of_string (''0x'' @ concat (map byte_hex returnData))) in
        if 68 \<le> length returnData \<and> slice returnData 0 4 = errorSelector then
          (if int (length returnData) \<ge> sint high then
             (if high < 68 \<or> length returnData < unat high then Inl SliceOutOfRange
              else Inr (slice returnData 68 (unat high)))
           else plain)
        else plain)"

section \<open>What the reason is\<close>

fun be_bytes :: "nat \<Rightarrow> nat \<Rightarrow> u8 list" where
  "be_bytes 0 n = []"
| "be_bytes (Suc k) n = be_bytes k (n div 256) @ [of_nat (n mod 256)]"

lemma length_be_bytes [simp]: "length (be_bytes k n) = k"
  by (induction k arbitrary: n) auto

lemma big_SetBytes_snoc: "big_SetBytes (bs @ [b]) = big_SetBytes bs * 256 + uint b"
  by (simp add: big_SetBytes_def)

lemma big_SetBytes_be_bytes: "n < 256 ^ k \<Longrightarrow> big_SetBytes (be_bytes k n) = int n"
proof (induction k arbitrary: n)
  case 0
  then show ?case by (simp add: big_SetBytes_def)
next
  case (Suc k)
  have "n div 256 < 256 ^ k" using Suc.prems by (simp add: less_mult_imp_div_less)
  moreover have "uint (of_nat (n mod 256) :: u8) = int (n mod 256)"
    by (simp add: uint_word_of_int unsigned_of_nat take_bit_nat_eq_self zmod_int flip: of_nat_mod)
  ultimately show ?case using Suc.IH by (simp add: big_SetBytes_snoc zdiv_int zmod_int)
qed

lemma big_SetBytes_nonneg: "0 \<le> big_SetBytes bs"
  by (induction bs rule: rev_induct) (simp_all add: big_SetBytes_def)

text \<open>Solidity's \<open>Error(string)\<close>: the selector, the offset 32, the length, the text and its padding.\<close>

definition error_data :: "u8 list \<Rightarrow> u8 list \<Rightarrow> u8 list" where
  "error_data msg pad = errorSelector @ be_bytes 32 32 @ be_bytes 32 (length msg) @ msg @ pad"

lemma error_data_slices:
  "slice (error_data msg pad) 0 4 = errorSelector"
  "slice (error_data msg pad) 36 68 = be_bytes 32 (length msg)"
  "68 \<le> length (error_data msg pad)"
  "slice (error_data msg pad) 68 (68 + length msg) = msg"
  by (simp_all add: error_data_def slice_def errorSelector_def del: be_bytes.simps)

lemma sint_small: "uint (x :: u64) < 2 ^ 63 \<Longrightarrow> sint x = int (unat x)"
  using signed_take_bit_int_eq_self [of 63 "uint x"] uint_ge_0 [of x] by (simp add: sint_uint del: uint_ge_0)

lemma sint_large: "2 ^ 63 \<le> uint (x :: u64) \<Longrightarrow> sint x < 0"
proof -
  assume x: "2 ^ 63 \<le> uint x"
  have "uint x < 2 ^ 64" using uint_lt2p [of x] by simp
  then have "uint x div 2 ^ 63 = 1" using x by (simp add: div_pos_geq)
  then have "bit (uint x) 63" by (simp add: bit_iff_odd)
  then show ?thesis
    using \<open>uint x < 2 ^ 64\<close> by (simp add: sint_uint signed_take_bit_eq_take_bit_minus take_bit_int_eq_self)
qed

lemma less_unat:
  assumes "n < 2 ^ k" and "2 ^ k \<le> uint w"
  shows "n < unat w"
proof -
  have "int n < int (2 ^ k)" using assms(1) by (simp only: of_nat_less_iff)
  then have "int n < int (unat w)" using assms(2) by (simp only: of_nat_power of_nat_numeral flip: uint_nat)
  then show ?thesis by (simp only: of_nat_less_iff)
qed

lemma slice_from_0: "slice xs 0 n = take n xs"
  by (simp add: slice_def)

lemma if_split_sums:
  "((if a then if b then Inl x else Inr y else Inr z) = Inl e) \<longleftrightarrow> e = x \<and> a \<and> b"
  by auto

lemma slice_test:
  "c \<longleftrightarrow> t \<le> v \<Longrightarrow> v < (l :: int) \<or> t \<le> v \<Longrightarrow> (c \<Longrightarrow> u < n) \<Longrightarrow> s = int u \<Longrightarrow> n \<le> d \<Longrightarrow> l \<le> t \<Longrightarrow>
   (s \<le> int d \<and> (c \<or> d < u)) = (l \<le> v)"
  by (cases c) auto

lemma uint_high: "uint (68 + big_Uint64 x) = (68 + \<bar>x\<bar>) mod 2 ^ 64"
  by (simp add: big_Uint64_def uint_word_ariths uint_word_of_int mod_simps)

text \<open>
  the reason of a revert is read back: for the data of Solidity's \<open>Error(string)\<close> with any message
  and padding, \<open>decodeRevertReason\<close> returns exactly the message.
\<close>

theorem revert_reason_roundtrip:
  assumes "length msg < 2 ^ 62"
  shows "decodeRevertReason (error_data msg pad) = Inr msg"
proof -
  let ?d = "error_data msg pad" and ?h = "68 + big_Uint64 (int (length msg))"
  have n: "length msg < 256 ^ 32" using assms by simp
  have h: "uint ?h = 68 + int (length msg)" using assms by (simp add: uint_high)
  then have u: "unat ?h = 68 + length msg" by (simp add: unat_eq_nat_uint)
  have s: "sint ?h = 68 + int (length msg)" using sint_small [of ?h] h assms by simp
  have l: "68 + length msg \<le> length ?d" by (simp add: error_data_def errorSelector_def del: be_bytes.simps)
  have ne: "?d \<noteq> []" by (simp add: error_data_def errorSelector_def)
  have g: "\<not> ?h < 68" using u by (simp add: word_less_nat_alt)
  show ?thesis using ne l s g u n
    by (simp add: decodeRevertReason_def error_data_slices big_SetBytes_be_bytes Let_def del: be_bytes.simps)
qed

theorem revert_reason_roundtrip_witness:
  "decodeRevertReason (error_data [0x33, 0x35] [0, 0, 0]) = Inr [0x33, 0x35]"
  by (rule revert_reason_roundtrip) simp

text \<open>The test \<open>68 + strLen\<close> against the length of the data, for a declared length with the low bits \<open>y\<close>.\<close>

lemma offset_wraps:
  fixes h :: u64
  assumes x: "uint h = (68 + y) mod 2 ^ 64" and b: "0 \<le> y" "y < 2 ^ 64"
  shows "68 + y < 2 ^ 64 \<Longrightarrow> uint h = 68 + y" and "h < 68 \<longleftrightarrow> 2 ^ 64 - 68 \<le> y"
proof -
  show u: "68 + y < 2 ^ 64 \<Longrightarrow> uint h = 68 + y" using x b by simp
  show "h < 68 \<longleftrightarrow> 2 ^ 64 - 68 \<le> y"
  proof (cases "68 + y < 2 ^ 64")
    case True
    then show ?thesis using u b by (simp add: word_less_def)
  next
    case False
    then have "uint h = 68 + y - 2 ^ 64" using x b by (simp add: mod_pos_geq)
    then show ?thesis using False b by (simp add: word_less_def)
  qed
qed

lemma length_test:
  fixes h :: u64
  assumes x: "uint h = (68 + y) mod 2 ^ 64" and b: "0 \<le> y" "y < 2 ^ 64" and d: "68 \<le> d" "d < 2 ^ 63"
  shows "(sint h \<le> int d \<and> (h < 68 \<or> d < unat h)) \<longleftrightarrow> 2 ^ 63 - 68 \<le> y"
proof (cases "uint h < 2 ^ 63")
  case True
  then have "sint h = int (unat h)" using sint_small by simp
  moreover have "y < 2 ^ 63 - 68 \<or> 2 ^ 64 - 68 \<le> y" using True offset_wraps(1) [OF x b] by linarith
  moreover have "unat h < 68" if "h < 68" using that by (simp add: word_less_nat_alt)
  ultimately show ?thesis
    using d offset_wraps(2) [OF x b] by (intro slice_test [where t = "2 ^ 64 - 68"]) simp_all
next
  case False
  then have "sint h < 0" using sint_large [of h] by simp
  moreover have "d < unat h" using less_unat [OF d(2), of h] False by linarith
  moreover have "2 ^ 63 - 68 \<le> y" using False offset_wraps(1) [OF x b] by (cases "68 + y < 2 ^ 64") simp_all
  ultimately show ?thesis by linarith
qed

text \<open>
  \<open>decodeRevertReason\<close> panics on hostile data and only there: exactly when the data has the selector
  of \<open>Error(string)\<close> and declares a length whose low 64 bits are at least \<open>2^63 - 68\<close>, so that
  \<open>68 + strLen\<close> no longer fits the test's signed number and passes it.
\<close>

theorem revert_reason_panic_iff:
  assumes "length d < 2 ^ 63"
  shows "decodeRevertReason d = Inl e \<longleftrightarrow>
    e = SliceOutOfRange \<and> 68 \<le> length d \<and> take 4 d = errorSelector \<and>
    2 ^ 63 - 68 \<le> big_SetBytes (slice d 36 68) mod 2 ^ 64"
proof -
  let ?x = "big_SetBytes (slice d 36 68)" and ?h = "68 + big_Uint64 (big_SetBytes (slice d 36 68))"
  have core: "(sint ?h \<le> int (length d) \<and> (?h < 68 \<or> length d < unat ?h)) \<longleftrightarrow> 2 ^ 63 - 68 \<le> ?x mod 2 ^ 64"
    if "68 \<le> length d"
    using that assms big_SetBytes_nonneg [of "slice d 36 68"]
    by (intro length_test) (simp_all add: uint_high mod_simps)
  let ?guard = "68 \<le> length d \<and> take 4 d = errorSelector"
  show ?thesis
  proof (cases ?guard)
    case True
    then have "(d = []) = False" "?guard = True" by auto
    then have "decodeRevertReason d = Inl e \<longleftrightarrow>
        e = SliceOutOfRange \<and> sint ?h \<le> int (length d) \<and> (?h < 68 \<or> length d < unat ?h)"
      by (simp only: decodeRevertReason_def Let_def slice_from_0 if_True if_False if_split_sums)
    then show ?thesis using core True by blast
  next
    case False
    then have "?guard = False" by simp
    then have "decodeRevertReason d \<noteq> Inl e"
      by (cases "d = []") (simp_all only: decodeRevertReason_def Let_def slice_from_0 if_True if_False sum.distinct refl not_False_eq_True)
    then show ?thesis using False by blast
  qed
qed

theorem revert_reason_panic_iff_witness:
  "decodeRevertReason (errorSelector @ replicate 64 0xFF) = Inl SliceOutOfRange"
proof -
  let ?d = "errorSelector @ replicate 64 (0xFF :: u8)"
  have a: "length ?d < 2 ^ 63" "68 \<le> length ?d" "take 4 ?d = errorSelector" by code_simp+
  have "2 ^ 63 - 68 \<le> big_SetBytes (slice ?d 36 68) mod 2 ^ 64" by code_simp
  with a show ?thesis using revert_reason_panic_iff [OF a(1)] by blast
qed

end
