(* ===== verification/FeeCache.thy ===== *)
theory FeeCache
  imports Multicall
begin

text \<open>
  \<open>internal/dex/fee_cache.go\<close>: the table of the Uniswap V3 fee tier with the largest pool for
  every pair of assets. The ABI codec of go-ethereum and the chain behind \<open>Multicall3\<close> are
  parameters: a record of the functions the code calls, and the answer to a list of calls.
\<close>

section \<open>Multicall3\<close>

text \<open>The go-ethereum functions used here.\<close>

record dex_codec =
  HexToAddress :: "string \<Rightarrow> address"
  pack_getPool :: "address \<Rightarrow> address \<Rightarrow> int \<Rightarrow> u8 list"
  pack_balanceOf :: "address \<Rightarrow> u8 list"
  unpack_getPool :: "u8 list \<Rightarrow> address option"
  unpack_balanceOf :: "u8 list \<Rightarrow> int option"

text \<open>
  \<open>executeMulticall\<close>: five steps, each of which can fail and ends the function. Packing, the RPC
  call, the decoding of the hex string and unpacking are the parameters, in this order.
\<close>

record mc_transport =
  mc_pack :: "multicall_call list \<Rightarrow> u8 list option"
  mc_call :: "address \<Rightarrow> u8 list \<Rightarrow> string option"
  mc_unhex :: "string \<Rightarrow> u8 list option"
  mc_unpack :: "u8 list \<Rightarrow> multicall_result list option"

definition executeMulticall :: "mc_transport \<Rightarrow> address \<Rightarrow> multicall_call list \<Rightarrow> multicall_result list option" where
  "executeMulticall tr mcAddr calls =
     (case mc_pack tr calls of None \<Rightarrow> None | Some calldata \<Rightarrow>
      case mc_call tr mcAddr calldata of None \<Rightarrow> None | Some rawResult \<Rightarrow>
      case json_string rawResult of None \<Rightarrow> None | Some resultHex \<Rightarrow>
      case mc_unhex tr resultHex of None \<Rightarrow> None | Some resultBytes \<Rightarrow> mc_unpack tr resultBytes)"

section \<open>The cache\<close>

definition standardFees :: "int list" where "standardFees = [100, 500, 3000, 10000]"

record fee_cache =
  bestFees :: "string \<rightharpoonup> int"

definition NewFeeCache :: fee_cache where "NewFeeCache = \<lparr>bestFees = Map.empty\<rparr>"

text \<open>\<open>strings.Compare(t0, t1) > 0\<close> swaps.\<close>

definition order_pair :: "string \<Rightarrow> string \<Rightarrow> string \<times> string" where
  "order_pair t0 t1 = (if str_less t1 t0 then (t1, t0) else (t0, t1))"

definition pair_key :: "string \<times> string \<Rightarrow> string" where
  "pair_key p = fst p @ ''-'' @ snd p"

fun asset_pairs :: "string list \<Rightarrow> (string \<times> string) list" where
  "asset_pairs [] = []"
| "asset_pairs (a # as) = map (order_pair a) as @ asset_pairs as"

record pool_meta =
  pm_pairKey :: string
  pm_fee :: int
  pm_token0 :: address

definition pool_calls :: "dex_codec \<Rightarrow> address \<Rightarrow> string \<times> string \<Rightarrow> (multicall_call \<times> pool_meta) list" where
  "pool_calls c factoryAddr pair =
     (let t0Addr = HexToAddress c (fst pair); t1Addr = HexToAddress c (snd pair); pairKey = pair_key pair in
      map (\<lambda>fee.
        (\<lparr>Target = factoryAddr, AllowFailure = True, CallData = pack_getPool c t0Addr t1Addr fee\<rparr>,
         \<lparr>pm_pairKey = pairKey, pm_fee = fee, pm_token0 = t0Addr\<rparr>)) standardFees)"

text \<open>The first answer loop: keep the pools that exist and ask for their balance of token0.\<close>

fun pool_loop ::
    "dex_codec \<Rightarrow> pool_meta list \<Rightarrow> nat \<Rightarrow> multicall_result list \<Rightarrow> (multicall_call \<times> pool_meta) list outcome" where
  "pool_loop c metaTracker i [] = Inr []"
| "pool_loop c metaTracker i (res # results) =
     (if \<not> mr_Success res \<or> mr_ReturnData res = [] then pool_loop c metaTracker (Suc i) results
      else case unpack_getPool c (mr_ReturnData res) of
          None \<Rightarrow> pool_loop c metaTracker (Suc i) results
        | Some poolAddr \<Rightarrow>
            if poolAddr = HexToAddress c ''0x0'' then pool_loop c metaTracker (Suc i) results
            else if i < length metaTracker then
              bind_outcome (pool_loop c metaTracker (Suc i) results)
                (\<lambda>rest. Inr ((\<lparr>Target = pm_token0 (metaTracker ! i), AllowFailure = True,
                               CallData = pack_balanceOf c poolAddr\<rparr>, metaTracker ! i) # rest))
            else Inl IndexOutOfRange)"

text \<open>The second answer loop over \<open>maxBalanceTracker\<close> and \<open>bestFees\<close>.\<close>

type_synonym fee_state = "(string \<rightharpoonup> int) \<times> (string \<rightharpoonup> int)"

definition better_pool :: "pool_meta \<Rightarrow> int \<Rightarrow> fee_state \<Rightarrow> fee_state" where
  "better_pool meta balance st =
     (let (maxBalance, best) = st in
      case maxBalance (pm_pairKey meta) of
        None \<Rightarrow> (maxBalance(pm_pairKey meta \<mapsto> balance), best(pm_pairKey meta \<mapsto> pm_fee meta))
      | Some currentMax \<Rightarrow>
          if balance > currentMax
          then (maxBalance(pm_pairKey meta \<mapsto> balance), best(pm_pairKey meta \<mapsto> pm_fee meta))
          else st)"

fun balance_loop ::
    "dex_codec \<Rightarrow> pool_meta list \<Rightarrow> nat \<Rightarrow> multicall_result list \<Rightarrow> fee_state \<Rightarrow> fee_state outcome" where
  "balance_loop c validPoolMeta i [] st = Inr st"
| "balance_loop c validPoolMeta i (res # results) st =
     (if \<not> mr_Success res \<or> mr_ReturnData res = [] then balance_loop c validPoolMeta (Suc i) results st
      else case unpack_balanceOf c (mr_ReturnData res) of
          None \<Rightarrow> balance_loop c validPoolMeta (Suc i) results st
        | Some balance \<Rightarrow>
            if i < length validPoolMeta
            then balance_loop c validPoolMeta (Suc i) results (better_pool (validPoolMeta ! i) balance st)
            else Inl IndexOutOfRange)"

text \<open>The first stage: the existing pools with the calls for their balances; \<open>None\<close> is the error return.\<close>

definition find_pools ::
    "dex_codec \<Rightarrow> (multicall_call list \<Rightarrow> multicall_result list option) \<Rightarrow> string list \<Rightarrow> address \<Rightarrow>
     (multicall_call \<times> pool_meta) list option outcome" where
  "find_pools c executeCalls assets factoryAddr =
     (let tracked = concat (map (pool_calls c factoryAddr) (asset_pairs assets)) in
      case executeCalls (map fst tracked) of
        None \<Rightarrow> Inr None
      | Some poolResults \<Rightarrow> bind_outcome (pool_loop c (map snd tracked) 0 poolResults) (\<lambda>pools. Inr (Some pools)))"

text \<open>\<open>None\<close> is the error return; the table is then unchanged.\<close>

definition BuildCache ::
    "dex_codec \<Rightarrow> (multicall_call list \<Rightarrow> multicall_result list option) \<Rightarrow> string list \<Rightarrow> address \<Rightarrow>
     fee_cache \<Rightarrow> fee_cache option outcome" where
  "BuildCache c executeCalls assets factoryAddr fc =
     bind_outcome (find_pools c executeCalls assets factoryAddr) (\<lambda>found.
       case found of
         None \<Rightarrow> Inr None
       | Some pools \<Rightarrow>
           if pools = [] then Inr (Some fc)
           else case executeCalls (map fst pools) of
               None \<Rightarrow> Inr None
             | Some balanceResults \<Rightarrow>
                 bind_outcome (balance_loop c (map snd pools) 0 balanceResults (Map.empty, bestFees fc))
                   (\<lambda>st. Inr (Some (fc\<lparr>bestFees := snd st\<rparr>))))"

definition GetOptimalFee :: "fee_cache \<Rightarrow> string \<Rightarrow> string \<Rightarrow> int option" where
  "GetOptimalFee fc assetA assetB = bestFees fc (pair_key (order_pair (ToLower assetA) (ToLower assetB)))"

section \<open>What the loops compute\<close>

lemma order_pair_comm: "order_pair a b = order_pair b a"
  using str_less_asym str_less_total by (auto simp: order_pair_def)

text \<open>The answers the second loop accepts: a pool and its balance.\<close>

definition answer_balance :: "dex_codec \<Rightarrow> pool_meta \<times> multicall_result \<Rightarrow> (pool_meta \<times> int) list" where
  "answer_balance c mr =
     (if \<not> mr_Success (snd mr) \<or> mr_ReturnData (snd mr) = [] then []
      else case unpack_balanceOf c (mr_ReturnData (snd mr)) of None \<Rightarrow> [] | Some b \<Rightarrow> [(fst mr, b)])"

definition valid_balances :: "dex_codec \<Rightarrow> pool_meta list \<Rightarrow> multicall_result list \<Rightarrow> (pool_meta \<times> int) list" where
  "valid_balances c metas rs = concat (map (answer_balance c) (zip metas rs))"

lemma balance_loop_eq:
  "i + length rs \<le> length metas \<Longrightarrow>
   balance_loop c metas i rs st = Inr (fold (\<lambda>(m, b). better_pool m b) (valid_balances c (drop i metas) rs) st)"
proof (induction rs arbitrary: i st)
  case (Cons r rs)
  have d: "drop i metas = metas ! i # drop (Suc i) metas"
    using Cons.prems by (simp add: Cons_nth_drop_Suc)
  have ih: "balance_loop c metas (Suc i) rs st' =
      Inr (fold (\<lambda>(m, b). better_pool m b) (valid_balances c (drop (Suc i) metas) rs) st')" for st'
    using Cons by simp
  show ?case
    using Cons.prems by (auto simp: d ih valid_balances_def answer_balance_def split: option.split)
qed (simp add: valid_balances_def)

text \<open>The tracker after a list of entries: the largest balance of every key and the fee of such a pool.\<close>

definition tracker_ok :: "(string \<rightharpoonup> int) \<Rightarrow> (pool_meta \<times> int) list \<Rightarrow> fee_state \<Rightarrow> bool" where
  "tracker_ok best0 es st \<longleftrightarrow> (\<forall>k. case fst st k of
      None \<Rightarrow> (\<forall>(m, b) \<in> set es. pm_pairKey m \<noteq> k) \<and> snd st k = best0 k
    | Some mx \<Rightarrow> (\<exists>m. (m, mx) \<in> set es \<and> pm_pairKey m = k \<and> snd st k = Some (pm_fee m)) \<and>
        (\<forall>(m, b) \<in> set es. pm_pairKey m = k \<longrightarrow> b \<le> mx))"

lemma tracker_ok_snoc:
  assumes "tracker_ok best0 es st"
  shows "tracker_ok best0 (es @ [(m, b)]) (better_pool m b st)"
proof -
  have at: "case fst st k of
      None \<Rightarrow> (\<forall>(m, b) \<in> set es. pm_pairKey m \<noteq> k) \<and> snd st k = best0 k
    | Some mx \<Rightarrow> (\<exists>m. (m, mx) \<in> set es \<and> pm_pairKey m = k \<and> snd st k = Some (pm_fee m)) \<and>
        (\<forall>(m, b) \<in> set es. pm_pairKey m = k \<longrightarrow> b \<le> mx)" for k
    using assms unfolding tracker_ok_def by blast
  obtain mxs best where st: "st = (mxs, best)" by fastforce
  show ?thesis unfolding tracker_ok_def
  proof
    fix k
    show "case fst (better_pool m b st) k of
        None \<Rightarrow> (\<forall>(m, b) \<in> set (es @ [(m, b)]). pm_pairKey m \<noteq> k) \<and> snd (better_pool m b st) k = best0 k
      | Some mx \<Rightarrow> (\<exists>m'. (m', mx) \<in> set (es @ [(m, b)]) \<and> pm_pairKey m' = k \<and>
            snd (better_pool m b st) k = Some (pm_fee m')) \<and>
          (\<forall>(m, b) \<in> set (es @ [(m, b)]). pm_pairKey m = k \<longrightarrow> b \<le> mx)"
      using at [of k] by (cases "mxs (pm_pairKey m)"; cases "mxs k")
        (fastforce simp: st better_pool_def split: if_splits)+
  qed
qed

lemma tracker_ok_fold: "tracker_ok best0 es (fold (\<lambda>(m, b). better_pool m b) es (Map.empty, best0))"
proof (induction es rule: rev_induct)
  case Nil
  show ?case by (simp add: tracker_ok_def)
next
  case (snoc e es)
  then show ?case using tracker_ok_snoc [of best0 es] by (cases e) simp
qed

section \<open>Properties\<close>

text \<open>
  the lookup does not depend on the order or the case of the two assets.
\<close>

theorem optimal_fee_symmetric:
  "GetOptimalFee fc a b = GetOptimalFee fc b a \<and> GetOptimalFee fc (ToLower a) b = GetOptimalFee fc a b"
  by (simp add: GetOptimalFee_def order_pair_comm)

text \<open>
  the cache prefers the deepest pool. When every call of the second stage was answered, building
  succeeds, and for each pool that reported a balance the fee stored for its pair is that of a pool
  of the pair with the largest reported balance; pairs without an answer keep their old entry.
\<close>

theorem build_cache_deepest:
  assumes "find_pools c ex assets factory = Inr (Some pools)" and "pools \<noteq> []"
    and "ex (map fst pools) = Some rs" and "length rs = length pools"
  shows "\<exists>fc'. BuildCache c ex assets factory fc = Inr (Some fc') \<and>
    (\<forall>(m, b) \<in> set (valid_balances c (map snd pools) rs).
       \<exists>(m', b') \<in> set (valid_balances c (map snd pools) rs).
         pm_pairKey m' = pm_pairKey m \<and> b \<le> b' \<and> bestFees fc' (pm_pairKey m) = Some (pm_fee m')) \<and>
    (\<forall>k. k \<notin> pm_pairKey ` fst ` set (valid_balances c (map snd pools) rs) \<longrightarrow> bestFees fc' k = bestFees fc k)"
proof -
  let ?es = "valid_balances c (map snd pools) rs"
  let ?st = "fold (\<lambda>(m, b). better_pool m b) ?es (Map.empty, bestFees fc)"
  have b: "BuildCache c ex assets factory fc = Inr (Some (fc\<lparr>bestFees := snd ?st\<rparr>))"
    using assms balance_loop_eq [of 0 rs "map snd pools" c] by (simp add: BuildCache_def)
  have ok: "tracker_ok (bestFees fc) ?es ?st" by (rule tracker_ok_fold)
  have 1: "\<exists>(m', b') \<in> set ?es. pm_pairKey m' = pm_pairKey m \<and> b \<le> b' \<and> snd ?st (pm_pairKey m) = Some (pm_fee m')"
    if "(m, b) \<in> set ?es" for m b
    using ok [unfolded tracker_ok_def, THEN spec, of "pm_pairKey m"] that
    by (cases "fst ?st (pm_pairKey m)") fastforce+
  have 2: "snd ?st k = bestFees fc k" if "k \<notin> pm_pairKey ` fst ` set ?es" for k
    using ok [unfolded tracker_ok_def, THEN spec, of k] that
    by (cases "fst ?st k") force+
  show ?thesis using b 1 2 by (intro exI [of _ "fc\<lparr>bestFees := snd ?st\<rparr>"]) auto
qed

text \<open>A codec and a chain with two pools of the pair (a, b): 500 holds 7, 3000 holds 9.\<close>

definition toy_codec :: dex_codec where
  "toy_codec = \<lparr>HexToAddress = (\<lambda>s. if s = ''a'' then 1 else if s = ''b'' then 2 else 0),
     pack_getPool = (\<lambda>a b f. [if f = 500 then 5 else if f = 3000 then 30 else 0]), pack_balanceOf = (\<lambda>a. [ucast a]),
     unpack_getPool = (\<lambda>d. Some (ucast (hd d))), unpack_balanceOf = (\<lambda>d. Some (uint (hd d)))\<rparr>"

definition toy_chain :: "multicall_call list \<Rightarrow> multicall_result list option" where
  "toy_chain calls = Some (map (\<lambda>c. \<lparr>mr_Success = True, mr_ReturnData =
     (if Target c = 9 then CallData c else [if CallData c = [5] then 7 else 9])\<rparr>) calls)"

theorem build_cache_deepest_witness:
  "\<exists>fc'. BuildCache toy_codec toy_chain [''b'', ''a''] 9 NewFeeCache = Inr (Some fc') \<and>
     bestFees fc' ''a-b'' = Some 3000"
proof -
  let ?m = "\<lambda>f. \<lparr>pm_pairKey = ''a-b'', pm_fee = f, pm_token0 = 1\<rparr>"
  let ?pools = "[(\<lparr>Target = 1, AllowFailure = True, CallData = [5]\<rparr>, ?m 500),
    (\<lparr>Target = 1, AllowFailure = True, CallData = [30]\<rparr>, ?m 3000)]"
  let ?rs = "[\<lparr>mr_Success = True, mr_ReturnData = [7]\<rparr>, \<lparr>mr_Success = True, mr_ReturnData = [9]\<rparr>]"
  have f: "find_pools toy_codec toy_chain [''b'', ''a''] 9 = Inr (Some ?pools)" by code_simp
  have r: "toy_chain (map fst ?pools) = Some ?rs" by code_simp
  have v: "valid_balances toy_codec (map snd ?pools) ?rs = [(?m 500, 7), (?m 3000, 9)]" by code_simp
  show ?thesis using build_cache_deepest [OF f _ r, of NewFeeCache] unfolding v by auto
qed

end
