(* ===== verification/RpcClient.thy ===== *)
theory RpcClient
  imports RayMath
begin

text \<open>
  \<open>internal/rpc/rpc.go\<close>: the JSON-RPC client that rotates over several nodes and retries.
  The network is a parameter: the reply to every attempt. A reply body is either not JSON or an
  object whose two fields may be absent, \<open>null\<close> or present (bodies with fields of another JSON
  type are left out); \<open>time.Sleep\<close> between attempts has no effect on the result.
\<close>

section \<open>The client and the rotation\<close>

record rpc_client =
  rpcURLs :: "string list"
  currentIndex :: u64

text \<open>\<open>NewRPCClient\<close> panics on an empty list (\<open>None\<close>), so every client has at least one node.\<close>

definition NewRPCClient :: "string list \<Rightarrow> rpc_client option" where
  "NewRPCClient urls = (if urls = [] then None else Some \<lparr>rpcURLs = urls, currentIndex = 0\<rparr>)"

definition GetNextURL :: "rpc_client \<Rightarrow> string \<times> rpc_client" where
  "GetNextURL r =
     (let idx = currentIndex r + 1
      in (rpcURLs r ! unat (idx mod of_nat (length (rpcURLs r))), r\<lparr>currentIndex := idx\<rparr>))"

section \<open>CallWithRetry\<close>

datatype 'a json_field = Absent | Null | Present 'a

datatype reply_body = Malformed | Envelope "string json_field" "string json_field"

datatype http_reply = TransportError | HttpReply nat reply_body

text \<open>The variable \<open>result\<close>: raw result and error message; one variable serves all attempts.\<close>

record rpc_result =
  rr_Result :: string
  rr_Error :: "string option"

definition empty_result :: rpc_result where
  "empty_result = \<lparr>rr_Result = [], rr_Error = None\<rparr>"

text \<open>\<open>json.Unmarshal\<close> into an existing struct leaves the fields that the object does not name.\<close>

definition unmarshal_result :: "string json_field \<Rightarrow> string json_field \<Rightarrow> rpc_result \<Rightarrow> rpc_result" where
  "unmarshal_result res err r =
     \<lparr>rr_Result = (case res of Absent \<Rightarrow> rr_Result r | Null \<Rightarrow> ''null'' | Present v \<Rightarrow> v),
      rr_Error = (case err of Absent \<Rightarrow> rr_Error r | Null \<Rightarrow> None | Present msg \<Rightarrow> Some msg)\<rparr>"

text \<open>One attempt: \<open>Inr\<close> is the return of a result, \<open>Inl\<close> the next iteration with the variable kept.\<close>

definition call_attempt :: "http_reply \<Rightarrow> rpc_result \<Rightarrow> rpc_result + string" where
  "call_attempt reply result =
     (case reply of
        TransportError \<Rightarrow> Inl result
      | HttpReply status body \<Rightarrow>
          if status = 429 then Inl result
          else if status \<ge> 500 then Inl result
          else case body of
              Malformed \<Rightarrow> Inl result
            | Envelope res err \<Rightarrow>
                let result' = unmarshal_result res err result in
                if rr_Error result' \<noteq> None then Inl result' else Inr (rr_Result result'))"

definition maxRetries :: nat where "maxRetries = 5"

text \<open>\<open>k\<close> counts the attempts left; the reply may depend on the attempt and on the node.\<close>

fun call_loop ::
    "(nat \<Rightarrow> string \<Rightarrow> http_reply) \<Rightarrow> nat \<Rightarrow> nat \<Rightarrow> rpc_client \<Rightarrow> rpc_result \<Rightarrow> string option \<times> rpc_client" where
  "call_loop http 0 attempt r result = (None, r)"
| "call_loop http (Suc k) attempt r result =
     (let (currentURL, r') = GetNextURL r in
      case call_attempt (http attempt currentURL) result of
        Inl result' \<Rightarrow> call_loop http k (Suc attempt) r' result'
      | Inr raw \<Rightarrow> (Some raw, r'))"

definition CallWithRetry :: "(nat \<Rightarrow> string \<Rightarrow> http_reply) \<Rightarrow> rpc_client \<Rightarrow> string option \<times> rpc_client" where
  "CallWithRetry http r = call_loop http (maxRetries + 1) 0 r empty_result"

section \<open>The rotation visits every node\<close>

fun next_urls :: "nat \<Rightarrow> rpc_client \<Rightarrow> string list" where
  "next_urls 0 r = []"
| "next_urls (Suc k) r = (let (url, r') = GetNextURL r in url # next_urls k r')"

text \<open>The node of the j-th call from now on.\<close>

definition url_at :: "rpc_client \<Rightarrow> nat \<Rightarrow> string" where
  "url_at r j = rpcURLs r ! ((unat (currentIndex r) + 1 + j) mod length (rpcURLs r))"

definition no_wrap :: "rpc_client \<Rightarrow> nat \<Rightarrow> bool" where
  "no_wrap r k \<longleftrightarrow> rpcURLs r \<noteq> [] \<and> length (rpcURLs r) < 2 ^ 64 \<and> unat (currentIndex r) + k < 2 ^ 64"

lemma GetNextURL_at:
  assumes "no_wrap r (Suc k)"
  shows "GetNextURL r = (url_at r 0, r\<lparr>currentIndex := currentIndex r + 1\<rparr>)"
    and "unat (currentIndex r + 1) = unat (currentIndex r) + 1"
    and "no_wrap (r\<lparr>currentIndex := currentIndex r + 1\<rparr>) k"
    and "url_at (r\<lparr>currentIndex := currentIndex r + 1\<rparr>) j = url_at r (Suc j)"
proof -
  have lt: "unat (currentIndex r) + 1 < 2 ^ 64" using assms by (simp add: no_wrap_def)
  show u: "unat (currentIndex r + 1) = unat (currentIndex r) + 1"
    using lt by (simp add: unat_word_ariths)
  have len: "unat (of_nat (length (rpcURLs r)) :: u64) = length (rpcURLs r)"
    using assms by (simp add: no_wrap_def unat_of_nat take_bit_nat_eq_self)
  show "GetNextURL r = (url_at r 0, r\<lparr>currentIndex := currentIndex r + 1\<rparr>)"
    by (simp add: GetNextURL_def url_at_def Let_def unat_mod u len)
  show "no_wrap (r\<lparr>currentIndex := currentIndex r + 1\<rparr>) k"
    using assms u by (simp add: no_wrap_def)
  show "url_at (r\<lparr>currentIndex := currentIndex r + 1\<rparr>) j = url_at r (Suc j)"
    by (simp add: url_at_def u)
qed

lemma next_urls_at: "no_wrap r k \<Longrightarrow> next_urls k r = map (url_at r) [0..<k]"
proof (induction k arbitrary: r)
  case (Suc k)
  have "map (url_at r) [0..<Suc k] = url_at r 0 # map (\<lambda>j. url_at r (Suc j)) [0..<k]"
    by (simp add: map_Suc_upt [symmetric] upt_conv_Cons del: upt_Suc flip: map_map [unfolded comp_def])
  then show ?case using GetNextURL_at [OF Suc.prems] Suc.IH by simp
qed simp

text \<open>
  the rotation is fair. As long as the counter does not wrap, as many consecutive requests as
  there are nodes go to each node exactly once.
\<close>

theorem next_url_round_robin:
  assumes "no_wrap r (length (rpcURLs r))"
  shows "mset (next_urls (length (rpcURLs r)) r) = mset (rpcURLs r)"
proof -
  have "next_urls (length (rpcURLs r)) r = rotate (unat (currentIndex r) + 1) (rpcURLs r)"
    unfolding next_urls_at [OF assms]
  proof (rule nth_equalityI)
    fix i assume "i < length (map (url_at r) [0..<length (rpcURLs r)])"
    then show "map (url_at r) [0..<length (rpcURLs r)] ! i = rotate (unat (currentIndex r) + 1) (rpcURLs r) ! i"
      by (simp add: nth_rotate url_at_def del: rotate_Suc)
  qed simp
  then show ?thesis by (metis append_take_drop_id mset_append rotate_drop_take union_commute)
qed

theorem next_url_round_robin_witness:
  "mset (next_urls 3 \<lparr>rpcURLs = [''a'', ''b'', ''c''], currentIndex = 7\<rparr>) = mset [''a'', ''b'', ''c'']"
proof -
  let ?r = "\<lparr>rpcURLs = [''a'', ''b'', ''c''], currentIndex = 7\<rparr>"
  have l: "length (rpcURLs ?r) = 3" by simp
  have "no_wrap ?r (length (rpcURLs ?r))" by (simp add: no_wrap_def)
  from next_url_round_robin [OF this] show ?thesis unfolding l by simp
qed

section \<open>What a call returns\<close>

text \<open>Attempts that change nothing, and attempts that carry a result.\<close>

definition silent :: "http_reply \<Rightarrow> bool" where
  "silent reply \<longleftrightarrow> (case reply of TransportError \<Rightarrow> True
     | HttpReply status body \<Rightarrow> status = 429 \<or> status \<ge> 500 \<or> body = Malformed)"

definition good :: "http_reply \<Rightarrow> string \<Rightarrow> bool" where
  "good reply v \<longleftrightarrow> (case reply of
     HttpReply status (Envelope (Present w) err) \<Rightarrow> status \<noteq> 429 \<and> status < 500 \<and> w = v \<and> (err = Absent \<or> err = Null)
   | _ \<Rightarrow> False)"

definition omits_error :: "http_reply \<Rightarrow> bool" where
  "omits_error reply \<longleftrightarrow> (case reply of HttpReply _ (Envelope _ err) \<Rightarrow> err = Absent | _ \<Rightarrow> True)"

lemma silent_attempt: "silent reply \<Longrightarrow> call_attempt reply res = Inl res"
  by (auto simp: silent_def call_attempt_def split: http_reply.splits)

lemma good_attempt: "good reply v \<Longrightarrow> rr_Error res = None \<Longrightarrow> call_attempt reply res = Inr v"
  by (auto simp: good_def call_attempt_def unmarshal_result_def
      split: http_reply.splits reply_body.splits json_field.splits)

lemma sticky_attempt:
  assumes "omits_error reply" "rr_Error res \<noteq> None"
  shows "\<exists>res'. call_attempt reply res = Inl res' \<and> rr_Error res' \<noteq> None"
  using assms
  by (auto simp: omits_error_def call_attempt_def unmarshal_result_def
      split: http_reply.splits reply_body.splits)

lemma call_loop_good:
  assumes "no_wrap r k" "i < k" "\<And>j. j < i \<Longrightarrow> silent (http (a + j) (url_at r j))"
    and "good (http (a + i) (url_at r i)) v" "rr_Error res = None"
  shows "\<exists>r'. call_loop http k a r res = (Some v, r')"
  using assms
proof (induction i arbitrary: a k r)
  case 0
  then obtain k' where k: "k = Suc k'" by (cases k) auto
  show ?case using 0 GetNextURL_at(1) [of r k'] good_attempt [of "http a (url_at r 0)" v res] by (simp add: k)
next
  case (Suc i)
  then obtain k' where k: "k = Suc k'" by (cases k) auto
  note step = GetNextURL_at [of r k']
  let ?r' = "r\<lparr>currentIndex := currentIndex r + 1\<rparr>"
  have w: "no_wrap r (Suc k')" using Suc.prems(1) k by simp
  have "\<exists>r'. call_loop http k' (Suc a) ?r' res = (Some v, r')"
  proof (rule Suc.IH)
    show "no_wrap ?r' k'" using step(3) [OF w] .
    show "i < k'" using Suc.prems(2) k by simp
    show "silent (http (Suc a + j) (url_at ?r' j))" if "j < i" for j
      using Suc.prems(3) [of "Suc j"] that step(4) [OF w] by simp
    show "good (http (Suc a + i) (url_at ?r' i)) v" using Suc.prems(4) step(4) [OF w] by simp
  qed (rule Suc.prems(5))
  moreover have "silent (http a (url_at r 0))" using Suc.prems(3) [of 0] by simp
  ultimately show ?case using step(1) [OF w] silent_attempt [of "http a (url_at r 0)"] by (simp add: k)
qed

lemma call_loop_sticky:
  assumes "\<And>j u. j \<ge> a \<Longrightarrow> omits_error (http j u)" "rr_Error res \<noteq> None"
  shows "fst (call_loop http k a r res) = None"
  using assms
proof (induction k arbitrary: a r res)
  case (Suc k)
  obtain url r' where n: "GetNextURL r = (url, r')" by fastforce
  obtain res' where "call_attempt (http a url) res = Inl res'" "rr_Error res' \<noteq> None"
    using sticky_attempt Suc.prems by blast
  then show ?case using Suc.IH [of "Suc a" res' r'] Suc.prems n by simp
qed simp

text \<open>
  C38: a call survives five bad attempts. If the attempts before one of the six fail without a JSON-RPC
  error (network, rate limit, server error, broken body) and that one brings a result, the call
  returns exactly this result.
\<close>

theorem call_returns_first_good:
  assumes "no_wrap r 6" and "i \<le> 5" and "\<And>j. j < i \<Longrightarrow> silent (http j (url_at r j))"
    and "good (http i (url_at r i)) v"
  shows "fst (CallWithRetry http r) = Some v"
  using call_loop_good [of r 6 i http 0 v empty_result] assms
  by (auto simp: CallWithRetry_def maxRetries_def empty_result_def)

definition flaky_http :: "nat \<Rightarrow> string \<Rightarrow> http_reply" where
  "flaky_http attempt url =
     (if attempt = 0 then TransportError else if attempt = 1 then HttpReply 429 Malformed
      else HttpReply 200 (Envelope (Present url) Absent))"

theorem call_returns_first_good_witness:
  "fst (CallWithRetry flaky_http \<lparr>rpcURLs = [''a'', ''b''], currentIndex = 0\<rparr>) = Some ''b''"
proof -
  let ?r = "\<lparr>rpcURLs = [''a'', ''b''], currentIndex = 0 :: u64\<rparr>"
  have w: "no_wrap ?r 6" by (simp add: no_wrap_def)
  have s: "silent (flaky_http j (url_at ?r j))" if "j < 2" for j
    using that by (auto simp: flaky_http_def silent_def)
  have "Suc (Suc (Suc 0)) mod Suc (Suc 0) = 1" by (simp add: mod_Suc)
  then have g: "good (flaky_http 2 (url_at ?r 2)) ''b''" by (simp add: flaky_http_def good_def url_at_def)
  show ?thesis by (rule call_returns_first_good [of ?r 2 flaky_http]) (rule w, simp, erule s, rule g)
qed

text \<open>
  an error is never forgotten. Once an attempt has brought a JSON-RPC error, replies that, as the
  JSON-RPC standard has it for a success, have no \<open>error\<close> member cannot clear the variable: the
  call fails although every later node answers correctly.
\<close>

theorem rpc_error_sticks:
  assumes "\<And>url. http 0 url = HttpReply 200 (Envelope Absent (Present msg))"
    and "\<And>j url. 1 \<le> j \<Longrightarrow> omits_error (http j url)"
  shows "fst (CallWithRetry http r) = None"
proof -
  obtain url r' where n: "GetNextURL r = (url, r')" by fastforce
  have "call_attempt (http 0 url) empty_result = Inl \<lparr>rr_Result = [], rr_Error = Some msg\<rparr>"
    by (simp add: assms(1) call_attempt_def unmarshal_result_def empty_result_def)
  then show ?thesis
    using call_loop_sticky [of 1 http "\<lparr>rr_Result = [], rr_Error = Some msg\<rparr>" 5 r'] assms(2) n
    by (simp add: CallWithRetry_def maxRetries_def numeral_eq_Suc)
qed

theorem rpc_error_sticks_witness:
  "fst (CallWithRetry (\<lambda>attempt url. if attempt = 0 then HttpReply 200 (Envelope Absent (Present ''header not found''))
     else HttpReply 200 (Envelope (Present url) Absent)) \<lparr>rpcURLs = [''a'', ''b''], currentIndex = 0\<rparr>) = None"
  by (rule rpc_error_sticks [of _ "''header not found''"]) (simp_all add: omits_error_def)

end
