(* ===== verification/TxExecutor.thy ===== *)
theory TxExecutor
  imports Strategy FeeCache RpcClient
begin

text \<open>
  \<open>internal/engine/tx_executor.go\<close>: simulating, signing and broadcasting one liquidation. The
  Ethereum node behind \<open>ethclient\<close>, the ABI packing and the signature are parameters; the context
  enters as the flag whether it is done (cancelled or timed out). A result is the returned error
  (\<open>None\<close> for nil) and the transaction a node accepted, if any.
\<close>

section \<open>Data\<close>

definition gasLimitBuffer :: u64 where "gasLimitBuffer = 20000"
definition maxRPCRetries :: nat where "maxRPCRetries = 3"
definition minProfitAmount :: int where "minProfitAmount = 0"
definition fallbackPoolFee :: int where "fallbackPoolFee = 3000"

record contract_liquidation_params =
  clp_CollateralAsset :: address
  clp_DebtAsset :: address
  clp_UserAddress :: address
  clp_DebtToCover :: int
  clp_MinProfitAmount :: int
  clp_PoolFee :: int

record call_msg =
  msg_From :: address
  msg_To :: address
  msg_Value :: int
  msg_Data :: "u8 list"

record dynamic_fee_tx =
  tx_ChainID :: int
  tx_Nonce :: u64
  tx_GasTipCap :: int
  tx_GasFeeCap :: int
  tx_Gas :: u64
  tx_To :: address
  tx_Value :: int
  tx_Data :: "u8 list"

record signed_tx =
  st_tx :: dynamic_fee_tx
  st_hash :: string

record tx_executor =
  te_contract :: address
  te_walletAddr :: address
  te_chainID :: int
  te_feeCache :: fee_cache

text \<open>A node as \<open>ethclient\<close> shows it; the flag is whether the context is done.\<close>

record eth_node =
  Dial :: bool
  EstimateGas :: "bool \<Rightarrow> call_msg \<Rightarrow> string + u64"
  PendingNonceAt :: "bool \<Rightarrow> address \<Rightarrow> u64 option"
  SuggestGasTipCap :: "bool \<Rightarrow> int option"
  SuggestGasPrice :: "bool \<Rightarrow> int option"
  SendTransaction :: "bool \<Rightarrow> signed_tx \<Rightarrow> bool"

record tx_env =
  te_HexToAddress :: "string \<Rightarrow> address"
  packArbitrage :: "contract_liquidation_params \<Rightarrow> u8 list option"
  SignTx :: "dynamic_fee_tx \<Rightarrow> signed_tx option"
  node_at :: "nat \<Rightarrow> string \<Rightarrow> eth_node"

datatype send_error = PackFailed | SimulationFailed string | SignFailed | RetriesExhausted

datatype attempt_result = NextNode | Abort send_error | Broadcast signed_tx

section \<open>Operations\<close>

definition is_revert :: "string \<Rightarrow> bool" where
  "is_revert err = (let errStr = ToLower err in Contains errStr ''revert'' \<or> Contains errStr ''execution reverted'')"

definition liquidation_params :: "tx_env \<Rightarrow> tx_executor \<Rightarrow> liquidation_recipe \<Rightarrow> contract_liquidation_params" where
  "liquidation_params env ex recipe =
     \<lparr>clp_CollateralAsset = te_HexToAddress env (CollateralAsset recipe),
      clp_DebtAsset = te_HexToAddress env (DebtAsset recipe),
      clp_UserAddress = te_HexToAddress env (lr_UserAddress recipe),
      clp_DebtToCover = DebtToCover recipe,
      clp_MinProfitAmount = minProfitAmount,
      clp_PoolFee = (case GetOptimalFee (te_feeCache ex) (CollateralAsset recipe) (DebtAsset recipe) of
                       None \<Rightarrow> fallbackPoolFee | Some fee \<Rightarrow> fee)\<rparr>"

definition arbitrage_msg :: "tx_executor \<Rightarrow> u8 list \<Rightarrow> call_msg" where
  "arbitrage_msg ex calldata =
     \<lparr>msg_From = te_walletAddr ex, msg_To = te_contract ex, msg_Value = 0, msg_Data = calldata\<rparr>"

definition send_attempt :: "tx_env \<Rightarrow> bool \<Rightarrow> tx_executor \<Rightarrow> u8 list \<Rightarrow> eth_node \<Rightarrow> attempt_result" where
  "send_attempt env done ex calldata node =
     (if \<not> Dial node then NextNode
      else case EstimateGas node done (arbitrage_msg ex calldata) of
        Inl err \<Rightarrow> if is_revert err then Abort (SimulationFailed err) else NextNode
      | Inr gasLimit \<Rightarrow>
      case PendingNonceAt node done (te_walletAddr ex) of None \<Rightarrow> NextNode | Some nonce \<Rightarrow>
      case SuggestGasTipCap node done of None \<Rightarrow> NextNode | Some gasTipCap \<Rightarrow>
      case SuggestGasPrice node done of None \<Rightarrow> NextNode | Some gasFeeCap \<Rightarrow>
      let tx = \<lparr>tx_ChainID = te_chainID ex, tx_Nonce = nonce, tx_GasTipCap = gasTipCap,
                tx_GasFeeCap = gasFeeCap, tx_Gas = gasLimit + gasLimitBuffer, tx_To = te_contract ex,
                tx_Value = 0, tx_Data = calldata\<rparr> in
      case SignTx env tx of None \<Rightarrow> Abort SignFailed | Some signedTx \<Rightarrow>
      if SendTransaction node done signedTx then Broadcast signedTx else NextNode)"

text \<open>The attempts from \<open>attempt\<close> on; \<open>None\<close> when all are used up.\<close>

fun send_loop ::
    "tx_env \<Rightarrow> bool \<Rightarrow> tx_executor \<Rightarrow> u8 list \<Rightarrow> nat \<Rightarrow> nat \<Rightarrow> rpc_client \<Rightarrow>
     (send_error + signed_tx) option \<times> rpc_client" where
  "send_loop env done ex calldata 0 attempt r = (None, r)"
| "send_loop env done ex calldata (Suc k) attempt r =
     (let (rpcUrl, r') = GetNextURL r in
      case send_attempt env done ex calldata (node_at env attempt rpcUrl) of
        NextNode \<Rightarrow> send_loop env done ex calldata k (Suc attempt) r'
      | Abort e \<Rightarrow> (Some (Inl e), r')
      | Broadcast tx \<Rightarrow> (Some (Inr tx), r'))"

definition SendLiquidation ::
    "tx_env \<Rightarrow> bool \<Rightarrow> tx_executor \<Rightarrow> liquidation_recipe \<Rightarrow> rpc_client \<Rightarrow>
     send_error option \<times> signed_tx option \<times> rpc_client" where
  "SendLiquidation env done ex recipe r =
     (case packArbitrage env (liquidation_params env ex recipe) of
        None \<Rightarrow> (Some PackFailed, None, r)
      | Some calldata \<Rightarrow>
          (case send_loop env done ex calldata maxRPCRetries 1 r of
             (Some (Inl e), r') \<Rightarrow> (Some e, None, r')
           | (Some (Inr tx), r') \<Rightarrow> (if st_hash tx = [] then Some RetriesExhausted else None, Some tx, r')
           | (None, r') \<Rightarrow> (Some RetriesExhausted, None, r')))"

section \<open>Properties\<close>

lemma send_attempt_Broadcast:
  assumes "send_attempt env done ex calldata node = Broadcast tx"
  shows "\<exists>g n t p. EstimateGas node done (arbitrage_msg ex calldata) = Inr g \<and>
    PendingNonceAt node done (te_walletAddr ex) = Some n \<and> SuggestGasTipCap node done = Some t \<and>
    SuggestGasPrice node done = Some p \<and> SendTransaction node done tx \<and>
    SignTx env \<lparr>tx_ChainID = te_chainID ex, tx_Nonce = n, tx_GasTipCap = t, tx_GasFeeCap = p,
      tx_Gas = g + gasLimitBuffer, tx_To = te_contract ex, tx_Value = 0, tx_Data = calldata\<rparr> = Some tx"
  using assms
  by (auto simp: send_attempt_def Let_def split: if_splits sum.splits option.splits)

lemma send_loop_Inr:
  "send_loop env done ex calldata k a r = (Some (Inr tx), r') \<Longrightarrow>
   \<exists>i url. a \<le> i \<and> i < a + k \<and> send_attempt env done ex calldata (node_at env i url) = Broadcast tx"
proof (induction k arbitrary: a r)
  case (Suc k)
  obtain url r1 where n: "GetNextURL r = (url, r1)" by fastforce
  show ?case
  proof (cases "send_attempt env done ex calldata (node_at env a url)")
    case NextNode
    then have "send_loop env done ex calldata k (Suc a) r1 = (Some (Inr tx), r')"
      using Suc.prems n by simp
    from Suc.IH [OF this] obtain i u where "Suc a \<le> i" "i < Suc a + k"
      "send_attempt env done ex calldata (node_at env i u) = Broadcast tx" by blast
    then show ?thesis by (intro exI [of _ i] exI [of _ u]) simp
  next
    case (Abort e)
    then show ?thesis using Suc.prems n by simp
  next
    case (Broadcast tx')
    then have "tx' = tx" using Suc.prems n by simp
    then show ?thesis using Broadcast by (intro exI [of _ a] exI [of _ url]) simp
  qed
qed simp

text \<open>
  C17: what is broadcast is the recipe, and only after a simulation. The call data are the packed collateral,
  debt and user of the recipe, its exact debt to cover, the minimal profit 0 and the cached fee of the pair, or
  3000 without one. One of at most three nodes estimated the gas of this very call to the liquidator contract,
  without value, gave nonce and fees, and accepted the transaction signed with just these data and a gas limit
  20000 above its estimate.
\<close>

theorem broadcast_is_simulated_recipe:
  assumes "SendLiquidation env done ex recipe r = (err, Some tx, r')"
  shows "\<exists>calldata i url g n t p.
    packArbitrage env
      \<lparr>clp_CollateralAsset = te_HexToAddress env (CollateralAsset recipe),
       clp_DebtAsset = te_HexToAddress env (DebtAsset recipe),
       clp_UserAddress = te_HexToAddress env (lr_UserAddress recipe),
       clp_DebtToCover = DebtToCover recipe, clp_MinProfitAmount = 0,
       clp_PoolFee = (case GetOptimalFee (te_feeCache ex) (CollateralAsset recipe) (DebtAsset recipe) of
         None \<Rightarrow> 3000 | Some fee \<Rightarrow> fee)\<rparr> = Some calldata \<and>
    1 \<le> i \<and> i \<le> 3 \<and>
    EstimateGas (node_at env i url) done
      \<lparr>msg_From = te_walletAddr ex, msg_To = te_contract ex, msg_Value = 0, msg_Data = calldata\<rparr> = Inr g \<and>
    PendingNonceAt (node_at env i url) done (te_walletAddr ex) = Some n \<and>
    SuggestGasTipCap (node_at env i url) done = Some t \<and> SuggestGasPrice (node_at env i url) done = Some p \<and>
    SignTx env \<lparr>tx_ChainID = te_chainID ex, tx_Nonce = n, tx_GasTipCap = t, tx_GasFeeCap = p,
      tx_Gas = g + 20000, tx_To = te_contract ex, tx_Value = 0, tx_Data = calldata\<rparr> = Some tx \<and>
    SendTransaction (node_at env i url) done tx"
proof -
  obtain calldata where c: "packArbitrage env (liquidation_params env ex recipe) = Some calldata"
    using assms by (auto simp: SendLiquidation_def split: option.splits)
  have "\<exists>r1. send_loop env done ex calldata maxRPCRetries 1 r = (Some (Inr tx), r1)"
    using assms c by (auto simp: SendLiquidation_def split: option.splits sum.splits prod.splits)
  then obtain i url where i: "1 \<le> i" "i < 1 + maxRPCRetries"
    and b: "send_attempt env done ex calldata (node_at env i url) = Broadcast tx"
    using send_loop_Inr by blast
  have "i \<le> 3" using i(2) by (simp add: maxRPCRetries_def)
  then show ?thesis using send_attempt_Broadcast [OF b] c i(1)
    unfolding gasLimitBuffer_def liquidation_params_def arbitrage_msg_def minProfitAmount_def fallbackPoolFee_def by blast
qed

definition toy_node :: eth_node where
  "toy_node = \<lparr>Dial = True,
     EstimateGas = (\<lambda>done msg. if done then Inl ''context canceled'' else Inr 300000),
     PendingNonceAt = (\<lambda>done a. if done then None else Some 4),
     SuggestGasTipCap = (\<lambda>done. if done then None else Some 1),
     SuggestGasPrice = (\<lambda>done. if done then None else Some 10),
     SendTransaction = (\<lambda>done tx. \<not> done)\<rparr>"

definition toy_tx_env :: tx_env where
  "toy_tx_env = \<lparr>te_HexToAddress = (\<lambda>s. of_nat (length s)), packArbitrage = (\<lambda>p. Some [1, 2, 3]),
     SignTx = (\<lambda>tx. Some \<lparr>st_tx = tx, st_hash = ''0xaa''\<rparr>), node_at = (\<lambda>attempt url. toy_node)\<rparr>"

definition toy_executor :: tx_executor where
  "toy_executor = \<lparr>te_contract = 11, te_walletAddr = 12, te_chainID = 8453, te_feeCache = NewFeeCache\<rparr>"

definition toy_client :: rpc_client where
  "toy_client = \<lparr>rpcURLs = [''n0'', ''n1''], currentIndex = 0\<rparr>"

definition toy_recipe :: liquidation_recipe where
  "toy_recipe = \<lparr>lr_UserAddress = ''u'', DebtAsset = ''d'', CollateralAsset = ''c'', DebtToCover = 2500,
     ExpectedSeizedAmount = 2613, ExpectedProfitUSD = 9892500000, LiquidationBonusBps = 10500\<rparr>"

lemma toy_send:
  "SendLiquidation toy_tx_env False toy_executor toy_recipe toy_client =
     (None, Some \<lparr>st_tx = \<lparr>tx_ChainID = 8453, tx_Nonce = 4, tx_GasTipCap = 1, tx_GasFeeCap = 10, tx_Gas = 320000,
        tx_To = 11, tx_Value = 0, tx_Data = [1, 2, 3]\<rparr>, st_hash = ''0xaa''\<rparr>,
      \<lparr>rpcURLs = [''n0'', ''n1''], currentIndex = 1\<rparr>)"
  by code_simp

text \<open>An environment that packs the parameters of the example recipe and no others.\<close>

definition strict_params :: contract_liquidation_params where
  "strict_params = \<lparr>clp_CollateralAsset = 1, clp_DebtAsset = 2, clp_UserAddress = 3, clp_DebtToCover = 2500,
     clp_MinProfitAmount = 0, clp_PoolFee = 3000\<rparr>"

definition strict_tx_env :: tx_env where
  "strict_tx_env = toy_tx_env\<lparr>te_HexToAddress := \<lambda>s. if s = ''c'' then 1 else if s = ''d'' then 2 else 3,
     packArbitrage := \<lambda>p. if p = strict_params then Some [1, 2, 3] else None\<rparr>"

theorem broadcast_is_simulated_recipe_witness:
  "\<exists>tx r' i url g. SendLiquidation strict_tx_env False toy_executor toy_recipe toy_client = (None, Some tx, r') \<and>
     packArbitrage strict_tx_env strict_params = Some [1, 2, 3] \<and> 1 \<le> i \<and> i \<le> (3 :: nat) \<and>
     EstimateGas (node_at strict_tx_env i url) False \<lparr>msg_From = 12, msg_To = 11, msg_Value = 0, msg_Data = [1, 2, 3]\<rparr> = Inr g \<and>
     SendTransaction (node_at strict_tx_env i url) False tx"
proof -
  obtain tx r' where s: "SendLiquidation strict_tx_env False toy_executor toy_recipe toy_client = (None, Some tx, r')"
  proof -
    have "case SendLiquidation strict_tx_env False toy_executor toy_recipe toy_client of
      (e, t, r) \<Rightarrow> Option.is_none e \<and> \<not> Option.is_none t" by code_simp
    then show ?thesis using that by (auto simp: Option.is_none_def split: prod.splits)
  qed
  have f: "GetOptimalFee (te_feeCache toy_executor) ''c'' ''d'' = None" by code_simp
  have p: "\<lparr>clp_CollateralAsset = te_HexToAddress strict_tx_env (CollateralAsset toy_recipe),
       clp_DebtAsset = te_HexToAddress strict_tx_env (DebtAsset toy_recipe),
       clp_UserAddress = te_HexToAddress strict_tx_env (lr_UserAddress toy_recipe),
       clp_DebtToCover = DebtToCover toy_recipe, clp_MinProfitAmount = 0,
       clp_PoolFee = (case GetOptimalFee (te_feeCache toy_executor) (CollateralAsset toy_recipe) (DebtAsset toy_recipe) of
         None \<Rightarrow> 3000 | Some fee \<Rightarrow> fee)\<rparr> = strict_params"
    using f by (simp add: strict_tx_env_def toy_recipe_def strict_params_def)
  have c: "packArbitrage strict_tx_env strict_params = Some [1, 2, 3]" by (simp add: strict_tx_env_def)
  have ex: "te_walletAddr toy_executor = 12" "te_contract toy_executor = 11" by (simp_all add: toy_executor_def)
  show ?thesis using broadcast_is_simulated_recipe [OF s, unfolded p ex] s c by fastforce
qed

lemma send_loop_done:
  assumes "\<And>i url msg. \<exists>e. EstimateGas (node_at env i url) True msg = Inl e \<and> \<not> is_revert e"
  shows "\<exists>r'. send_loop env True ex calldata k i r = (None, r')"
proof -
  have a: "send_attempt env True ex calldata (node_at env i url) = NextNode" for i url
    using assms [of i url "arbitrage_msg ex calldata"] by (auto simp: send_attempt_def)
  show ?thesis by (induction k arbitrary: i r) (simp_all add: a split: prod.split)
qed

text \<open>
  with a context that is already done nothing is ever broadcast. If, as the HTTP client of Go
  does, every node call with a finished context fails with an error that does not mention a revert,
  the function uses up its retries and returns an error, whatever the recipe is worth.
\<close>

theorem finished_context_never_sends:
  assumes "\<And>i url msg. \<exists>e. EstimateGas (node_at env i url) True msg = Inl e \<and> \<not> is_revert e"
    and "packArbitrage env (liquidation_params env ex recipe) = Some calldata"
  shows "fst (SendLiquidation env True ex recipe r) = Some RetriesExhausted \<and>
    fst (snd (SendLiquidation env True ex recipe r)) = None"
  using assms(2) send_loop_done [OF assms(1), of ex calldata maxRPCRetries 1 r]
  by (auto simp: SendLiquidation_def)

theorem finished_context_never_sends_witness:
  "fst (SendLiquidation toy_tx_env True toy_executor toy_recipe toy_client) = Some RetriesExhausted \<and>
   fst (snd (SendLiquidation toy_tx_env True toy_executor toy_recipe toy_client)) = None"
proof (rule finished_context_never_sends)
  have "\<not> is_revert ''context canceled''" by code_simp
  then show "\<exists>e. EstimateGas (node_at toy_tx_env i url) True msg = Inl e \<and> \<not> is_revert e" for i url msg
    by (simp add: toy_tx_env_def toy_node_def)
  show "packArbitrage toy_tx_env (liquidation_params toy_tx_env toy_executor toy_recipe) = Some [1, 2, 3]"
    by (simp add: toy_tx_env_def)
qed

end
