(* ===== verification/RiskEngine.thy ===== *)
theory RiskEngine
  imports RiskBook TxExecutor
begin

text \<open>
  The rest of \<open>internal/engine/risk_engine.go\<close>: the bounded task queue, the watchdog, the lazy
  loading of the E-Mode and the body of a worker. The methods of the RPC client that a worker
  calls are fields of a record; \<open>time.Now().Unix()\<close> is an argument. A task of a worker
  is one atomic step here; Worker cuts it where the code releases the store's lock.
\<close>

section \<open>The task queue\<close>

definition taskQueueSize :: nat where "taskQueueSize = 50000"

text \<open>\<open>select\<close> with a \<open>default\<close>: a full channel drops the user.\<close>

definition Enqueue :: "string \<Rightarrow> string list \<Rightarrow> string list" where
  "Enqueue userAddr taskQueue =
     (if length taskQueue < taskQueueSize then taskQueue @ [userAddr] else taskQueue)"

definition EnqueueByAsset :: "string list \<Rightarrow> state_store \<Rightarrow> string \<Rightarrow> string list \<Rightarrow> string list" where
  "EnqueueByAsset ord s asset taskQueue = fold Enqueue (GetSubscribers ord s asset) taskQueue"

section \<open>The watchdog\<close>

definition watchdogHFThreshold :: int where "watchdogHFThreshold = 102"

definition watchdog_targets :: "int \<Rightarrow> state_store \<Rightarrow> string list" where
  "watchdog_targets now s =
     (let threshold = big_Div (watchdogHFThreshold * WAD) 100; h = riskHeap s in
      map (\<lambda>p. ri_UserAddress (rh_mem h p))
        (filter (\<lambda>p. HealthFactor (rh_mem h p) \<le> threshold \<and> now \<ge> NextCheckAt (rh_mem h p)) (rh_items h)))"

definition watchdog_tick :: "int \<Rightarrow> state_store \<Rightarrow> string list \<Rightarrow> string list" where
  "watchdog_tick now s taskQueue = fold Enqueue (watchdog_targets now s) taskQueue"

section \<open>Computing a health factor with the E-Mode loaded on demand\<close>

definition minDebtThreshold :: int where "minDebtThreshold = 100000000"
definition sanityCheckTolerance :: int where "sanityCheckTolerance = 1000"
definition liquidationCooldown :: int where "liquidationCooldown = 10"
definition noProfitCooldown :: int where "noProfitCooldown = 60"

text \<open>The RPC methods a worker uses: \<open>None\<close> is a returned error, \<open>Inl\<close> a panic.\<close>

record chain_env =
  FetchUserEMode_at :: "string \<Rightarrow> u8 option outcome"
  FetchEModeCategory_at :: "u8 \<Rightarrow> emode_category option outcome"
  FetchUserPosition_at :: "state_store \<Rightarrow> string \<Rightarrow> u64 \<Rightarrow> (user_account_data \<times> user_position) option outcome"

definition put_position :: "string \<Rightarrow> user_position \<Rightarrow> state_store \<Rightarrow> state_store" where
  "put_position userAddr p s = s\<lparr>userPositions := (userPositions s)(userAddr \<mapsto> p)\<rparr>"

definition put_category :: "u8 \<Rightarrow> emode_category \<Rightarrow> state_store \<Rightarrow> state_store" where
  "put_category catId cat s = s\<lparr>eModeCategories := (eModeCategories s)(catId \<mapsto> cat)\<rparr>"

text \<open>A category the store does not know is fetched first; \<open>None\<close> abandons the round.\<close>

definition load_category :: "chain_env \<Rightarrow> u8 \<Rightarrow> state_store \<Rightarrow> state_store option outcome" where
  "load_category env catId s =
     (if catId > 0 \<and> eModeCategories s catId = None then
        bind_outcome (FetchEModeCategory_at env catId)
          (\<lambda>r. Inr (map_option (\<lambda>catConfig. put_category catId catConfig s) r))
      else Inr (Some s))"

definition set_position_emode :: "string \<Rightarrow> u8 \<Rightarrow> state_store \<Rightarrow> state_store" where
  "set_position_emode userAddr catId s =
     (case userPositions s userAddr of None \<Rightarrow> s
      | Some user \<Rightarrow> put_position userAddr (user\<lparr>EModeCategoryId := catId, EModeFetched := True\<rparr>) s)"

definition calculateHF ::
    "string list \<Rightarrow> string list \<Rightarrow> chain_env \<Rightarrow> state_store \<Rightarrow> string \<Rightarrow> (risk_snapshot option \<times> state_store) outcome" where
  "calculateHF ord ord' env s userAddr =
     (case userPositions s userAddr of
        None \<Rightarrow> Inr (None, s)
      | Some user \<Rightarrow>
      case computeHFMath ord s userAddr (EModeFetched user) (EModeCategoryId user) of
        None \<Rightarrow> Inr (None, s)
      | Some snapshot \<Rightarrow>
          if TotalDebtBase snapshot < minDebtThreshold then Inr (Some snapshot, s)
          else if \<not> EModeFetched user \<and> snap_HealthFactor snapshot < HFSafetyThreshold then
            bind_outcome (FetchUserEMode_at env userAddr) (\<lambda>r.
              case r of
                None \<Rightarrow> Inr (None, s)
              | Some catId \<Rightarrow>
                  bind_outcome (load_category env catId s) (\<lambda>l.
                    case l of
                      None \<Rightarrow> Inr (None, s)
                    | Some s1 \<Rightarrow>
                        let s2 = set_position_emode userAddr catId s1 in
                        Inr (computeHFMath ord' s2 userAddr True catId, s2)))
          else Inr (Some snapshot, s))"

section \<open>A worker\<close>

text \<open>The effect of a liquidation attempt on the book: the returned error decides.\<close>

definition fakeSafeHF :: int where "fakeSafeHF = 10 ^ 20"

text \<open>
  After the chain confirmed that the user is liquidatable. \<open>ctxDone\<close> is whether the context handed to
  \<open>SendLiquidation\<close> is finished. The result also lists what was broadcast.
\<close>

definition liquidate ::
    "string list \<Rightarrow> tx_env \<Rightarrow> tx_executor \<Rightarrow> bool \<Rightarrow> int \<Rightarrow> string \<Rightarrow> user_account_data \<Rightarrow> user_position \<Rightarrow>
     state_store \<Rightarrow> rpc_client \<Rightarrow> (state_store \<times> signed_tx list \<times> rpc_client) outcome" where
  "liquidate ord txenv ex ctxDone now userAddr acct positionChain s r =
     (let hf = acct_HealthFactor acct;
          cool = (\<lambda>seconds sent r'. bind_outcome
            (updateHeap userAddr (Some hf) (set_next_check userAddr (now + seconds) s)) (\<lambda>s'. Inr (s', sent, r')))
      in bind_outcome (CalculateOptimalRecipe ord s userAddr positionChain hf) (\<lambda>recipe.
        case recipe of
          None \<Rightarrow> cool noProfitCooldown [] r
        | Some rec \<Rightarrow>
            if ExpectedProfitUSD rec > 0 then
              (case SendLiquidation txenv ctxDone ex rec r of
                 (Some e, tx, r') \<Rightarrow> cool liquidationCooldown (case tx of None \<Rightarrow> [] | Some t \<Rightarrow> [t]) r'
               | (None, tx, r') \<Rightarrow>
                   bind_outcome (updateHeap userAddr (Some fakeSafeHF) s)
                     (\<lambda>s'. Inr (s', case tx of None \<Rightarrow> [] | Some t \<Rightarrow> [t], r')))
            else cool noProfitCooldown [] r))"

text \<open>
  One task. \<open>cancel()\<close> runs right after the on-chain verification, so the context passed on to
  \<open>SendLiquidation\<close> is done. The difference between the two health factors only selects a log line.
\<close>

definition worker_step ::
    "(nat \<Rightarrow> string list) \<Rightarrow> chain_env \<Rightarrow> tx_env \<Rightarrow> tx_executor \<Rightarrow> int \<Rightarrow> string \<Rightarrow> state_store \<Rightarrow> rpc_client \<Rightarrow>
     (state_store \<times> signed_tx list \<times> rpc_client) outcome" where
  "worker_step ords env txenv ex now userAddr s r =
     bind_outcome (calculateHF (ords 0) (ords 1) env s userAddr) (\<lambda>(snapshot, s1).
       let update = (\<lambda>hf st. bind_outcome (updateHeap userAddr hf st) (\<lambda>s'. Inr (s', [], r))) in
       case snapshot of
         None \<Rightarrow> update None s1
       | Some snap \<Rightarrow>
           if TotalDebtBase snap < minDebtThreshold then update None s1
           else if snap_HealthFactor snap < HFLiquidationThreshold then
             bind_outcome (FetchUserPosition_at env s1 userAddr (CalculatedAtBlock snap)) (\<lambda>verified.
               case verified of
                 None \<Rightarrow> Inr (s1, [], r)
               | Some (acctDataChain, positionChain) \<Rightarrow>
                   if acct_HealthFactor acctDataChain < HFLiquidationThreshold
                   then liquidate (ords 2) txenv ex True now userAddr acctDataChain positionChain
                          (put_position userAddr positionChain s1) r
                   else update (Some (acct_HealthFactor acctDataChain)) (put_position userAddr positionChain s1))
           else update (Some (snap_HealthFactor snap)) s1)"

section \<open>The queue in closed form\<close>

lemma fold_Enqueue:
  assumes "length q \<le> taskQueueSize"
  shows "fold Enqueue us q = q @ take (taskQueueSize - length q) us"
  using assms
proof (induction us arbitrary: q)
  case (Cons u us)
  show ?case
  proof (cases "length q < taskQueueSize")
    case True
    then have "taskQueueSize - length q = Suc (taskQueueSize - length (q @ [u]))" by simp
    then show ?thesis using True Cons.IH [of "q @ [u]"] by (simp add: Enqueue_def)
  next
    case False
    then have "length q = taskQueueSize" using Cons.prems by simp
    then show ?thesis using Cons.IH [of q] by (simp add: Enqueue_def)
  qed
qed simp

text \<open>
  the task queue keeps its order and its bound and drops exactly the overflow: enqueueing a batch
  appends as many of its users, in order, as the 50000 places allow.
\<close>

theorem enqueue_batch:
  assumes "length q \<le> 50000"
  shows "EnqueueByAsset ord s asset q = q @ take (50000 - length q) (GetSubscribers ord s asset) \<and>
    length (EnqueueByAsset ord s asset q) \<le> 50000"
  using fold_Enqueue [of q "GetSubscribers ord s asset"] assms
  by (simp add: EnqueueByAsset_def taskQueueSize_def)

theorem enqueue_batch_witness:
  "EnqueueByAsset [''u''] (GetUserReserve ''u'' ''a'' NewStateStore) ''a'' [''v''] = [''v'', ''u'']"
proof -
  have "GetSubscribers [''u''] (GetUserReserve ''u'' ''a'' NewStateStore) ''a'' = [''u'']" by code_simp
  then show ?thesis
    using enqueue_batch [of "[''v'']" "[''u'']" "GetUserReserve ''u'' ''a'' NewStateStore" "''a''"] by simp
qed

section \<open>The watchdog finds the right users\<close>

lemma book_of_Some:
  assumes "heap_book s"
  shows "book_of s u = Some (hf, t) \<longleftrightarrow> (\<exists>p \<in> set (rh_items (riskHeap s)).
    ri_UserAddress (rh_mem (riskHeap s) p) = u \<and> HealthFactor (rh_mem (riskHeap s) p) = hf \<and>
    NextCheckAt (rh_mem (riskHeap s) p) = t)"
proof
  assume "book_of s u = Some (hf, t)"
  then show "\<exists>p \<in> set (rh_items (riskHeap s)). ri_UserAddress (rh_mem (riskHeap s) p) = u \<and>
      HealthFactor (rh_mem (riskHeap s) p) = hf \<and> NextCheckAt (rh_mem (riskHeap s) p) = t"
    using heap_bookD(3) [OF assms, of u] by (auto simp: book_of_def)
next
  assume "\<exists>p \<in> set (rh_items (riskHeap s)). ri_UserAddress (rh_mem (riskHeap s) p) = u \<and>
      HealthFactor (rh_mem (riskHeap s) p) = hf \<and> NextCheckAt (rh_mem (riskHeap s) p) = t"
  then obtain p where p: "p \<in> set (rh_items (riskHeap s))" "ri_UserAddress (rh_mem (riskHeap s) p) = u"
    "HealthFactor (rh_mem (riskHeap s) p) = hf" "NextCheckAt (rh_mem (riskHeap s) p) = t" by blast
  then have "heapLookup s u = Some p" using heap_bookD(3) [OF assms] by blast
  then show "book_of s u = Some (hf, t)" using p by (simp add: book_of_def)
qed

text \<open>
  C33: the watchdog rechecks exactly the users at the edge. In a consistent book its targets are the
  tracked users whose health factor is at most 1.02 and whose cooldown has passed, each once.
\<close>

theorem watchdog_targets_exact:
  assumes "heap_book s"
  shows "set (watchdog_targets now s) =
      {u. \<exists>hf t. book_of s u = Some (hf, t) \<and> hf \<le> 1020000000000000000 \<and> t \<le> now} \<and>
    distinct (watchdog_targets now s)"
proof -
  have thr: "big_Div (watchdogHFThreshold * WAD) 100 = 1020000000000000000"
    by (simp add: watchdogHFThreshold_def WAD_def big_Div_pos)
  have d: "distinct (rh_items (riskHeap s))" using heap_bookD(1) [OF assms] by (simp add: rh_inv_def)
  have "inj_on (\<lambda>p. ri_UserAddress (rh_mem (riskHeap s) p)) (set (rh_items (riskHeap s)))"
    using heap_bookD(3) [OF assms] by (intro inj_onI) (metis option.inject)
  then have "distinct (watchdog_targets now s)"
    using d by (auto simp: watchdog_targets_def Let_def distinct_map intro: inj_on_subset)
  then show ?thesis
    by (auto simp: watchdog_targets_def Let_def thr book_of_Some [OF assms])
qed

lemma book_example:
  "\<exists>s. updateHeap ''u'' (Some 1010000000000000000) NewStateStore = Inr s \<and> heap_book s \<and>
     book_of s = [''u'' \<mapsto> (1010000000000000000, 0)]"
proof -
  show ?thesis
    using updateHeap_book [OF empty_heap_book, of "''u''" "Some 1010000000000000000"]
    by (simp add: empty_book_of book_update_def HFSafetyThreshold_def)
qed

theorem watchdog_targets_exact_witness:
  "\<exists>s. heap_book s \<and> set (watchdog_targets 5 s) = {''u''} \<and> distinct (watchdog_targets 5 s)"
proof -
  obtain s where s: "heap_book s" "book_of s = [''u'' \<mapsto> (1010000000000000000, 0)]" using book_example by blast
  show ?thesis using watchdog_targets_exact [OF s(1), of 5] s by (intro exI [of _ s]) (auto split: if_splits)
qed

section \<open>What a task does to the book\<close>

lemma book_frame:
  assumes "riskHeap t = riskHeap s" "heapLookup t = heapLookup s"
  shows "heap_book t = heap_book s" "book_of t = book_of s"
  using assms by (simp_all add: heap_book_def book_of_def fun_eq_iff)

lemma put_frame [simp]:
  "riskHeap (put_position u p s) = riskHeap s" "heapLookup (put_position u p s) = heapLookup s"
  "riskHeap (put_category c cat s) = riskHeap s" "heapLookup (put_category c cat s) = heapLookup s"
  "riskHeap (set_position_emode u c s) = riskHeap s" "heapLookup (set_position_emode u c s) = heapLookup s"
  by (simp_all add: put_position_def put_category_def set_position_emode_def split: option.split)

lemma put_book [simp]:
  "heap_book (put_position u p s) = heap_book s" "book_of (put_position u p s) = book_of s"
  by (simp_all add: book_frame [of "put_position u p s" s])

lemma load_category_frame:
  "load_category env c s = Inr (Some t) \<Longrightarrow> riskHeap t = riskHeap s \<and> heapLookup t = heapLookup s"
  by (auto simp: load_category_def bind_outcome_Inr_iff split: if_splits)

lemma calculateHF_frame:
  assumes "calculateHF ord ord' env s u = Inr (snap, t)"
  shows "riskHeap t = riskHeap s \<and> heapLookup t = heapLookup s"
  using assms load_category_frame [of env _ s]
  by (fastforce simp: calculateHF_def bind_outcome_Inr_iff Let_def split: option.splits if_splits)

lemma set_next_check_mem:
  assumes "heap_book s"
  shows "heap_book (set_next_check u t s)"
    and "book_of (set_next_check u t s) =
      (case book_of s u of None \<Rightarrow> book_of s | Some (hf, _) \<Rightarrow> (book_of s)(u \<mapsto> (hf, t)))"
proof -
  show "heap_book (set_next_check u t s)"
  proof (cases "heapLookup s u")
    case (Some p)
    let ?h = "(riskHeap s)\<lparr>rh_mem := (rh_mem (riskHeap s))(p := (rh_mem (riskHeap s) p)\<lparr>NextCheckAt := t\<rparr>)\<rparr>"
    have e: "set_next_check u t s = put_heap ?h s" using Some by (simp add: set_next_check_def Let_def)
    have hf: "hf_of ?h = hf_of (riskHeap s)" by (auto simp: hf_of_def)
    have inv: "rh_inv ?h" using heap_bookD(1) [OF assms] by (auto simp: rh_inv_def)
    show ?thesis
      unfolding e heap_book_def using inv heap_bookD(2-4) [OF assms] by (simp add: hf)
  qed (use assms in \<open>simp add: set_next_check_def\<close>)
  show "book_of (set_next_check u t s) =
      (case book_of s u of None \<Rightarrow> book_of s | Some (hf, _) \<Rightarrow> (book_of s)(u \<mapsto> (hf, t)))"
  proof (cases "heapLookup s u")
    case None
    then show ?thesis by (simp add: set_next_check_def book_of_def)
  next
    case (Some p)
    have "q = p \<longleftrightarrow> w = u" if "heapLookup s w = Some q" for q w
      using that Some heap_bookD(3) [OF assms] by (metis option.inject)
    then show ?thesis using Some
      by (auto simp: set_next_check_def Let_def book_of_def fun_eq_iff option.map_comp comp_def
          intro!: option.map_cong)
  qed
qed

text \<open>The book stays consistent and keeps the entries of the other users.\<close>

definition others_kept :: "string \<Rightarrow> state_store \<Rightarrow> state_store \<Rightarrow> bool" where
  "others_kept u s t \<longleftrightarrow> heap_book t \<and> (\<forall>v. v \<noteq> u \<longrightarrow> book_of t v = book_of s v)"

lemma others_kept_trans: "others_kept u s t \<Longrightarrow> others_kept u t w \<Longrightarrow> others_kept u s w"
  by (simp add: others_kept_def)

lemma others_kept_frame:
  "heap_book s \<Longrightarrow> riskHeap t = riskHeap s \<Longrightarrow> heapLookup t = heapLookup s \<Longrightarrow> others_kept u s t"
  by (simp add: others_kept_def book_frame [of t s])

lemma updateHeap_others: "heap_book s \<Longrightarrow> updateHeap u hf s = Inr t \<Longrightarrow> others_kept u s t"
  using updateHeap_book [of s u hf] by (auto simp: others_kept_def book_update_def split: option.splits if_splits)

lemma set_next_check_others: "heap_book s \<Longrightarrow> others_kept u s (set_next_check u t s)"
  using set_next_check_mem [of s u t] by (auto simp: others_kept_def split: option.splits)

lemma cool_others:
  assumes "heap_book s" "updateHeap u hf (set_next_check u x s) = Inr t"
  shows "others_kept u s t"
  using set_next_check_others [OF assms(1), of u x] updateHeap_others [OF _ assms(2)] others_kept_trans
  by (auto simp: others_kept_def)

text \<open>The three ways a verified liquidation ends.\<close>

lemma liquidate_cases:
  assumes "liquidate ord txenv ex ctxDone now u acct pos s r = Inr (t, sent, r')"
  obtains (no_profit) "sent = []" "r' = r"
      "updateHeap u (Some (acct_HealthFactor acct)) (set_next_check u (now + noProfitCooldown) s) = Inr t"
  | (failed) rec e tx where "CalculateOptimalRecipe ord s u pos (acct_HealthFactor acct) = Inr (Some rec)"
      "SendLiquidation txenv ctxDone ex rec r = (Some e, tx, r')" "sent = (case tx of None \<Rightarrow> [] | Some x \<Rightarrow> [x])"
      "updateHeap u (Some (acct_HealthFactor acct)) (set_next_check u (now + liquidationCooldown) s) = Inr t"
  | (sent) rec tx where "CalculateOptimalRecipe ord s u pos (acct_HealthFactor acct) = Inr (Some rec)"
      "SendLiquidation txenv ctxDone ex rec r = (None, tx, r')" "sent = (case tx of None \<Rightarrow> [] | Some x \<Rightarrow> [x])"
      "updateHeap u (Some fakeSafeHF) s = Inr t"
proof -
  obtain recipe where c: "CalculateOptimalRecipe ord s u pos (acct_HealthFactor acct) = Inr recipe"
    using assms by (auto simp: liquidate_def Let_def bind_outcome_Inr_iff)
  show ?thesis
  proof (cases "\<exists>rec. recipe = Some rec \<and> 0 < ExpectedProfitUSD rec")
    case False
    then show ?thesis using assms c no_profit
      by (cases recipe) (auto simp: liquidate_def Let_def bind_outcome_Inr_iff)
  next
    case True
    then obtain rec where rec: "recipe = Some rec" "0 < ExpectedProfitUSD rec" by blast
    obtain err tx r1 where l: "SendLiquidation txenv ctxDone ex rec r = (err, tx, r1)" by (metis prod_cases3)
    show ?thesis
    proof (cases err)
      case None
      then show ?thesis using assms c rec l sent by (auto simp: liquidate_def Let_def bind_outcome_Inr_iff)
    next
      case (Some e)
      then show ?thesis using assms c rec l failed by (auto simp: liquidate_def Let_def bind_outcome_Inr_iff)
    qed
  qed
qed

lemma liquidate_others:
  assumes "heap_book s" "liquidate ord txenv ex ctxDone now u acct pos s r = Inr (t, sent, r')"
  shows "others_kept u s t"
  using assms(2) by (cases rule: liquidate_cases)
    (use cool_others [OF assms(1)] updateHeap_others [OF assms(1)] in blast)+

text \<open>The ways a task ends.\<close>

lemma worker_step_cases:
  assumes "worker_step ords env txenv ex now u s r = Inr (t, sent, r')"
  obtains (update) snap s1 hf where "calculateHF (ords 0) (ords 1) env s u = Inr (snap, s1)"
      "updateHeap u hf s1 = Inr t" "sent = []" "r' = r"
  | (unverified) snap where "calculateHF (ords 0) (ords 1) env s u = Inr (snap, t)" "sent = []" "r' = r"
  | (safe) snap s1 pos hf where "calculateHF (ords 0) (ords 1) env s u = Inr (snap, s1)"
      "updateHeap u hf (put_position u pos s1) = Inr t" "sent = []" "r' = r"
  | (liquidated) snap s1 acct pos where "calculateHF (ords 0) (ords 1) env s u = Inr (Some snap, s1)"
      "FetchUserPosition_at env s1 u (CalculatedAtBlock snap) = Inr (Some (acct, pos))"
      "acct_HealthFactor acct < HFLiquidationThreshold"
      "liquidate (ords 2) txenv ex True now u acct pos (put_position u pos s1) r = Inr (t, sent, r')"
proof -
  obtain snap s1 where c: "calculateHF (ords 0) (ords 1) env s u = Inr (snap, s1)"
    using assms by (auto simp: worker_step_def bind_outcome_Inr_iff)
  show ?thesis
  proof (cases "\<exists>sn. snap = Some sn \<and> \<not> TotalDebtBase sn < minDebtThreshold \<and>
      snap_HealthFactor sn < HFLiquidationThreshold")
    case False
    then show ?thesis using assms c update
      by (cases snap) (auto simp: worker_step_def bind_outcome_Inr_iff Let_def split: if_splits)
  next
    case True
    then obtain sn where sn: "snap = Some sn" "\<not> TotalDebtBase sn < minDebtThreshold"
      "snap_HealthFactor sn < HFLiquidationThreshold" by blast
    obtain v where v: "FetchUserPosition_at env s1 u (CalculatedAtBlock sn) = Inr v"
      using assms c sn by (auto simp: worker_step_def bind_outcome_Inr_iff Let_def)
    show ?thesis
    proof (cases v)
      case None
      then show ?thesis using assms c sn v unverified by (simp add: worker_step_def Let_def)
    next
      case (Some ap)
      obtain acct pos where ap: "ap = (acct, pos)" by fastforce
      show ?thesis
      proof (cases "acct_HealthFactor acct < HFLiquidationThreshold")
        case True
        then show ?thesis using assms c sn v Some ap liquidated [of sn s1 acct pos]
          by (simp add: worker_step_def Let_def)
      next
        case False
        then show ?thesis using assms c sn v Some ap safe [of snap s1 "Some (acct_HealthFactor acct)" pos]
          by (auto simp: worker_step_def Let_def bind_outcome_Inr_iff)
      qed
    qed
  qed
qed

lemma worker_step_others:
  assumes book: "heap_book s" and step: "worker_step ords env txenv ex now u s r = Inr (t, sent, r')"
  shows "others_kept u s t"
proof -
  have k: "others_kept u s s1 \<and> heap_book s1" if "calculateHF (ords 0) (ords 1) env s u = Inr (snap, s1)" for snap s1
  proof -
    have "others_kept u s s1" using others_kept_frame [OF book] calculateHF_frame [OF that] by blast
    then show ?thesis by (simp add: others_kept_def)
  qed
  have p: "others_kept u s1 (put_position u q s1) \<and> heap_book (put_position u q s1)" if "heap_book s1" for q s1
    using that by (simp add: others_kept_def)
  from step show ?thesis
  proof (cases rule: worker_step_cases)
    case (update snap s1 hf)
    then show ?thesis using k updateHeap_others others_kept_trans by blast
  next
    case (unverified snap)
    then show ?thesis using k by blast
  next
    case (safe snap s1 pos hf)
    have "others_kept u (put_position u pos s1) t" using updateHeap_others [OF _ safe(2)] k [OF safe(1)] by simp
    then show ?thesis using k [OF safe(1)] p others_kept_trans by blast
  next
    case (liquidated snap s1 acct pos)
    have "others_kept u (put_position u pos s1) t"
      using liquidate_others [OF _ liquidated(4)] k [OF liquidated(1)] by simp
    then show ?thesis using k [OF liquidated(1)] p others_kept_trans by blast
  qed
qed

section \<open>Properties of the worker\<close>

text \<open>
  C18: a task leaves a consistent book behind and touches nobody else. Whatever the chain answers, a
  worker that finishes a task for a user keeps the heap ordered and in step with the lookup table,
  and every other user keeps health factor and cooldown.
\<close>

theorem worker_keeps_book:
  assumes "heap_book s" and "worker_step ords env txenv ex now u s r = Inr (t, sent, r')"
  shows "heap_book t \<and> (\<forall>v. v \<noteq> u \<longrightarrow> book_of t v = book_of s v)"
  using worker_step_others [OF assms] by (simp add: others_kept_def)

text \<open>The chain of the examples: it answers with the health factor \<open>hf\<close> and an empty position.\<close>

definition toy_chain_env :: "int \<Rightarrow> chain_env" where
  "toy_chain_env hf = \<lparr>FetchUserEMode_at = (\<lambda>u. Inr (Some 0)), FetchEModeCategory_at = (\<lambda>c. Inr None),
     FetchUserPosition_at = (\<lambda>s u b. Inr (Some (\<lparr>acct_TotalCollateralBase = 0, acct_TotalDebtBase = 0,
       acct_HealthFactor = hf\<rparr>, new_position u)))\<rparr>"

lemma toy_worker:
  "\<exists>t r'. worker_step (\<lambda>i. if i = 2 then [] else [''a'']) (toy_chain_env 900000000000000000) toy_tx_env toy_executor 100
     ''u'' (toy_store 1000000000 900000000) toy_client = Inr (t, [], r') \<and>
     book_of t ''u'' = Some (900000000000000000, 0)"
proof -
  let ?w = "worker_step (\<lambda>i. if i = 2 then [] else [''a'']) (toy_chain_env 900000000000000000) toy_tx_env toy_executor 100
     ''u'' (toy_store 1000000000 900000000) toy_client"
  have "(case ?w of Inl e \<Rightarrow> None | Inr (t, sent, r') \<Rightarrow> if sent = [] then book_of t ''u'' else None) =
      Some (900000000000000000, 0)"
    by code_simp
  then show ?thesis by (auto split: sum.splits prod.splits if_splits)
qed

lemma toy_store_book: "heap_book (toy_store x y)"
  using empty_heap_book book_frame(1) [of "toy_store x y" NewStateStore] by (simp add: toy_store_def)

theorem worker_keeps_book_witness:
  "\<exists>t r'. worker_step (\<lambda>i. if i = 2 then [] else [''a'']) (toy_chain_env 900000000000000000) toy_tx_env toy_executor 100
     ''u'' (toy_store 1000000000 900000000) toy_client = Inr (t, [], r') \<and> heap_book t"
  using toy_worker worker_keeps_book [OF toy_store_book] by blast

lemma worker_sends_nothing:
  assumes "\<And>i url msg. \<exists>e. EstimateGas (node_at txenv i url) True msg = Inl e \<and> \<not> is_revert e"
    and "worker_step ords env txenv ex now u s r = Inr (t, sent, r')"
  shows "sent = []"
proof -
  have n: "fst (snd (SendLiquidation txenv True ex rec r)) = None" for rec
  proof (cases "packArbitrage txenv (liquidation_params txenv ex rec)")
    case (Some calldata)
    then show ?thesis using send_loop_done [OF assms(1), of ex calldata maxRPCRetries 1 r]
      by (auto simp: SendLiquidation_def)
  qed (simp add: SendLiquidation_def)
  have n: "tx = None" if "SendLiquidation txenv True ex rec r = (e, tx, r')" for rec e tx r'
    using n [of rec] that by simp
  from assms(2) show ?thesis
  proof (cases rule: worker_step_cases)
    case (liquidated snap s1 acct pos)
    from liquidated(4) show ?thesis by (cases rule: liquidate_cases) (auto dest: n)
  qed simp_all
qed

text \<open>
  the worker never broadcasts a liquidation. It cancels the context of the on-chain verification
  before it passes this very context on to the executor; if, as documented for Go's HTTP client, every
  node call with a finished context fails (and not with a revert), no task ever sends a transaction.
\<close>

theorem worker_never_broadcasts:
  assumes "\<And>i url msg. \<exists>e. EstimateGas (node_at txenv i url) True msg = Inl e \<and> \<not> is_revert e"
    and "worker_step ords env txenv ex now u s r = Inr (t, sent, r')"
  shows "sent = []"
  using worker_sends_nothing assms by blast

theorem worker_never_broadcasts_witness:
  "\<exists>t sent r'. worker_step (\<lambda>i. if i = 2 then [] else [''a'']) (toy_chain_env 900000000000000000) toy_tx_env toy_executor 100
     ''u'' (toy_store 1000000000 900000000) toy_client = Inr (t, sent, r') \<and> sent = []"
proof -
  have "\<not> is_revert ''context canceled''" by code_simp
  then have e: "\<exists>e. EstimateGas (node_at toy_tx_env i url) True msg = Inl e \<and> \<not> is_revert e" for i url msg
    by (simp add: toy_tx_env_def toy_node_def)
  obtain t r' where w: "worker_step (\<lambda>i. if i = 2 then [] else [''a'']) (toy_chain_env 900000000000000000) toy_tx_env
    toy_executor 100 ''u'' (toy_store 1000000000 900000000) toy_client = Inr (t, [], r')" using toy_worker by blast
  from worker_never_broadcasts [OF e w] w show ?thesis by blast
qed

text \<open>
  after a liquidation attempt that found no profit, a user that was already tracked is left alone
  for 60 seconds, but one that only now enters the book gets no cooldown at all: the time is written
  before the entry exists, so the next watchdog tick enqueues the user again.
\<close>

theorem no_profit_cooldown:
  assumes "heap_book s" and "acct_HealthFactor acct < HFSafetyThreshold"
    and "CalculateOptimalRecipe ord s u pos (acct_HealthFactor acct) = Inr None"
  shows "\<exists>t. liquidate ord txenv ex ctxDone now u acct pos s r = Inr (t, [], r) \<and>
    book_of t u = Some (acct_HealthFactor acct, if book_of s u = None then 0 else now + 60)"
proof -
  let ?s = "set_next_check u (now + noProfitCooldown) s"
  obtain t where t: "updateHeap u (Some (acct_HealthFactor acct)) ?s = Inr t"
    "book_of t = book_update u (Some (acct_HealthFactor acct)) (book_of ?s)"
    using updateHeap_book [OF set_next_check_mem(1) [OF assms(1)]] by blast
  have "liquidate ord txenv ex ctxDone now u acct pos s r = Inr (t, [], r)"
    using assms(3) t(1) by (simp add: liquidate_def Let_def)
  moreover have "book_of t u = Some (acct_HealthFactor acct, if book_of s u = None then 0 else now + 60)"
    using assms(2) unfolding t(2) set_next_check_mem(2) [OF assms(1)]
    by (auto simp: book_update_def noProfitCooldown_def split: option.splits)
  ultimately show ?thesis by blast
qed

theorem no_profit_cooldown_witness:
  "\<exists>t. liquidate [] toy_tx_env toy_executor True 100 ''u''
      \<lparr>acct_TotalCollateralBase = 0, acct_TotalDebtBase = 0, acct_HealthFactor = 5\<rparr> (new_position ''u'')
      NewStateStore toy_client = Inr (t, [], toy_client) \<and> book_of t ''u'' = Some (5, 0)"
proof -
  let ?a = "\<lparr>acct_TotalCollateralBase = 0, acct_TotalDebtBase = 0, acct_HealthFactor = 5\<rparr>"
  have c: "CalculateOptimalRecipe [] NewStateStore ''u'' (new_position ''u'') (acct_HealthFactor ?a) = Inr None"
    by code_simp
  have h: "acct_HealthFactor ?a < HFSafetyThreshold" by (simp add: HFSafetyThreshold_def)
  have n: "book_of NewStateStore ''u'' = None" by (simp add: book_of_def NewStateStore_def)
  show ?thesis
    using no_profit_cooldown [OF empty_heap_book h c, of toy_tx_env toy_executor True 100 toy_client] n by simp
qed

lemma set_position_emode_user [simp]:
  "userPositions s u = Some p \<Longrightarrow>
   userPositions (set_position_emode u c s) u = Some (p\<lparr>EModeCategoryId := c, EModeFetched := True\<rparr>)"
  by (simp add: set_position_emode_def put_position_def)

lemma load_category_user: "load_category env c s = Inr (Some t) \<Longrightarrow> userPositions t = userPositions s"
  by (auto simp: load_category_def bind_outcome_Inr_iff put_category_def split: if_splits)

text \<open>The two ways \<open>calculateHF\<close> returns a snapshot.\<close>

lemma calculateHF_Some:
  assumes "calculateHF ord ord' env s u = Inr (Some snap, t)"
  obtains (direct) p where "userPositions s u = Some p" "t = s"
      "computeHFMath ord s u (EModeFetched p) (EModeCategoryId p) = Some snap"
      "TotalDebtBase snap < minDebtThreshold \<or> EModeFetched p \<or> HFSafetyThreshold \<le> snap_HealthFactor snap"
  | (loaded) p catId s1 where "userPositions s u = Some p" "FetchUserEMode_at env u = Inr (Some catId)"
      "load_category env catId s = Inr (Some s1)" "t = set_position_emode u catId s1"
      "computeHFMath ord' t u True catId = Some snap"
proof -
  obtain p where p: "userPositions s u = Some p" using assms by (auto simp: calculateHF_def split: option.splits)
  obtain sn where sn: "computeHFMath ord s u (EModeFetched p) (EModeCategoryId p) = Some sn"
    using assms p by (auto simp: calculateHF_def split: option.splits)
  show ?thesis
  proof (cases "\<not> TotalDebtBase sn < minDebtThreshold \<and> \<not> EModeFetched p \<and> snap_HealthFactor sn < HFSafetyThreshold")
    case False
    then show ?thesis using assms p sn direct [of p] by (auto simp: calculateHF_def split: if_splits)
  next
    case True
    then show ?thesis using assms p sn loaded
      by (auto simp: calculateHF_def bind_outcome_Inr_iff Let_def split: option.splits)
  qed
qed

lemma computeHFMath_spec:
  "userPositions s u = Some p \<Longrightarrow> enumerates ord (dom (Reserves p)) \<Longrightarrow> computeHFMath ord s u f c = hf_spec s p f c"
  by (simp add: computeHFMath_closed hf_spec_def)

text \<open>
  C32: no user is judged without the E-Mode. A snapshot with a debt worth tracking and a health factor
  below the safety threshold comes from a state where the user's E-Mode is known, and it is the
  specified health factor of the position stored there.
\<close>

theorem calculateHF_uses_emode:
  assumes "calculateHF ord ord' env s u = Inr (Some snap, t)"
    and "userPositions s u = Some p" and "enumerates ord (dom (Reserves p))" and "enumerates ord' (dom (Reserves p))"
    and "100000000 \<le> TotalDebtBase snap" and "snap_HealthFactor snap < HFSafetyThreshold"
  shows "\<exists>q. userPositions t u = Some q \<and> Reserves q = Reserves p \<and> EModeFetched q \<and>
    hf_spec t q True (EModeCategoryId q) = Some snap"
  using assms(1)
proof (cases rule: calculateHF_Some)
  case (direct p')
  then have p: "p' = p" "EModeFetched p" using assms(2,5,6) by (auto simp: minDebtThreshold_def)
  have "hf_spec s p True (EModeCategoryId p) = Some snap"
    using direct(3) computeHFMath_spec [OF assms(2,3)] p by simp
  then show ?thesis using direct(2) assms(2) p by blast
next
  case (loaded p' catId s1)
  let ?q = "p\<lparr>EModeCategoryId := catId, EModeFetched := True\<rparr>"
  have u: "userPositions s1 u = Some p" using load_category_user [OF loaded(3)] assms(2) by simp
  then have q: "userPositions t u = Some ?q" using loaded(4) by simp
  have "enumerates ord' (dom (Reserves ?q))" using assms(4) by simp
  then have "hf_spec t ?q True catId = Some snap"
    using computeHFMath_spec [OF q, of ord' True catId] loaded(5) by simp
  then show ?thesis using q by (intro exI [of _ ?q]) simp
qed

theorem calculateHF_uses_emode_witness:
  "\<exists>snap q. calculateHF [''a''] [''a''] (toy_chain_env 0) (toy_store 1000000000 900000000) ''u'' =
      Inr (Some snap, toy_store 1000000000 900000000) \<and>
     userPositions (toy_store 1000000000 900000000) ''u'' = Some q \<and> EModeFetched q \<and>
     hf_spec (toy_store 1000000000 900000000) q True (EModeCategoryId q) = Some snap"
proof -
  let ?s = "toy_store 1000000000 900000000" and ?p = "toy_position 1000000000 900000000"
  let ?snap = "\<lparr>snap_HealthFactor = 888888888888888888, RawCollateralBase = 2000000000,
    TotalCollateralBase = 16000000000000, TotalDebtBase = 1800000000, CalculatedAtBlock = 0\<rparr>"
  have f: "EModeFetched ?p" "EModeCategoryId ?p = 0" by (simp_all add: toy_position_def)
  have m: "computeHFMath [''a''] ?s ''u'' True 0 = Some ?snap"
    using toy_hf [of 1000000000 900000000]
    by (simp add: computeHFMath_spec [OF toy_user toy_enum] WAD_def)
  have c: "calculateHF [''a''] [''a''] (toy_chain_env 0) ?s ''u'' = Inr (Some ?snap, ?s)"
    by (simp add: calculateHF_def m f)
  have "\<exists>q. userPositions ?s ''u'' = Some q \<and> Reserves q = Reserves ?p \<and> EModeFetched q \<and>
      hf_spec ?s q True (EModeCategoryId q) = Some ?snap"
    by (rule calculateHF_uses_emode [OF c toy_user toy_enum toy_enum]) (simp_all add: HFSafetyThreshold_def)
  then show ?thesis using c by blast
qed

text \<open>
  a user that needs no liquidation is filed by its health factor. When the local health factor is
  at least 1, the task ends without a chain call, and afterwards the user is in the book with this
  factor (keeping its cooldown) if it is below 1.05 and the debt is at least one dollar, and out of
  the book otherwise.
\<close>

theorem worker_files_healthy_user:
  assumes "heap_book s" and "calculateHF (ords 0) (ords 1) env s u = Inr (Some snap, s1)"
    and "1000000000000000000 \<le> snap_HealthFactor snap"
  shows "\<exists>t. worker_step ords env txenv ex now u s r = Inr (t, [], r) \<and> heap_book t \<and>
    book_of t u =
      (if 100000000 \<le> TotalDebtBase snap \<and> snap_HealthFactor snap < 1050000000000000000
       then Some (snap_HealthFactor snap, case book_of s u of None \<Rightarrow> 0 | Some (_, c) \<Rightarrow> c) else None)"
proof -
  have f: "heap_book s1" "book_of s1 = book_of s"
    using book_frame [of s1 s] calculateHF_frame [OF assms(2)] assms(1) by auto
  let ?hf = "if TotalDebtBase snap < minDebtThreshold then None else Some (snap_HealthFactor snap)"
  obtain t where t: "updateHeap u ?hf s1 = Inr t" "heap_book t" "book_of t = book_update u ?hf (book_of s1)"
    using updateHeap_book [OF f(1)] by blast
  have "worker_step ords env txenv ex now u s r = Inr (t, [], r)"
    using t(1) assms(2,3) by (auto simp: worker_step_def Let_def HFLiquidationThreshold_def WAD_def split: if_splits)
  then show ?thesis using t(2,3) f(2)
    by (auto simp: book_update_def minDebtThreshold_def HFSafetyThreshold_def)
qed

theorem worker_files_healthy_user_witness:
  "\<exists>t. worker_step (\<lambda>i. [''a'']) (toy_chain_env 0) toy_tx_env toy_executor 100 ''u''
      (toy_store 1000000000 780000000) toy_client = Inr (t, [], toy_client) \<and> heap_book t \<and>
     book_of t ''u'' = Some (1025641025641025641, 0)"
proof -
  let ?s = "toy_store 1000000000 780000000"
  let ?snap = "\<lparr>snap_HealthFactor = 1025641025641025641, RawCollateralBase = 2000000000,
    TotalCollateralBase = 16000000000000, TotalDebtBase = 1560000000, CalculatedAtBlock = 0\<rparr>"
  have m: "computeHFMath [''a''] ?s ''u'' True 0 = Some ?snap"
    using toy_hf [of 1000000000 780000000]
    by (simp add: computeHFMath_spec [OF toy_user toy_enum] WAD_def)
  have c: "calculateHF ((\<lambda>i. [''a'']) (0 :: nat)) ((\<lambda>i. [''a'']) (1 :: nat)) (toy_chain_env 0) ?s ''u'' = Inr (Some ?snap, ?s)"
    by (simp add: calculateHF_def m toy_position_def)
  have n: "book_of ?s ''u'' = None" by (simp add: book_of_def toy_store_def NewStateStore_def)
  show ?thesis
    using worker_files_healthy_user [OF toy_store_book c, of toy_tx_env toy_executor 100 toy_client] n by simp
qed

end
