(* ===== verification/Interleaving.thy ===== *)
theory Interleaving
  imports RiskEngine
begin

text \<open>
  The goroutines of the bot together. Workers, watchdog, price feeder, log engine and snapshots share the
  state store and touch it only inside sections guarded by its lock; a run of the program is, for the
  store, an interleaving of such sections. Which goroutine enters next, and with what arguments, is left
  open, so the invariant below holds for any number of workers and every schedule.
\<close>

section \<open>The locked sections\<close>

text \<open>
  The methods of the store, and the sections of the risk engine: \<open>updateHeap\<close>, the cooldown, the position
  from the chain, and the lazily loaded E-Mode and category.
\<close>

inductive locked_section :: "state_store \<Rightarrow> state_store \<Rightarrow> bool" where
  ls_store: "store_step s t \<Longrightarrow> locked_section s t"
| ls_heap: "updateHeap u hf s = Inr t \<Longrightarrow> locked_section s t"
| ls_cooldown: "locked_section s (set_next_check u time s)"
| ls_position: "locked_section s (put_position u p s)"
| ls_category: "locked_section s (put_category c cat s)"
| ls_emode: "locked_section s (set_position_emode u c s)"

inductive bot_reachable :: "state_store \<Rightarrow> bool" where
  bot_start: "bot_reachable NewStateStore"
| bot_step: "bot_reachable s \<Longrightarrow> locked_section s t \<Longrightarrow> bot_reachable t"

lemma store_step_heap_frame:
  "store_step s t \<Longrightarrow> riskHeap t = riskHeap s \<and> heapLookup t = heapLookup s"
  by (erule store_stepE)
    (auto simp: SetCurrentBlock_def SetAnchorBlock_def SetGlobalIndex_def UpsertUserReserve_def SetUserEMode_def
      GetUserReserve_def update_reserve_def SetAssetPrice_def SetAssetConfig_def SetEModeCategory_def put_reserve_def
      subscribe_def ensure_position_def Let_def split: option.splits)

lemma locked_section_book:
  assumes "locked_section s t" and b: "heap_book s"
  shows "heap_book t"
  using assms(1)
proof (cases rule: locked_section.cases)
  case ls_store
  then show ?thesis using book_frame(1) [of t s] store_step_heap_frame b by blast
next
  case (ls_heap u hf)
  then show ?thesis using updateHeap_book [OF b, of u hf] by auto
next
  case (ls_cooldown u time)
  then show ?thesis using set_next_check_mem(1) [OF b] by simp
next
  case (ls_position u p)
  then show ?thesis using b by simp
next
  case (ls_category c cat)
  then show ?thesis using book_frame(1) [of t s] b by simp
next
  case (ls_emode u c)
  then show ?thesis using book_frame(1) [of t s] b by simp
qed

lemma bot_reachable_book: "bot_reachable s \<Longrightarrow> heap_book s"
  by (induction rule: bot_reachable.induct) (auto intro: empty_heap_book locked_section_book)

section \<open>No schedule breaks the risk heap\<close>

text \<open>
  no interleaving of the goroutines breaks the risk heap or makes it panic. In every state reachable by
  locked sections in any order the heap is ordered, every object knows its position and is the one its
  user is looked up under, only users below 1.05 are in it, and \<open>updateHeap\<close> finishes for every user and
  every health factor.
\<close>

theorem interleaving_keeps_book:
  assumes "bot_reachable s"
  shows "heap_book s \<and> (\<forall>u hf. \<exists>t. updateHeap u hf s = Inr t \<and> bot_reachable t)"
  using bot_reachable_book [OF assms] updateHeap_book bot_step [OF assms ls_heap] by blast

theorem interleaving_keeps_book_witness:
  "\<exists>s t. updateHeap ''u'' (Some 5) NewStateStore = Inr s \<and>
     updateHeap ''u'' None (set_next_check ''u'' 60 (GetUserReserve ''v'' ''a'' s)) = Inr t \<and> heap_book t"
proof -
  obtain s where s: "updateHeap ''u'' (Some 5) NewStateStore = Inr s" "bot_reachable s"
    using interleaving_keeps_book [OF bot_start] by blast
  have "bot_reachable (set_next_check ''u'' 60 (GetUserReserve ''v'' ''a'' s))"
    by (intro bot_step [OF bot_step [OF s(2) ls_store [OF st_get]] ls_cooldown])
  then obtain t where "updateHeap ''u'' None (set_next_check ''u'' 60 (GetUserReserve ''v'' ''a'' s)) = Inr t" "bot_reachable t"
    using interleaving_keeps_book by blast
  then show ?thesis using s interleaving_keeps_book by blast
qed

end
