(* ===== verification/Replay.thy ===== *)
theory Replay
  imports RiskEngine
begin

text \<open>
  \<open>internal/engine/log_replay_engine.go\<close> and \<open>events.go\<close>: the event log of the lending pool replayed
  onto the store. Keccak-256, the JSON-RPC node and the WebSocket are parameters. A handler that reads
  a reserve through the pointer \<open>GetUserReserve\<close> returned is one step here (LogSections cuts it at the lock); \<open>sort.Sort\<close> is the
  stable sort by (block, index), which is the only sorted order when the positions are distinct.
\<close>

section \<open>Topics\<close>

type_synonym keccak = "string \<Rightarrow> u8 list"

definition TopicReserveDataUpdated :: "keccak \<Rightarrow> string" where
  "TopicReserveDataUpdated kc = GetTopicHash kc ''ReserveDataUpdated(address,uint256,uint256,uint256,uint256,uint256)''"
definition TopicSupply :: "keccak \<Rightarrow> string" where
  "TopicSupply kc = GetTopicHash kc ''Supply(address,address,address,uint256,uint16)''"
definition TopicWithdraw :: "keccak \<Rightarrow> string" where
  "TopicWithdraw kc = GetTopicHash kc ''Withdraw(address,address,address,uint256)''"
definition TopicBorrow :: "keccak \<Rightarrow> string" where
  "TopicBorrow kc = GetTopicHash kc ''Borrow(address,address,address,uint256,uint8,uint256,uint16)''"
definition TopicRepay :: "keccak \<Rightarrow> string" where
  "TopicRepay kc = GetTopicHash kc ''Repay(address,address,address,uint256,bool)''"
definition TopicLiquidationCall :: "keccak \<Rightarrow> string" where
  "TopicLiquidationCall kc = GetTopicHash kc ''LiquidationCall(address,address,address,uint256,uint256,address,bool)''"
definition TopicCollateralEnabled :: "keccak \<Rightarrow> string" where
  "TopicCollateralEnabled kc = GetTopicHash kc ''ReserveUsedAsCollateralEnabled(address,address)''"
definition TopicCollateralDisabled :: "keccak \<Rightarrow> string" where
  "TopicCollateralDisabled kc = GetTopicHash kc ''ReserveUsedAsCollateralDisabled(address,address)''"
definition TopicUserEModeSet :: "keccak \<Rightarrow> string" where
  "TopicUserEModeSet kc = GetTopicHash kc ''UserEModeSet(address,uint8)''"

section \<open>State\<close>

record replay =
  rp_store :: state_store
  rp_queue :: "string list"
  dirtyUsers :: "string set"
  currentTxHash :: string
  lastProcessedBlock :: u64
  lastProcessedLogIndex :: u64

definition on_store :: "(state_store \<Rightarrow> state_store) \<Rightarrow> replay \<Rightarrow> replay" where
  "on_store f st = st\<lparr>rp_store := f (rp_store st)\<rparr>"

definition markUserDirty :: "string \<Rightarrow> replay \<Rightarrow> replay" where
  "markUserDirty userAddr st = st\<lparr>dirtyUsers := insert userAddr (dirtyUsers st)\<rparr>"

text \<open>\<open>ord\<close> is the order in which the map of dirty users is visited.\<close>

definition flushDirtyUsers :: "string list \<Rightarrow> replay \<Rightarrow> replay" where
  "flushDirtyUsers ord st =
     st\<lparr>rp_queue := fold Enqueue (filter (\<lambda>u. u \<in> dirtyUsers st) ord) (rp_queue st), dirtyUsers := {}\<rparr>"

section \<open>Handlers\<close>

text \<open>What is left of a balance: negative values and dust become zero.\<close>

definition drop_dust :: "int \<Rightarrow> int" where
  "drop_dust x = (if x < 0 \<or> \<bar>x\<bar> \<le> DustThreshold then 0 else x)"

text \<open>\<open>ord a\<close> is the order in which the subscribers of asset \<open>a\<close> are visited.\<close>

definition handleReserveDataUpdated :: "(string \<Rightarrow> string list) \<Rightarrow> rpc_log \<Rightarrow> replay \<Rightarrow> replay" where
  "handleReserveDataUpdated ord l st =
     (if length (log_Topics l) < 2 then st
      else
        let assetAddress = ParseHexAddress (log_Topics l ! 1); data = TrimPrefix (log_Data l) ''0x'' in
        if length data < 320 then st
        else
          let liquidityIndex = ParseHexBigInt (slice data 192 256);
              variableBorrowIndex = ParseHexBigInt (slice data 256 320);
              newIndex = \<lparr>gi_AssetAddress = assetAddress, LiquidityIndex = liquidityIndex,
                          VariableBorrowIndex = variableBorrowIndex, LastUpdateBlock = log_block l\<rparr>;
              st1 = on_store (SetGlobalIndex assetAddress newIndex) st
          in st1\<lparr>rp_queue := EnqueueByAsset (ord assetAddress) (rp_store st1) assetAddress (rp_queue st1)\<rparr>)"

definition set_collateral :: "bool \<Rightarrow> rpc_log \<Rightarrow> replay \<Rightarrow> replay" where
  "set_collateral enabled l st =
     (if length (log_Topics l) < 3 then st
      else
        let assetAddress = ParseHexAddress (log_Topics l ! 1); userAddress = ParseHexAddress (log_Topics l ! 2);
            st1 = on_store (GetUserReserve userAddress assetAddress) st;
            st2 = on_store (update_reserve userAddress assetAddress
                    (\<lambda>r. r\<lparr>UsageAsCollateralEnabledOnUser := enabled\<rparr>)) st1
        in markUserDirty userAddress st2)"

definition handleCollateralEnabled :: "rpc_log \<Rightarrow> replay \<Rightarrow> replay" where
  "handleCollateralEnabled = set_collateral True"

definition handleCollateralDisabled :: "rpc_log \<Rightarrow> replay \<Rightarrow> replay" where
  "handleCollateralDisabled = set_collateral False"

definition handleSupply :: "rpc_log \<Rightarrow> replay \<Rightarrow> replay" where
  "handleSupply l st =
     (if length (log_Topics l) < 3 then st
      else
        let assetAddress = ParseHexAddress (log_Topics l ! 1); onBehalfOf = ParseHexAddress (log_Topics l ! 2);
            data = TrimPrefix (log_Data l) ''0x'' in
        if length data < 128 then st
        else
          let amount = ParseHexBigInt (slice data 64 128) in
          case GetGlobalIndex (rp_store st) assetAddress of
            None \<Rightarrow> st
          | Some globalIdx \<Rightarrow>
              if LiquidityIndex globalIdx = 0 then st
              else
                let scaledAmount = RayDiv amount (LiquidityIndex globalIdx);
                    st1 = on_store (GetUserReserve onBehalfOf assetAddress) st;
                    st2 = on_store (update_reserve onBehalfOf assetAddress
                            (\<lambda>r. r\<lparr>ScaledATokenBalance := ScaledATokenBalance r + scaledAmount\<rparr>)) st1
                in markUserDirty onBehalfOf st2)"

definition handleWithdraw :: "rpc_log \<Rightarrow> replay \<Rightarrow> replay" where
  "handleWithdraw l st =
     (if length (log_Topics l) < 4 then st
      else
        let assetAddress = ParseHexAddress (log_Topics l ! 1); userAddress = ParseHexAddress (log_Topics l ! 2);
            data = TrimPrefix (log_Data l) ''0x'' in
        if length data < 64 then st
        else
          let amount = ParseHexBigInt (slice data 0 64) in
          case GetGlobalIndex (rp_store st) assetAddress of
            None \<Rightarrow> st
          | Some globalIdx \<Rightarrow>
              if LiquidityIndex globalIdx = 0 then st
              else
                let scaledAmount = RayDiv amount (LiquidityIndex globalIdx);
                    st1 = on_store (GetUserReserve userAddress assetAddress) st;
                    st2 = on_store (update_reserve userAddress assetAddress
                            (\<lambda>r. r\<lparr>ScaledATokenBalance := drop_dust (ScaledATokenBalance r - scaledAmount)\<rparr>)) st1
                in markUserDirty userAddress st2)"

definition handleBorrow :: "rpc_log \<Rightarrow> replay \<Rightarrow> replay" where
  "handleBorrow l st =
     (if length (log_Topics l) < 3 then st
      else
        let assetAddress = ParseHexAddress (log_Topics l ! 1); onBehalfOf = ParseHexAddress (log_Topics l ! 2);
            data = TrimPrefix (log_Data l) ''0x'' in
        if length data < 192 then st
        else
          let amount = ParseHexBigInt (slice data 64 128);
              interestRateMode = big_Int64 (ParseHexBigInt (slice data 128 192)) in
          if interestRateMode \<noteq> 2 then st
          else
            case GetGlobalIndex (rp_store st) assetAddress of
              None \<Rightarrow> st
            | Some globalIdx \<Rightarrow>
                if VariableBorrowIndex globalIdx = 0 then st
                else
                  let scaledAmount = RayDiv amount (VariableBorrowIndex globalIdx);
                      st1 = on_store (GetUserReserve onBehalfOf assetAddress) st;
                      st2 = on_store (update_reserve onBehalfOf assetAddress
                              (\<lambda>r. r\<lparr>ScaledVariableDebt := ScaledVariableDebt r + scaledAmount\<rparr>)) st1
                  in markUserDirty onBehalfOf st2)"

definition handleRepay :: "rpc_log \<Rightarrow> replay \<Rightarrow> replay" where
  "handleRepay l st =
     (if length (log_Topics l) < 3 then st
      else
        let assetAddress = ParseHexAddress (log_Topics l ! 1); userAddress = ParseHexAddress (log_Topics l ! 2);
            data = TrimPrefix (log_Data l) ''0x'' in
        if length data < 64 then st
        else
          let amount = ParseHexBigInt (slice data 0 64) in
          case GetGlobalIndex (rp_store st) assetAddress of
            None \<Rightarrow> st
          | Some globalIdx \<Rightarrow>
              if VariableBorrowIndex globalIdx = 0 then st
              else
                let scaledAmount = RayDiv amount (VariableBorrowIndex globalIdx);
                    st1 = on_store (GetUserReserve userAddress assetAddress) st;
                    st2 = on_store (update_reserve userAddress assetAddress
                            (\<lambda>r. r\<lparr>ScaledVariableDebt := drop_dust (ScaledVariableDebt r - scaledAmount)\<rparr>)) st1
                in markUserDirty userAddress st2)"

definition handleUserEModeSet :: "rpc_log \<Rightarrow> replay \<Rightarrow> replay" where
  "handleUserEModeSet l st =
     (if length (log_Topics l) < 2 then st
      else
        let userAddress = ParseHexAddress (log_Topics l ! 1); data = TrimPrefix (log_Data l) ''0x'';
            categoryId = ucast (big_Uint64 (ParseHexBigInt data))
        in markUserDirty userAddress (on_store (SetUserEMode userAddress categoryId) st))"

definition handleLiquidationCall :: "rpc_log \<Rightarrow> replay \<Rightarrow> replay" where
  "handleLiquidationCall l st =
     (if length (log_Topics l) < 4 then st
      else
        let collateralAsset = ParseHexAddress (log_Topics l ! 1); debtAsset = ParseHexAddress (log_Topics l ! 2);
            userAddress = ParseHexAddress (log_Topics l ! 3); data = TrimPrefix (log_Data l) ''0x'' in
        if length data < 128 then st
        else
          let debtToCover = ParseHexBigInt (slice data 0 64);
              liquidatedCollateralAmount = ParseHexBigInt (slice data 64 128) in
          case (GetGlobalIndex (rp_store st) debtAsset, GetGlobalIndex (rp_store st) collateralAsset) of
            (Some debtIdx, Some collateralIdx) \<Rightarrow>
              let scaledDebtToCover = RayDiv debtToCover (VariableBorrowIndex debtIdx);
                  scaledCollateralLiquidated = RayDiv liquidatedCollateralAmount (LiquidityIndex collateralIdx);
                  st1 = on_store (GetUserReserve userAddress debtAsset) st;
                  st2 = on_store (GetUserReserve userAddress collateralAsset) st1;
                  st3 = on_store (update_reserve userAddress debtAsset
                          (\<lambda>r. r\<lparr>ScaledVariableDebt := drop_dust (ScaledVariableDebt r - scaledDebtToCover)\<rparr>)) st2;
                  st4 = on_store (update_reserve userAddress collateralAsset
                          (\<lambda>r. r\<lparr>ScaledATokenBalance := drop_dust (ScaledATokenBalance r - scaledCollateralLiquidated)\<rparr>)) st3
              in markUserDirty userAddress st4
          | _ \<Rightarrow> st)"

section \<open>Dispatch\<close>

definition processLog :: "keccak \<Rightarrow> (string \<Rightarrow> string list) \<Rightarrow> rpc_log \<Rightarrow> replay \<Rightarrow> replay" where
  "processLog kc ord l st =
     (if log_Removed l then st
      else if log_Topics l = [] then st
      else
        let eventSignature = log_Topics l ! 0 in
        if eventSignature = TopicReserveDataUpdated kc then handleReserveDataUpdated ord l st
        else if eventSignature = TopicSupply kc then handleSupply l st
        else if eventSignature = TopicWithdraw kc then handleWithdraw l st
        else if eventSignature = TopicBorrow kc then handleBorrow l st
        else if eventSignature = TopicRepay kc then handleRepay l st
        else if eventSignature = TopicLiquidationCall kc then handleLiquidationCall l st
        else if eventSignature = TopicCollateralEnabled kc then handleCollateralEnabled l st
        else if eventSignature = TopicCollateralDisabled kc then handleCollateralDisabled l st
        else if eventSignature = TopicUserEModeSet kc then handleUserEModeSet l st
        else st)"

definition isDuplicate :: "replay \<Rightarrow> u64 \<Rightarrow> u64 \<Rightarrow> bool" where
  "isDuplicate st logBlock logIndex =
     (if logBlock < lastProcessedBlock st then True
      else if logBlock = lastProcessedBlock st \<and> logIndex \<le> lastProcessedLogIndex st then True
      else False)"

section \<open>The two phases of \<open>Start\<close>\<close>

text \<open>\<open>ordF\<close> and \<open>ordS\<close> are the visiting orders of the dirty users and of the subscribers.\<close>

definition new_tx_flush :: "string list \<Rightarrow> rpc_log \<Rightarrow> replay \<Rightarrow> replay" where
  "new_tx_flush ordF l st =
     (if log_TransactionHash l \<noteq> currentTxHash st
      then (flushDirtyUsers ordF st)\<lparr>currentTxHash := log_TransactionHash l\<rparr>
      else st)"

definition mark_processed :: "u64 \<Rightarrow> u64 \<Rightarrow> replay \<Rightarrow> replay" where
  "mark_processed blockNum logIdx st = st\<lparr>lastProcessedBlock := blockNum, lastProcessedLogIndex := logIdx\<rparr>"

definition historic_log :: "keccak \<Rightarrow> string list \<Rightarrow> (string \<Rightarrow> string list) \<Rightarrow> rpc_log \<Rightarrow> replay \<Rightarrow> replay" where
  "historic_log kc ordF ordS l st =
     mark_processed (log_block l) (log_idx l) (processLog kc ordS l (new_tx_flush ordF l st))"

text \<open>One log with the two visiting orders of its step.\<close>

type_synonym log_event = "rpc_log \<times> string list \<times> (string \<Rightarrow> string list)"

definition catch_up :: "keccak \<Rightarrow> log_event list \<Rightarrow> string list \<Rightarrow> u64 \<Rightarrow> replay \<Rightarrow> replay" where
  "catch_up kc events ordF bWs st =
     (let st1 = fold (\<lambda>(l, oF, oS). historic_log kc oF oS l) events st;
          st2 = flushDirtyUsers ordF st1
      in if lastProcessedBlock st2 < bWs then mark_processed bWs 0 st2 else st2)"

text \<open>
  One log of the live stream. The loop flushes the dirty users when no further log waits in the
  channel: \<open>bufferEmpty\<close>.
\<close>

definition live_core :: "keccak \<Rightarrow> string list \<Rightarrow> (string \<Rightarrow> string list) \<Rightarrow> rpc_log \<Rightarrow> replay \<Rightarrow> replay" where
  "live_core kc ordF ordS l st =
     (let st1 = on_store (SetCurrentBlock (log_block l)) st;
          st2 = new_tx_flush ordF l st1
      in if isDuplicate st2 (log_block l) (log_idx l) then st2
         else mark_processed (log_block l) (log_idx l) (processLog kc ordS l st2))"

definition live_log ::
    "keccak \<Rightarrow> string list \<Rightarrow> (string \<Rightarrow> string list) \<Rightarrow> string list \<Rightarrow> bool \<Rightarrow> rpc_log \<Rightarrow> replay \<Rightarrow> replay" where
  "live_log kc ordF ordS ordE bufferEmpty l st =
     (let st3 = live_core kc ordF ordS l st in if bufferEmpty then flushDirtyUsers ordE st3 else st3)"

section \<open>The live loop as a transition system\<close>

text \<open>A step with possible visiting orders, and the runs of the loop with the logs it consumed.\<close>

inductive live_step :: "keccak \<Rightarrow> bool \<Rightarrow> rpc_log \<Rightarrow> replay \<Rightarrow> replay \<Rightarrow> bool" for kc where
  live: "enumerates ordF (dirtyUsers st) \<Longrightarrow> (\<And>a. enumerates (ordS a) (subscribers (rp_store st) a)) \<Longrightarrow>
    enumerates ordE (dirtyUsers (live_core kc ordF ordS l st)) \<Longrightarrow>
    live_step kc bufferEmpty l st (live_log kc ordF ordS ordE bufferEmpty l st)"

inductive live_run :: "keccak \<Rightarrow> replay \<Rightarrow> (rpc_log \<times> bool) list \<Rightarrow> replay \<Rightarrow> bool" for kc where
  run_start: "live_run kc st [] st"
| run_step: "live_run kc st ls st1 \<Longrightarrow> live_step kc e l st1 st2 \<Longrightarrow> live_run kc st (ls @ [(l, e)]) st2"

inductive_cases live_stepE: "live_step kc e l st st'"

section \<open>Frames of the operations\<close>

lemma on_store_simps [simp]:
  "rp_store (on_store f st) = f (rp_store st)" "rp_queue (on_store f st) = rp_queue st"
  "dirtyUsers (on_store f st) = dirtyUsers st" "currentTxHash (on_store f st) = currentTxHash st"
  "lastProcessedBlock (on_store f st) = lastProcessedBlock st"
  "lastProcessedLogIndex (on_store f st) = lastProcessedLogIndex st"
  by (simp_all add: on_store_def)

lemma markUserDirty_simps [simp]:
  "rp_store (markUserDirty u st) = rp_store st" "rp_queue (markUserDirty u st) = rp_queue st"
  "dirtyUsers (markUserDirty u st) = insert u (dirtyUsers st)" "currentTxHash (markUserDirty u st) = currentTxHash st"
  "lastProcessedBlock (markUserDirty u st) = lastProcessedBlock st"
  "lastProcessedLogIndex (markUserDirty u st) = lastProcessedLogIndex st"
  by (simp_all add: markUserDirty_def)

lemma flush_simps [simp]:
  "rp_store (flushDirtyUsers ord st) = rp_store st" "dirtyUsers (flushDirtyUsers ord st) = {}"
  "currentTxHash (flushDirtyUsers ord st) = currentTxHash st"
  "lastProcessedBlock (flushDirtyUsers ord st) = lastProcessedBlock st"
  "lastProcessedLogIndex (flushDirtyUsers ord st) = lastProcessedLogIndex st"
  by (simp_all add: flushDirtyUsers_def)

lemma mark_processed_simps [simp]:
  "rp_store (mark_processed b i st) = rp_store st" "rp_queue (mark_processed b i st) = rp_queue st"
  "dirtyUsers (mark_processed b i st) = dirtyUsers st" "currentTxHash (mark_processed b i st) = currentTxHash st"
  "lastProcessedBlock (mark_processed b i st) = b" "lastProcessedLogIndex (mark_processed b i st) = i"
  by (simp_all add: mark_processed_def)

lemma new_tx_flush_simps [simp]:
  "rp_store (new_tx_flush ord l st) = rp_store st"
  "lastProcessedBlock (new_tx_flush ord l st) = lastProcessedBlock st"
  "lastProcessedLogIndex (new_tx_flush ord l st) = lastProcessedLogIndex st"
  by (simp_all add: new_tx_flush_def)

lemma isDuplicate_pos:
  "isDuplicate st (log_block l) (log_idx l) \<longleftrightarrow>
     \<not> pos_less (unat (lastProcessedBlock st), unat (lastProcessedLogIndex st)) (log_pos l)"
  by (auto simp: isDuplicate_def pos_less_def log_pos_def word_less_nat_alt word_le_nat_alt word_unat_eq_iff)

text \<open>Writes to the store change only the position of the user they name.\<close>

lemma positions_other [simp]:
  "v \<noteq> ToLower u \<Longrightarrow> userPositions (GetUserReserve u a s) v = userPositions s v"
  "v \<noteq> ToLower u \<Longrightarrow> userPositions (update_reserve u a f s) v = userPositions s v"
  "v \<noteq> ToLower u \<Longrightarrow> userPositions (SetUserEMode u c s) v = userPositions s v"
  "userPositions (SetGlobalIndex a i s) = userPositions s" "userPositions (SetCurrentBlock b s) = userPositions s"
  by (auto simp: GetUserReserve_def update_reserve_def SetUserEMode_def SetGlobalIndex_def SetCurrentBlock_def
      ensure_position_def put_reserve_def subscribe_def Let_def split: option.split)

text \<open>
  What every step of the replay guarantees: changed users are dirty, no mark is lost, the queue only
  grows, the bookkeeping of positions stays.
\<close>

definition marks_changes :: "replay \<Rightarrow> replay \<Rightarrow> bool" where
  "marks_changes st st' \<longleftrightarrow>
     (\<forall>u. userPositions (rp_store st') u \<noteq> userPositions (rp_store st) u \<longrightarrow> u \<in> dirtyUsers st') \<and>
     dirtyUsers st \<subseteq> dirtyUsers st' \<and> (\<exists>q. rp_queue st' = rp_queue st @ q) \<and>
     currentTxHash st' = currentTxHash st \<and> lastProcessedBlock st' = lastProcessedBlock st \<and>
     lastProcessedLogIndex st' = lastProcessedLogIndex st"

lemma marks_changes_refl [simp]: "marks_changes st st"
  by (simp add: marks_changes_def)

lemma marks_changes_user:
  assumes "\<And>v. v \<noteq> u \<Longrightarrow> userPositions s' v = userPositions (rp_store st) v"
  shows "marks_changes st (markUserDirty u (on_store (\<lambda>_. s') st))"
  using assms by (auto simp: marks_changes_def)

lemma on_store_twice: "on_store f (on_store g st) = on_store (\<lambda>_. f (g (rp_store st))) st"
  by (simp add: on_store_def)

lemma on_store_const: "on_store f st = on_store (\<lambda>_. f (rp_store st)) st"
  by (simp add: on_store_def)

lemma ParseHexAddress_other [simp]:
  "v \<noteq> ParseHexAddress x \<Longrightarrow> userPositions (GetUserReserve (ParseHexAddress x) a s) v = userPositions s v"
  "v \<noteq> ParseHexAddress x \<Longrightarrow> userPositions (update_reserve (ParseHexAddress x) a f s) v = userPositions s v"
  "v \<noteq> ParseHexAddress x \<Longrightarrow> userPositions (SetUserEMode (ParseHexAddress x) c s) v = userPositions s v"
  by simp_all

lemma handlers_mark:
  "marks_changes st (set_collateral b l st)" "marks_changes st (handleSupply l st)"
  "marks_changes st (handleWithdraw l st)" "marks_changes st (handleBorrow l st)"
  "marks_changes st (handleRepay l st)" "marks_changes st (handleUserEModeSet l st)"
  "marks_changes st (handleLiquidationCall l st)"
  unfolding set_collateral_def handleSupply_def handleWithdraw_def handleBorrow_def handleRepay_def
    handleUserEModeSet_def handleLiquidationCall_def Let_def on_store_twice
  by (auto split: option.split intro!: marks_changes_user
      simp: on_store_const [of "SetUserEMode u c" for u c])

lemma index_marks: "marks_changes st (handleReserveDataUpdated ord l st)" if "length (rp_queue st) \<le> taskQueueSize"
  using that by (auto simp: handleReserveDataUpdated_def marks_changes_def Let_def EnqueueByAsset_def fold_Enqueue)

lemma processLog_marks: "length (rp_queue st) \<le> taskQueueSize \<Longrightarrow> marks_changes st (processLog kc ord l st)"
  by (auto simp: processLog_def Let_def handleCollateralEnabled_def handleCollateralDisabled_def
      handlers_mark index_marks)

lemma handlers_queue [simp]:
  "rp_queue (set_collateral b l st) = rp_queue st" "rp_queue (handleSupply l st) = rp_queue st"
  "rp_queue (handleWithdraw l st) = rp_queue st" "rp_queue (handleBorrow l st) = rp_queue st"
  "rp_queue (handleRepay l st) = rp_queue st" "rp_queue (handleUserEModeSet l st) = rp_queue st"
  "rp_queue (handleLiquidationCall l st) = rp_queue st"
  by (simp_all add: set_collateral_def handleSupply_def handleWithdraw_def handleBorrow_def handleRepay_def
      handleUserEModeSet_def handleLiquidationCall_def Let_def split: option.split)

lemma processLog_queue_bound:
  "length (rp_queue st) \<le> taskQueueSize \<Longrightarrow> length (rp_queue (processLog kc ord l st)) \<le> taskQueueSize"
  by (auto simp: processLog_def Let_def handleCollateralEnabled_def handleCollateralDisabled_def
      handleReserveDataUpdated_def EnqueueByAsset_def fold_Enqueue)

section \<open>No touched user is forgotten\<close>

text \<open>The queue bound, and the users whose position changed since \<open>s0\<close> are dirty or queued or the queue is full.\<close>

definition remembered :: "state_store \<Rightarrow> replay \<Rightarrow> bool" where
  "remembered s0 st \<longleftrightarrow> length (rp_queue st) \<le> taskQueueSize \<and>
     (length (rp_queue st) < taskQueueSize \<longrightarrow>
      (\<forall>u. userPositions (rp_store st) u \<noteq> userPositions s0 u \<longrightarrow> u \<in> dirtyUsers st \<union> set (rp_queue st)))"

lemma flush_remembers:
  assumes "remembered s0 st" "enumerates ord (dirtyUsers st)"
  shows "remembered s0 (flushDirtyUsers ord st)"
proof -
  have f: "filter (\<lambda>u. u \<in> dirtyUsers st) ord = ord" using assms(2) by (simp add: enumerates_def)
  have q: "rp_queue (flushDirtyUsers ord st) = rp_queue st @ take (taskQueueSize - length (rp_queue st)) ord"
    using assms(1) by (simp add: flushDirtyUsers_def f fold_Enqueue remembered_def)
  show ?thesis
  proof (cases "length ord < taskQueueSize - length (rp_queue st)")
    case True
    then have q': "rp_queue (flushDirtyUsers ord st) = rp_queue st @ ord" by (simp add: q)
    show ?thesis using assms True unfolding remembered_def q' by (auto simp: enumerates_def)
  next
    case False
    then have "length (rp_queue (flushDirtyUsers ord st)) = taskQueueSize"
      using assms(1) by (simp add: q remembered_def)
    then show ?thesis by (simp add: remembered_def)
  qed
qed

lemma process_remembers:
  assumes "remembered s0 st"
  shows "remembered s0 (processLog kc ord l st)"
proof -
  have m: "marks_changes st (processLog kc ord l st)"
    using assms by (simp add: processLog_marks remembered_def)
  then obtain q where q: "rp_queue (processLog kc ord l st) = rp_queue st @ q" by (auto simp: marks_changes_def)
  have "length (rp_queue (processLog kc ord l st)) \<le> taskQueueSize"
    using assms processLog_queue_bound by (simp add: remembered_def)
  moreover have "u \<in> dirtyUsers (processLog kc ord l st) \<union> set (rp_queue (processLog kc ord l st))"
    if lt: "length (rp_queue (processLog kc ord l st)) < taskQueueSize"
      and ch: "userPositions (rp_store (processLog kc ord l st)) u \<noteq> userPositions s0 u" for u
  proof (cases "userPositions (rp_store (processLog kc ord l st)) u = userPositions (rp_store st) u")
    case True
    then have "u \<in> dirtyUsers st \<union> set (rp_queue st)"
      using assms lt ch q by (simp add: remembered_def)
    then show ?thesis using m q by (auto simp: marks_changes_def)
  next
    case False
    then show ?thesis using m by (simp add: marks_changes_def)
  qed
  ultimately show ?thesis by (simp add: remembered_def)
qed

lemma live_step_remembers:
  assumes "live_step kc e l st st'" "remembered s0 st"
  shows "remembered s0 st'"
  using assms(1)
proof (cases rule: live_step.cases)
  case (live ordF ordS ordE)
  let ?st1 = "on_store (SetCurrentBlock (log_block l)) st"
  have "remembered s0 ?st1" using assms(2) by (simp add: remembered_def)
  then have "remembered s0 (new_tx_flush ordF l ?st1)"
    using flush_remembers [of s0 ?st1 ordF] live(2)
    by (auto simp: new_tx_flush_def remembered_def)
  then have "remembered s0 (live_core kc ordF ordS l st)"
    using process_remembers [of s0 "new_tx_flush ordF l ?st1" kc ordS l]
    by (auto simp: live_core_def Let_def remembered_def)
  then show ?thesis using live flush_remembers by (simp add: live_log_def Let_def)
qed

lemma live_run_remembers:
  "live_run kc st ls st' \<Longrightarrow> remembered s0 st \<Longrightarrow> remembered s0 st'"
  by (induction rule: live_run.induct) (auto intro: live_step_remembers)

text \<open>The example: a keccak that tells the topics apart by length, and three logs of one user.\<close>

definition toy_keccak :: keccak where
  "toy_keccak sig = [of_nat (length sig), (case sig of [] \<Rightarrow> 0 | c # _ \<Rightarrow> of_char c)]"

definition toy_word :: "nat \<Rightarrow> string" where
  "toy_word n = PadLeftZero (hex_of_nat n) 64"

definition toy_log :: "string \<Rightarrow> string list \<Rightarrow> string \<Rightarrow> string \<Rightarrow> rpc_log" where
  "toy_log topic args data idx =
     \<lparr>log_Address = ''pool'', log_Topics = topic # args, log_Data = data, log_BlockNumber = ''0x7'',
      log_TransactionHash = ''0xt'', log_TransactionIndex = ''0x0'', log_LogIndex = idx, log_Removed = False\<rparr>"

definition toy_supply :: rpc_log where
  "toy_supply = toy_log (TopicSupply toy_keccak) [''0x0a'', ''0x0b''] (''0x'' @ toy_word 0 @ toy_word 500) ''0x1''"

definition toy_withdraw :: rpc_log where
  "toy_withdraw = toy_log (TopicWithdraw toy_keccak) [''0x0a'', ''0x0b'', ''0x0b''] (''0x'' @ toy_word 495) ''0x2''"

definition toy_replay :: replay where
  "toy_replay = \<lparr>rp_store = NewStateStore\<lparr>globalIndices := [''0x0a'' \<mapsto> \<lparr>gi_AssetAddress = ''0x0a'',
       LiquidityIndex = RAY, VariableBorrowIndex = RAY, LastUpdateBlock = 1\<rparr>]\<rparr>,
     rp_queue = [], dirtyUsers = {}, currentTxHash = [], lastProcessedBlock = 6, lastProcessedLogIndex = 0\<rparr>"

definition toy_after :: replay where
  "toy_after = live_log toy_keccak [] (\<lambda>_. []) [''0x0b''] True toy_supply toy_replay"

lemma toy_subscribers: "subscribers (rp_store toy_replay) a = {}"
  by (simp add: subscribers_def toy_replay_def NewStateStore_def)

lemma toy_core_dirty: "dirtyUsers (live_core toy_keccak [] (\<lambda>_. []) toy_supply toy_replay) = {''0x0b''}"
  by code_simp

lemma toy_run: "live_run toy_keccak toy_replay [(toy_supply, True)] toy_after"
proof -
  have "live_step toy_keccak True toy_supply toy_replay toy_after"
    unfolding toy_after_def
    by (rule live_step.live) (simp_all add: toy_subscribers toy_core_dirty enumerates_def, simp add: toy_replay_def)
  then show ?thesis using run_step [OF run_start] by fastforce
qed

text \<open>
  no touched user is forgotten. In every run of the live loop that ends with an empty channel,
  each user whose position differs from the one at the start is in the task queue, unless the queue
  has filled up; in particular transactions and duplicates in between lose nobody.
\<close>

theorem touched_users_enqueued:
  assumes "live_run kc st (ls @ [(l, True)]) st'" and "dirtyUsers st = {}" and "length (rp_queue st) \<le> 50000"
    and "length (rp_queue st') < 50000" and "userPositions (rp_store st') u \<noteq> userPositions (rp_store st) u"
  shows "u \<in> set (rp_queue st')"
proof -
  have "remembered (rp_store st) st" using assms(3) by (simp add: remembered_def taskQueueSize_def)
  then have r: "remembered (rp_store st) st'" using live_run_remembers [OF assms(1)] by blast
  have "dirtyUsers st' = {}"
    using assms(1)
  proof (cases rule: live_run.cases)
    case (run_step ls' st1 e l')
    then have "live_step kc True l st1 st'" by simp
    then show ?thesis by (cases rule: live_step.cases) (simp add: live_log_def Let_def)
  qed simp
  then show ?thesis using r assms(4,5) by (simp add: remembered_def taskQueueSize_def)
qed

theorem touched_users_enqueued_witness: "''0x0b'' \<in> set (rp_queue toy_after)"
proof -
  have "\<not> Option.is_none (userPositions (rp_store toy_after) ''0x0b'')" by code_simp
  then have p: "userPositions (rp_store toy_after) ''0x0b'' \<noteq> userPositions (rp_store toy_replay) ''0x0b''"
    by (auto simp: toy_replay_def NewStateStore_def Option.is_none_def)
  have q: "length (rp_queue toy_after) < 50000" by code_simp
  have r: "live_run toy_keccak toy_replay ([] @ [(toy_supply, True)]) toy_after" using toy_run by simp
  have d: "dirtyUsers toy_replay = {}" "length (rp_queue toy_replay) \<le> 50000" by (simp_all add: toy_replay_def)
  show ?thesis by (rule touched_users_enqueued [OF r d q p])
qed

section \<open>The live loop is never stuck\<close>

definition finite_state :: "replay \<Rightarrow> bool" where
  "finite_state st \<longleftrightarrow> finite (dirtyUsers st) \<and> (\<forall>a. finite (subs_raw (rp_store st) a))"

lemma finite_ops:
  assumes "\<forall>a. finite (subs_raw s a)"
  shows "\<forall>a. finite (subs_raw (GetUserReserve u x s) a)" "\<forall>a. finite (subs_raw (update_reserve u x f s) a)"
    "\<forall>a. finite (subs_raw (SetUserEMode u c s) a)" "\<forall>a. finite (subs_raw (SetGlobalIndex x i s) a)"
    "\<forall>a. finite (subs_raw (SetCurrentBlock b s) a)"
  using assms by (simp_all add: store_simps)

lemma finite_handlers:
  assumes "finite_state st"
  shows "finite_state (set_collateral b l st)" "finite_state (handleSupply l st)" "finite_state (handleWithdraw l st)"
    "finite_state (handleBorrow l st)" "finite_state (handleRepay l st)" "finite_state (handleUserEModeSet l st)"
    "finite_state (handleLiquidationCall l st)" "finite_state (handleReserveDataUpdated ord l st)"
  using assms
  by (simp_all add: finite_state_def set_collateral_def handleSupply_def handleWithdraw_def handleBorrow_def
      handleRepay_def handleUserEModeSet_def handleLiquidationCall_def handleReserveDataUpdated_def Let_def
      finite_ops split: option.split)

lemma finite_live_core:
  assumes "finite_state st"
  shows "finite_state (live_core kc oF oS l st)"
proof -
  have "finite_state (new_tx_flush oF l (on_store (SetCurrentBlock (log_block l)) st))"
    using assms by (simp add: finite_state_def new_tx_flush_def finite_ops)
  moreover have "finite_state (processLog kc oS l t)" if "finite_state t" for t
    using that by (simp add: processLog_def Let_def finite_handlers handleCollateralEnabled_def handleCollateralDisabled_def)
  ultimately show ?thesis by (simp add: live_core_def Let_def finite_state_def)
qed

lemma live_step_exists:
  assumes "finite_state st"
  shows "\<exists>st'. live_step kc e l st st'"
proof -
  obtain oF where F: "enumerates oF (dirtyUsers st)" using assms enumerates_exists by (auto simp: finite_state_def)
  have "\<exists>ord. enumerates ord (subscribers (rp_store st) a)" for a
    using assms enumerates_exists by (auto simp: finite_state_def subscribers_raw)
  then obtain oS where S: "\<And>a. enumerates (oS a) (subscribers (rp_store st) a)" by metis
  obtain oE where E: "enumerates oE (dirtyUsers (live_core kc oF oS l st))"
    using finite_live_core [OF assms, of kc oF oS l] enumerates_exists unfolding finite_state_def by blast
  show ?thesis using live_step.live [OF F S E] by blast
qed

lemma finite_live_step:
  assumes "live_step kc e l st st'" "finite_state st"
  shows "finite_state st'"
  using assms(1)
proof (cases rule: live_step.cases)
  case (live ordF ordS ordE)
  have "finite_state (live_core kc ordF ordS l st)" using finite_live_core [OF assms(2)] .
  then show ?thesis using live(1) by (simp add: live_log_def Let_def finite_state_def)
qed

lemma finite_live_run: "live_run kc st ls st' \<Longrightarrow> finite_state st \<Longrightarrow> finite_state st'"
  by (induction rule: live_run.induct) (auto intro: finite_live_step)

section \<open>Every log position takes effect at most once\<close>

definition last_pos :: "replay \<Rightarrow> nat \<times> nat" where
  "last_pos st = (unat (lastProcessedBlock st), unat (lastProcessedLogIndex st))"

lemma duplicate_iff: "isDuplicate st (log_block l) (log_idx l) \<longleftrightarrow> \<not> pos_less (last_pos st) (log_pos l)"
  by (simp add: isDuplicate_pos last_pos_def)

lemma last_pos_simps [simp]:
  "last_pos (on_store f st) = last_pos st" "last_pos (new_tx_flush oF l st) = last_pos st"
  "last_pos (flushDirtyUsers oF st) = last_pos st" "last_pos (mark_processed (log_block l) (log_idx l) st) = log_pos l"
  by (simp_all add: last_pos_def log_pos_def)

lemma handlers_last_pos [simp]:
  "last_pos (set_collateral b l st) = last_pos st" "last_pos (handleSupply l st) = last_pos st"
  "last_pos (handleWithdraw l st) = last_pos st" "last_pos (handleBorrow l st) = last_pos st"
  "last_pos (handleRepay l st) = last_pos st" "last_pos (handleUserEModeSet l st) = last_pos st"
  "last_pos (handleLiquidationCall l st) = last_pos st" "last_pos (handleReserveDataUpdated ord l st) = last_pos st"
  by (simp_all add: last_pos_def set_collateral_def handleSupply_def handleWithdraw_def handleBorrow_def
      handleRepay_def handleUserEModeSet_def handleLiquidationCall_def handleReserveDataUpdated_def Let_def
      split: option.split)

lemma processLog_last_pos [simp]: "last_pos (processLog kc ord l st) = last_pos st"
  by (simp add: processLog_def Let_def handleCollateralEnabled_def handleCollateralDisabled_def)

lemma live_core_pos:
  "last_pos (live_core kc oF oS l st) = (if pos_less (last_pos st) (log_pos l) then log_pos l else last_pos st)"
  by (simp add: live_core_def Let_def duplicate_iff)

lemma live_step_pos:
  "live_step kc e l st st' \<Longrightarrow>
   last_pos st' = (if pos_less (last_pos st) (log_pos l) then log_pos l else last_pos st)"
  by (erule live_step.cases) (simp add: live_log_def Let_def live_core_pos)

lemma live_run_pos:
  "live_run kc st ls st' \<Longrightarrow>
   \<not> pos_less (last_pos st') (last_pos st) \<and> (\<forall>l \<in> fst ` set ls. \<not> pos_less (last_pos st') (log_pos l))"
proof (induction rule: live_run.induct)
  case (run_step st ls st1 e l st2)
  have "\<not> pos_less (last_pos st2) (last_pos st1)" "\<not> pos_less (last_pos st2) (log_pos l)"
    using live_step_pos [OF run_step.hyps(2)] pos_less_trans pos_less_irrefl by (metis, metis)
  then show ?case using run_step.IH pos_not_less_trans by fastforce
qed simp

text \<open>
  a position takes effect once. In a run of the live loop a log at or before the position of one
  that came earlier changes no user position and no index. This makes redelivered logs harmless; it
  also drops the replacement of a log that a chain reorganisation removed.
\<close>

theorem later_log_at_old_position_ignored:
  assumes "live_run kc st ls st1" and "(m, e') \<in> set ls" and "live_step kc e l st1 st2"
    and "\<not> pos_less (log_pos m) (log_pos l)"
  shows "userPositions (rp_store st2) = userPositions (rp_store st1) \<and>
    globalIndices (rp_store st2) = globalIndices (rp_store st1)"
proof -
  have "m \<in> fst ` set ls" using assms(2) by force
  then have "\<not> pos_less (last_pos st1) (log_pos m)" using live_run_pos [OF assms(1)] by blast
  then have "\<not> pos_less (last_pos st1) (log_pos l)" using assms(4) pos_not_less_trans by blast
  note dup = this
  have i: "globalIndices (SetCurrentBlock b s) = globalIndices s" for b s by (simp add: SetCurrentBlock_def)
  from assms(3) show ?thesis
    by (cases rule: live_step.cases) (simp add: live_log_def live_core_def Let_def duplicate_iff dup i)
qed

theorem later_log_at_old_position_ignored_witness:
  "\<exists>st. live_step toy_keccak False toy_supply toy_after st \<and>
     userPositions (rp_store st) = userPositions (rp_store toy_after)"
proof -
  have "finite_state toy_replay" by (simp add: finite_state_def toy_replay_def subs_raw_def NewStateStore_def)
  then obtain st where s: "live_step toy_keccak False toy_supply toy_after st"
    using live_step_exists finite_live_run [OF toy_run] by blast
  show ?thesis
    using later_log_at_old_position_ignored [OF toy_run _ s, of toy_supply True] s by auto
qed

end
