(* ===== verification/ReplaySync.thy ===== *)
theory ReplaySync
  imports Replay
begin

text \<open>
  The first half of \<open>LogReplayEngine.Start\<close>: the newest block, the historic logs in chunks, their sort
  and their replay, and what the hand-over to the live stream guarantees.
\<close>

section \<open>Fetching and sorting the historic logs\<close>

text \<open>
  \<open>fetchHistoricLogs\<close> asks for ten blocks at a time. \<open>getLogs a b\<close> is the decoded answer for the
  blocks from \<open>a\<close> to \<open>b\<close> (\<open>None\<close> for a failed request, which ends the function with an error). The
  counter is a \<open>uint64\<close> and the loop may wrap, so the model is partial: \<open>None\<close> is not returning.
\<close>

definition chunkSize :: u64 where "chunkSize = 10"

partial_function (option) fetch_loop ::
    "(u64 \<Rightarrow> u64 \<Rightarrow> rpc_log list option) \<Rightarrow> u64 \<Rightarrow> u64 \<Rightarrow> rpc_log list \<Rightarrow> rpc_log list option option" where
  "fetch_loop getLogs toBlock currentFrom allLogs =
     (if currentFrom \<le> toBlock then
        let upper = currentFrom + chunkSize - 1;
            currentTo = (if upper > toBlock then toBlock else upper)
        in case getLogs currentFrom currentTo of
             None \<Rightarrow> Some None
           | Some logs \<Rightarrow> fetch_loop getLogs toBlock (currentFrom + chunkSize) (allLogs @ logs)
      else Some (Some allLogs))"

definition fetchHistoricLogs ::
    "(u64 \<Rightarrow> u64 \<Rightarrow> rpc_log list option) \<Rightarrow> u64 \<Rightarrow> u64 \<Rightarrow> rpc_log list option option" where
  "fetchHistoricLogs getLogs fromBlock toBlock = fetch_loop getLogs toBlock fromBlock []"

definition log_key :: "rpc_log \<Rightarrow> nat" where
  "log_key l = unat (log_block l) * 2 ^ 64 + unat (log_idx l)"

definition sort_logs :: "rpc_log list \<Rightarrow> rpc_log list" where
  "sort_logs = sort_key log_key"

lemma log_key_less: "log_key l < log_key m \<longleftrightarrow> pos_less (log_pos l) (log_pos m)"
proof -
  have a: "a * N + b < c * N + d \<longleftrightarrow> a < c \<or> a = c \<and> b < d" if "b < N" "d < N" for a b c d N :: nat
  proof (cases a c rule: linorder_cases)
    case less
    then have "(a + 1) * N \<le> c * N" by (intro mult_right_mono) simp_all
    then have "a * N + b < c * N + d" using that by simp
    then show ?thesis using less by simp
  next
    case greater
    then have "(c + 1) * N \<le> a * N" by (intro mult_right_mono) simp_all
    then have "\<not> a * N + b < c * N + d" using that by simp
    then show ?thesis using greater by simp
  qed simp
  show ?thesis unfolding log_key_def pos_less_def log_pos_def fst_conv snd_conv
    using a [of "unat (log_idx l)" "2 ^ 64" "unat (log_idx m)"] unsigned_less [of "log_idx l"] unsigned_less [of "log_idx m"]
    by simp
qed

lemma sort_logs_sorted: "sorted_wrt (\<lambda>a b. \<not> log_less b a) (sort_logs ls)"
proof -
  have "sorted (map log_key (sort_logs ls))" by (simp add: sort_logs_def)
  then have "sorted_wrt (\<lambda>a b. log_key a \<le> log_key b) (sort_logs ls)" by (simp add: sorted_wrt_map)
  then show ?thesis by (rule sorted_wrt_mono_rel [rotated]) (simp add: log_less_pos log_key_less [symmetric])
qed

text \<open>With distinct positions every sorted arrangement, whatever the algorithm, is this one.\<close>

lemma sort_logs_unique:
  assumes "mset ys = mset ls" and "sorted_wrt (\<lambda>a b. \<not> log_less b a) ys" and "distinct (map log_pos ls)"
  shows "ys = sort_logs ls"
proof -
  have inj: "log_pos a = log_pos b" if "log_key a = log_key b" for a b
  proof -
    have "\<not> pos_less (log_pos a) (log_pos b)" "\<not> pos_less (log_pos b) (log_pos a)"
      using that log_key_less [of a b] log_key_less [of b a] by simp_all
    then show ?thesis using pos_less_linear by blast
  qed
  have d: "inj_on log_key (set ls)" using assms(3) inj unfolding distinct_map inj_on_def by blast
  have "sorted_wrt (\<lambda>a b. log_key a \<le> log_key b) ys"
    using assms(2) by (rule sorted_wrt_mono_rel [rotated]) (simp add: log_less_pos log_key_less [symmetric])
  then have "sorted (map log_key ys)" by (simp add: sorted_wrt_map)
  then show ?thesis using sort_key_inj_key_eq [OF assms(1) [symmetric] d] by (simp add: sort_logs_def)
qed

text \<open>A list that is in order stays as it is.\<close>

lemma sort_logs_id: "sorted (map log_key ls) \<Longrightarrow> sort_logs ls = ls"
  unfolding sort_logs_def by (rule properties_for_sort_key) simp_all

lemma log_key_block_less: "log_block l < log_block m \<Longrightarrow> log_key l < log_key m"
  by (simp add: log_key_less log_pos_def pos_less_def word_less_nat_alt)

lemma sorted_block_logs:
  assumes "\<And>n l. l \<in> set (logs_of n) \<Longrightarrow> unat (log_block l) = n"
    and "\<And>n. sorted (map (\<lambda>l. unat (log_idx l)) (logs_of n))"
  shows "sorted (map log_key (concat (map logs_of [i..<j])))"
proof (induction j)
  case (Suc j)
  have "sorted (map log_key (logs_of j))"
    using assms(2) [of j] assms(1) [of _ j] by (simp add: sorted_map log_key_def sorted_wrt_iff_nth_less)
  moreover have "log_key l \<le> log_key m" if l: "l \<in> set (logs_of n)" and "n < j" and m: "m \<in> set (logs_of j)" for l m n
  proof -
    have "log_block l < log_block m" using assms(1) [OF l] assms(1) [OF m] that(2) by (simp add: word_less_nat_alt)
    then show ?thesis using log_key_block_less less_imp_le by blast
  qed
  ultimately show ?case using Suc by (auto simp: sorted_append)
qed simp

text \<open>\<open>fetchLatestBlock\<close>: the raw JSON result of \<open>eth_blockNumber\<close>, if the call succeeded.\<close>

definition fetchLatestBlock :: "string option \<Rightarrow> u64 option" where
  "fetchLatestBlock rawResult =
     (case rawResult of None \<Rightarrow> None | Some raw \<Rightarrow>
      case json_string raw of None \<Rightarrow> None | Some resultHex \<Rightarrow>
      case ParseUint (TrimPrefix resultHex ''0x'') 16 of (None, blockNum) \<Rightarrow> Some blockNum | (Some _, _) \<Rightarrow> None)"

text \<open>
  \<open>Start\<close> up to the live loop, once the subscription is active: \<open>oF i\<close> and \<open>oS i\<close> are the visiting
  orders of the i-th log. The outer option is the termination of the fetch, the inner one the error return.
\<close>

definition start_sync ::
    "keccak \<Rightarrow> (u64 \<Rightarrow> u64 \<Rightarrow> rpc_log list option) \<Rightarrow> string option \<Rightarrow> (nat \<Rightarrow> string list) \<Rightarrow>
     (nat \<Rightarrow> string \<Rightarrow> string list) \<Rightarrow> string list \<Rightarrow> replay \<Rightarrow> replay option option" where
  "start_sync kc getLogs latest oF oS ordF st =
     (case fetchLatestBlock latest of
        None \<Rightarrow> Some None
      | Some bWs \<Rightarrow>
          (case fetchHistoricLogs getLogs (anchorBlock (rp_store st) + 1) bWs of
             None \<Rightarrow> None
           | Some None \<Rightarrow> Some None
           | Some (Some historicLogs) \<Rightarrow>
               Some (Some (catch_up kc (map (\<lambda>(i, l). (l, oF i, oS i)) (enumerate 0 (sort_logs historicLogs))) ordF bWs st))))"

text \<open>A node that knows the logs of every block.\<close>

definition serves :: "(u64 \<Rightarrow> u64 \<Rightarrow> rpc_log list option) \<Rightarrow> (nat \<Rightarrow> rpc_log list) \<Rightarrow> bool" where
  "serves getLogs logs_of \<longleftrightarrow> (\<forall>a b. a \<le> b \<longrightarrow> getLogs a b = Some (concat (map logs_of [unat a..<Suc (unat b)])))"

lemma upt_split: "a \<le> b \<Longrightarrow> b \<le> c \<Longrightarrow> [a..<b] @ [b..<c] = [a..<c]"
  using upt_add_eq_append [of a b "c - b"] by simp

lemma fetch_loop_covers:
  assumes "serves getLogs logs_of" and "unat toBlock + 10 < 2 ^ 64"
  shows "unat cur \<le> unat toBlock + 10 \<Longrightarrow>
    fetch_loop getLogs toBlock cur acc = Some (Some (acc @ concat (map logs_of [unat cur..<Suc (unat toBlock)])))"
proof (induction "Suc (unat toBlock) - unat cur" arbitrary: cur acc rule: less_induct)
  case less
  show ?case
  proof (cases "cur \<le> toBlock")
    case False
    then show ?thesis by (simp add: fetch_loop.simps word_le_nat_alt)
  next
    case True
    define cto where "cto = (if cur + chunkSize - 1 > toBlock then toBlock else cur + chunkSize - 1)"
    have le: "unat cur \<le> unat toBlock" using True by (simp add: word_le_nat_alt)
    have u10: "unat (cur + chunkSize) = unat cur + 10"
      using le assms(2) by (simp add: chunkSize_def unat_word_ariths)
    have "cur + chunkSize - 1 = cur + 9" by (simp add: chunkSize_def)
    moreover have "unat (cur + 9) = unat cur + 9" using le assms(2) by (simp add: unat_word_ariths)
    ultimately have "unat (cur + chunkSize - 1) = unat cur + 9" by (simp only:)
    then have cto: "unat cto = min (unat toBlock) (unat cur + 9)"
      by (auto simp: cto_def word_less_nat_alt)
    have "cur \<le> cto" using le by (simp add: word_le_nat_alt cto)
    then have ans: "getLogs cur cto = Some (concat (map logs_of [unat cur..<Suc (unat cto)]))"
      using assms(1) by (simp add: serves_def)
    have "fetch_loop getLogs toBlock cur acc =
        fetch_loop getLogs toBlock (cur + chunkSize) (acc @ concat (map logs_of [unat cur..<Suc (unat cto)]))"
      using True ans by (subst fetch_loop.simps) (simp add: Let_def cto_def [symmetric] cong: if_cong)
    also have "\<dots> = Some (Some ((acc @ concat (map logs_of [unat cur..<Suc (unat cto)])) @
        concat (map logs_of [unat (cur + chunkSize)..<Suc (unat toBlock)])))"
      by (rule less.hyps) (use le u10 in simp_all)
    also have "[unat cur..<Suc (unat cto)] @ [unat (cur + chunkSize)..<Suc (unat toBlock)] = [unat cur..<Suc (unat toBlock)]"
    proof (cases "unat toBlock \<le> unat cur + 9")
      case False
      then have "Suc (unat cto) = unat (cur + chunkSize)" by (simp add: cto u10)
      moreover have "unat (cur + chunkSize) \<le> Suc (unat toBlock)" "unat cur \<le> unat (cur + chunkSize)"
        using False by (simp_all add: u10)
      ultimately show ?thesis by (simp only: upt_split)
    qed (simp add: cto u10)
    then have "(acc @ concat (map logs_of [unat cur..<Suc (unat cto)])) @
        concat (map logs_of [unat (cur + chunkSize)..<Suc (unat toBlock)]) =
        acc @ concat (map logs_of [unat cur..<Suc (unat toBlock)])"
      by (metis append_assoc concat_append map_append)
    finally show ?thesis .
  qed
qed

lemma fetchHistoricLogs_covers:
  assumes "serves getLogs logs_of" and "unat toBlock + 10 < 2 ^ 64"
  shows "fetchHistoricLogs getLogs fromBlock toBlock =
    Some (Some (concat (map logs_of [unat fromBlock..<Suc (unat toBlock)])))"
proof (cases "unat fromBlock \<le> unat toBlock + 10")
  case True
  then show ?thesis using fetch_loop_covers [OF assms] by (simp add: fetchHistoricLogs_def)
next
  case False
  then show ?thesis by (simp add: fetchHistoricLogs_def fetch_loop.simps word_le_nat_alt)
qed

text \<open>
  C21: fetching the history terminates and misses no block. For every end below the last eleven values
  of \<open>uint64\<close> and a node that serves the logs of each block, the loop over chunks of ten returns the
  logs of all blocks of the range, each block exactly once and in order.
\<close>

theorem fetch_covers_range:
  assumes "serves getLogs logs_of" and "unat toBlock + 10 < 2 ^ 64"
  shows "fetchHistoricLogs getLogs fromBlock toBlock =
    Some (Some (concat (map logs_of [unat fromBlock..<Suc (unat toBlock)])))"
  by (rule fetchHistoricLogs_covers [OF assms])

theorem fetch_covers_range_witness:
  "fetchHistoricLogs (\<lambda>a b. Some (concat (map (\<lambda>n. if n = 7 then [toy_supply] else []) [unat a..<Suc (unat b)]))) 5 25 =
     Some (Some [toy_supply])"
proof -
  let ?f = "\<lambda>n. if n = 7 then [toy_supply] else []"
  have s: "serves (\<lambda>a b. Some (concat (map ?f [unat a..<Suc (unat b)]))) ?f" by (simp add: serves_def)
  have c: "concat (map ?f [unat (5 :: u64)..<Suc (unat (25 :: u64))]) = [toy_supply]" by (simp add: upt_rec)
  have "unat (25 :: u64) + 10 < 2 ^ 64" by simp
  from fetch_covers_range [OF s this, of 5] show ?thesis unfolding c .
qed

section \<open>The hand-over from history to the live stream\<close>

lemma historic_log_pos [simp]: "last_pos (historic_log kc oF oS l st) = log_pos l"
  by (simp add: historic_log_def)

lemma fold_historic_pos:
  "last_pos (fold (\<lambda>(l, oF, oS). historic_log kc oF oS l) events st) =
     (if events = [] then last_pos st else log_pos (fst (last events)))"
  by (induction events arbitrary: st) (auto split: prod.splits)

lemma pos_not_less:
  "\<not> pos_less (log_pos m) (log_pos l) \<longleftrightarrow> log_block l < log_block m \<or> log_block l = log_block m \<and> log_idx l \<le> log_idx m"
proof -
  have "log_block l = log_block m \<longleftrightarrow> unat (log_block l) = unat (log_block m)" by (rule word_unat_eq_iff)
  then show ?thesis by (simp only: pos_less_def log_pos_def fst_conv snd_conv word_less_nat_alt word_le_nat_alt) linarith
qed

lemma last_event_max:
  assumes "sorted_wrt (\<lambda>a b. \<not> log_less (fst b) (fst a)) events" and "l \<in> fst ` set events"
  shows "\<not> pos_less (log_pos (fst (last events))) (log_pos l)"
proof -
  obtain xs e where e: "events = xs @ [e]" using assms(2) by (cases events rule: rev_cases) auto
  then have "l = fst e \<or> l \<in> fst ` set xs" using assms(2) by auto
  then show ?thesis using assms(1) e by (auto simp: sorted_wrt_append log_less_pos pos_less_def)
qed

text \<open>The cursor after the history: the newest log of the block \<open>bWs\<close>, or its first place.\<close>

lemma catch_up_pos:
  assumes "sorted_wrt (\<lambda>a b. \<not> log_less (fst b) (fst a)) events"
    and "\<And>e. e \<in> fst ` set events \<Longrightarrow> log_block e \<le> bWs"
    and "lastProcessedBlock st = 0" and "lastProcessedLogIndex st = 0"
  shows "last_pos (catch_up kc events ordF bWs st) =
    (if \<exists>e \<in> fst ` set events. log_block e = bWs then log_pos (fst (last events)) else (unat bWs, 0))"
proof -
  let ?st1 = "flushDirtyUsers ordF (fold (\<lambda>(l, oF, oS). historic_log kc oF oS l) events st)"
  have p1: "last_pos ?st1 = (if events = [] then (0, 0) else log_pos (fst (last events)))"
    using assms(3,4) by (simp add: fold_historic_pos) (simp add: last_pos_def)
  have p2: "last_pos (catch_up kc events ordF bWs st) =
      (if fst (last_pos ?st1) < unat bWs then (unat bWs, 0) else last_pos ?st1)"
    by (simp add: catch_up_def Let_def last_pos_def mark_processed_def word_less_nat_alt)
  show ?thesis
  proof (cases "events = []")
    case True
    then show ?thesis using p1 p2 by simp
  next
    case False
    let ?m = "fst (last events)"
    have m: "?m \<in> fst ` set events" using False by simp
    then have le: "unat (log_block ?m) \<le> unat bWs" using assms(2) by (simp add: word_le_nat_alt)
    have "unat (log_block e) \<le> unat (log_block ?m)" if "e \<in> fst ` set events" for e
      using last_event_max [OF assms(1) that] by (auto simp: pos_less_def log_pos_def)
    then have "(\<exists>e \<in> fst ` set events. log_block e = bWs) \<longleftrightarrow> log_block ?m = bWs"
      using m le by (metis le_antisym word_unat_eq_iff)
    moreover have "fst (last_pos ?st1) = unat (log_block ?m)" using False p1 by (simp add: log_pos_def)
    ultimately show ?thesis using p1 p2 False le by (auto simp: word_unat_eq_iff)
  qed
qed

text \<open>When the stream takes a log for a duplicate.\<close>

lemma handover_duplicate:
  assumes "sorted_wrt (\<lambda>a b. \<not> log_less (fst b) (fst a)) events"
    and "\<And>e. e \<in> fst ` set events \<Longrightarrow> log_block e \<le> bWs"
    and "lastProcessedBlock st = 0" and "lastProcessedLogIndex st = 0"
  shows "isDuplicate (catch_up kc events ordF bWs st) (log_block l) (log_idx l) \<longleftrightarrow>
    log_block l < bWs \<or> log_block l = bWs \<and>
      (log_idx l = 0 \<or> (\<exists>e \<in> fst ` set events. log_block e = bWs \<and> log_idx l \<le> log_idx e))"
proof (cases "\<exists>e \<in> fst ` set events. log_block e = bWs")
  case True
  let ?m = "fst (last events)"
  have m: "?m \<in> fst ` set events" using True by (cases events) auto
  obtain e where e: "e \<in> fst ` set events" "log_block e = bWs" using True by blast
  have max: "\<not> pos_less (log_pos ?m) (log_pos x)" if "x \<in> fst ` set events" for x
    using last_event_max [OF assms(1) that] .
  have mb: "log_block ?m = bWs"
    using max [OF e(1)] assms(2) [OF m] e(2) by (auto simp: pos_not_less)
  have max_idx: "log_idx x \<le> log_idx ?m" if "x \<in> fst ` set events" "log_block x = bWs" for x
    using max [OF that(1)] that(2) mb by (simp add: pos_not_less)
  have "(\<exists>e \<in> fst ` set events. log_block e = bWs \<and> log_idx l \<le> log_idx e) \<longleftrightarrow> log_idx l \<le> log_idx ?m"
    (is "?L \<longleftrightarrow> ?R")
  proof (intro iffI)
    assume ?L
    then obtain x where x: "x \<in> fst ` set events" "log_block x = bWs" "log_idx l \<le> log_idx x" by blast
    show ?R using x(3) max_idx [OF x(1,2)] by (rule order_trans)
  next
    assume ?R
    then show ?L using m mb by (intro bexI [of _ ?m]) simp_all
  qed
  then have "(log_idx l = 0 \<or> (\<exists>e \<in> fst ` set events. log_block e = bWs \<and> log_idx l \<le> log_idx e)) \<longleftrightarrow> log_idx l \<le> log_idx ?m"
    by auto
  moreover have "isDuplicate (catch_up kc events ordF bWs st) (log_block l) (log_idx l) \<longleftrightarrow> \<not> pos_less (log_pos ?m) (log_pos l)"
    using True by (simp add: duplicate_iff catch_up_pos [OF assms])
  moreover have "\<not> pos_less (log_pos ?m) (log_pos l) \<longleftrightarrow> log_block l < bWs \<or> log_block l = bWs \<and> log_idx l \<le> log_idx ?m"
    unfolding mb [symmetric] pos_not_less ..
  ultimately show ?thesis by blast
next
  case False
  then have "isDuplicate (catch_up kc events ordF bWs st) (log_block l) (log_idx l) \<longleftrightarrow> \<not> pos_less (unat bWs, 0) (log_pos l)"
    by (simp add: duplicate_iff catch_up_pos [OF assms])
  moreover have "\<not> pos_less (unat bWs, 0) (log_pos l) \<longleftrightarrow> log_block l < bWs \<or> log_block l = bWs \<and> log_idx l = 0"
  proof -
    have "log_block l = bWs \<longleftrightarrow> unat (log_block l) = unat bWs" by (rule word_unat_eq_iff)
    moreover have "log_idx l = 0 \<longleftrightarrow> unat (log_idx l) = 0" by (simp add: unat_eq_0)
    ultimately show ?thesis by (simp only: pos_less_def log_pos_def fst_conv snd_conv word_less_nat_alt) linarith
  qed
  ultimately show ?thesis using False by blast
qed

text \<open>
  C20: what the live stream accepts after the history. The sorted history up to block \<open>bWs\<close> has been replayed
  from a fresh engine. Then a log is dropped exactly when it is older than \<open>bWs\<close>, or in \<open>bWs\<close> at the index 0 or at
  an index up to that of a log of \<open>bWs\<close> in the history. So if the history holds all logs \<open>C\<close> of the chain since
  the anchor up to \<open>bWs\<close>, a log of \<open>C\<close> is dropped exactly when it has been applied. (If it does not, as when the
  node that answered lags behind, the logs it missed below \<open>bWs\<close> and the one at index 0 are lost.)
\<close>

theorem handover_exactly_once:
  assumes "sorted_wrt (\<lambda>a b. \<not> log_less (fst b) (fst a)) events"
    and "\<And>e. e \<in> fst ` set events \<Longrightarrow> log_block e \<le> bWs"
    and "lastProcessedBlock st = 0" and "lastProcessedLogIndex st = 0"
  shows "(isDuplicate (catch_up kc events ordF bWs st) (log_block l) (log_idx l) \<longleftrightarrow>
      log_block l < bWs \<or> log_block l = bWs \<and>
        (log_idx l = 0 \<or> (\<exists>e \<in> fst ` set events. log_block e = bWs \<and> log_idx l \<le> log_idx e))) \<and>
    ((\<forall>c \<in> C. log_block c \<le> bWs \<longrightarrow> c \<in> fst ` set events) \<and> l \<in> C \<longrightarrow>
      (isDuplicate (catch_up kc events ordF bWs st) (log_block l) (log_idx l) \<longleftrightarrow> l \<in> fst ` set events))"
  using handover_duplicate [OF assms, where kc = kc and ordF = ordF and l = l] assms(2) [of l]
  by (auto simp: order_le_less)

text \<open>After a history with one log of block 7, up to block 9: that log and place 0 of block 9 are taken, place 1 is free.\<close>

theorem handover_exactly_once_witness:
  "let st = catch_up toy_keccak [(toy_supply, [], \<lambda>_. [])] [''0x0b''] 9 (toy_replay\<lparr>lastProcessedBlock := 0\<rparr>) in
     isDuplicate st 7 1 \<and> isDuplicate st 9 0 \<and> \<not> isDuplicate st 9 1"
proof -
  let ?st = "catch_up toy_keccak [(toy_supply, [], \<lambda>_. [])] [''0x0b''] 9 (toy_replay\<lparr>lastProcessedBlock := 0\<rparr>)"
  let ?l = "\<lambda>b i. toy_supply\<lparr>log_BlockNumber := b, log_LogIndex := i\<rparr>"
  have p: "log_block toy_supply = 7" "log_idx toy_supply = 1" by code_simp+
  have q: "log_block (?l ''0x9'' ''0x0'') = 9" "log_idx (?l ''0x9'' ''0x0'') = 0"
    "log_block (?l ''0x9'' ''0x1'') = 9" "log_idx (?l ''0x9'' ''0x1'') = 1" by code_simp+
  have z: "lastProcessedBlock (toy_replay\<lparr>lastProcessedBlock := 0\<rparr>) = 0" "lastProcessedLogIndex (toy_replay\<lparr>lastProcessedBlock := 0\<rparr>) = 0" by (simp_all add: toy_replay_def)
  have d: "isDuplicate ?st (log_block l) (log_idx l) \<longleftrightarrow> log_block l < 9 \<or> log_block l = 9 \<and> log_idx l = 0" for l
    using handover_exactly_once [of "[(toy_supply, [], \<lambda>_. [])]" 9 "toy_replay\<lparr>lastProcessedBlock := 0\<rparr>" toy_keccak "[''0x0b'']" l "{}"] p z by simp
  show ?thesis
    using d [of toy_supply] d [of "?l ''0x9'' ''0x0''"] d [of "?l ''0x9'' ''0x1''"] unfolding p q by (simp add: Let_def)
qed

end
