(* ===== verification/Oracle.thy ===== *)
theory Oracle
  imports Multicall RiskEngine
begin

text \<open>
  \<open>internal/oracle/oracle.go\<close>: the price feeder. One heartbeat reads the prices of all assets in one
  call, stores those that differ and hands the holders of these assets to the risk engine.
\<close>

section \<open>The heartbeat\<close>

text \<open>The functions of go-ethereum the feeder calls; \<open>None\<close> is their error.\<close>

record oracle_abi =
  oa_HexToAddress :: "string \<Rightarrow> address"
  pack_getAssetsPrices :: "address list \<Rightarrow> u8 list option"
  unpack_getAssetsPrices :: "u8 list \<Rightarrow> int list option"

record oracle_feeder =
  oracleAddress :: string
  targetAssets :: "string list"

definition NewOracleFeeder :: "string \<Rightarrow> string list \<Rightarrow> oracle_feeder" where
  "NewOracleFeeder addr assets = \<lparr>oracleAddress = ToLower addr, targetAssets = assets\<rparr>"

text \<open>One asset: the store and the list \<open>changedAssets\<close>.\<close>

definition price_step :: "string \<times> int \<Rightarrow> state_store \<times> string list \<Rightarrow> state_store \<times> string list" where
  "price_step = (\<lambda>(asset, newPrice) (s, changedAssets).
     if GetAssetPrice s asset = Some newPrice then (s, changedAssets)
     else (SetAssetPrice asset newPrice s, changedAssets @ [asset]))"

definition store_prices :: "string list \<Rightarrow> int list \<Rightarrow> state_store \<Rightarrow> state_store \<times> string list" where
  "store_prices assets newPrices s = fold price_step (zip assets newPrices) (s, [])"

definition fetchPrices :: "oracle_abi \<Rightarrow> eth_port \<Rightarrow> oracle_feeder \<Rightarrow> int list option" where
  "fetchPrices abi port feeder =
     (case pack_getAssetsPrices abi (map (oa_HexToAddress abi) (targetAssets feeder)) of None \<Rightarrow> None | Some calldata \<Rightarrow>
      case eth_call_bytes port (oracleAddress feeder) calldata ''latest'' of None \<Rightarrow> None | Some returnData \<Rightarrow>
        unpack_getAssetsPrices abi returnData)"

text \<open>
  The result is whether the heartbeat succeeded, the store and the task queue; \<open>ords\<close> gives the order
  in which the subscribers of an asset are visited.
\<close>

definition fetchAndStorePrices ::
    "(string \<Rightarrow> string list) \<Rightarrow> oracle_abi \<Rightarrow> eth_port \<Rightarrow> oracle_feeder \<Rightarrow> state_store \<Rightarrow> string list \<Rightarrow>
     bool \<times> state_store \<times> string list" where
  "fetchAndStorePrices ords abi port feeder s queue =
     (case fetchPrices abi port feeder of
        None \<Rightarrow> (False, s, queue)
      | Some newPrices \<Rightarrow>
          let (s', changedAssets) = store_prices (targetAssets feeder) newPrices s in
          (True, s', fold (\<lambda>asset. EnqueueByAsset (ords asset) s' asset) changedAssets queue))"

section \<open>What a heartbeat changes\<close>

lemma price_steps:
  assumes "distinct (map (ToLower \<circ> fst) aps)"
  shows "fold price_step aps (s, ch) =
    (fold (\<lambda>(a, p). SetAssetPrice a p) (filter (\<lambda>(a, p). GetAssetPrice s a \<noteq> Some p) aps) s,
     ch @ map fst (filter (\<lambda>(a, p). GetAssetPrice s a \<noteq> Some p) aps))"
  using assms
proof (induction aps arbitrary: s ch)
  case (Cons ap aps)
  obtain a p where ap: "ap = (a, p)" by (cases ap)
  have same: "filter (\<lambda>(b, q). GetAssetPrice (SetAssetPrice a p s) b \<noteq> Some q) aps = filter (\<lambda>(b, q). GetAssetPrice s b \<noteq> Some q) aps"
  proof (intro filter_cong refl)
    fix bq assume "bq \<in> set aps"
    then have "ToLower (fst bq) \<noteq> ToLower a" using Cons.prems ap by (auto simp: image_iff)
    then show "(case bq of (b, q) \<Rightarrow> GetAssetPrice (SetAssetPrice a p s) b \<noteq> Some q) =
        (case bq of (b, q) \<Rightarrow> GetAssetPrice s b \<noteq> Some q)"
      by (cases bq) (simp add: price_cells.get_put)
  qed
  show ?case using Cons ap same by (auto simp: price_step_def)
qed simp

lemma prices_after:
  assumes "distinct (map (ToLower \<circ> fst) aps)"
  shows "(a, p) \<in> set aps \<Longrightarrow> GetAssetPrice (fst (fold price_step aps (s, ch))) a = Some p"
    and "ToLower b \<notin> ToLower ` set (map fst aps) \<Longrightarrow> GetAssetPrice (fst (fold price_step aps (s, ch))) b = GetAssetPrice s b"
proof -
  let ?new = "filter (\<lambda>(a, p). GetAssetPrice s a \<noteq> Some p) aps"
  have d: "distinct (map (ToLower \<circ> fst) ?new)" using assms by (simp add: distinct_map_filter)
  show "GetAssetPrice (fst (fold price_step aps (s, ch))) a = Some p" if "(a, p) \<in> set aps"
  proof (cases "GetAssetPrice s a = Some p")
    case True
    have "ToLower a \<notin> ToLower ` set (map fst ?new)"
    proof
      assume "ToLower a \<in> ToLower ` set (map fst ?new)"
      then obtain b q where b: "(b, q) \<in> set aps" "GetAssetPrice s b \<noteq> Some q" "ToLower b = ToLower a" by auto
      then have "(b, q) = (a, p)" using that assms inj_onD [of "ToLower \<circ> fst" "set aps" "(b, q)" "(a, p)"]
        by (auto simp: distinct_map)
      with b True show False by simp
    qed
    then show ?thesis using True by (simp add: price_steps [OF assms] price_cells.get_fold_put_other)
  next
    case False
    then show ?thesis using price_cells.get_fold_put [OF d, of a p s] that by (simp add: price_steps [OF assms])
  qed
  show "GetAssetPrice (fst (fold price_step aps (s, ch))) b = GetAssetPrice s b"
    if "ToLower b \<notin> ToLower ` set (map fst aps)"
  proof -
    have "ToLower b \<notin> ToLower ` set (map fst ?new)" using that by (auto simp: image_iff)
    then show ?thesis by (simp add: price_steps [OF assms] price_cells.get_fold_put_other)
  qed
qed

text \<open>
  the stored prices are the oracle's. After a heartbeat that got a price for each target asset, every
  target asset has its new price and every other asset its old one, and the assets reported as changed
  are exactly, in order, those whose price was missing or different.
\<close>

theorem heartbeat_prices:
  assumes "length newPrices = length assets" and "distinct (map ToLower assets)"
    and "store_prices assets newPrices s = (s', changed)"
  shows "(\<forall>i < length assets. GetAssetPrice s' (assets ! i) = Some (newPrices ! i)) \<and>
    (\<forall>b. ToLower b \<notin> ToLower ` set assets \<longrightarrow> GetAssetPrice s' b = GetAssetPrice s b) \<and>
    changed = map fst (filter (\<lambda>(a, p). GetAssetPrice s a \<noteq> Some p) (zip assets newPrices))"
proof -
  let ?aps = "zip assets newPrices"
  have "map (ToLower \<circ> fst) ?aps = map ToLower assets" using assms(1) by (metis list.map_comp map_fst_zip)
  then have d: "distinct (map (ToLower \<circ> fst) ?aps)" using assms(2) by simp
  have s': "s' = fst (fold price_step ?aps (s, []))" and c: "changed = snd (fold price_step ?aps (s, []))"
    using assms(3) by (simp_all add: store_prices_def)
  have "(assets ! i, newPrices ! i) \<in> set ?aps" if "i < length assets" for i
    using that assms(1) by (auto simp: set_zip)
  moreover have "changed = map fst (filter (\<lambda>(a, p). GetAssetPrice s a \<noteq> Some p) ?aps)"
    by (simp add: c price_steps [OF d])
  ultimately show ?thesis
    unfolding s' using prices_after [OF d] assms(1) by (intro conjI allI impI) simp_all
qed

theorem heartbeat_prices_witness:
  "\<exists>s'. store_prices [''0xA'', ''0xB''] [5, 6] (SetAssetPrice ''0xa'' 5 NewStateStore) = (s', [''0xB'']) \<and>
     GetAssetPrice s' ''0xA'' = Some 5 \<and> GetAssetPrice s' ''0xb'' = Some 6"
proof -
  let ?s = "SetAssetPrice ''0xa'' 5 NewStateStore"
  obtain s' changed where e: "store_prices [''0xA'', ''0xB''] [5, 6] ?s = (s', changed)" by fastforce
  have d: "distinct (map ToLower [''0xA'', ''0xB''])" by code_simp
  have l: "ToLower ''0xb'' = ToLower ''0xB''" by code_simp
  have c: "map fst (filter (\<lambda>(a, p). GetAssetPrice ?s a \<noteq> Some p) (zip [''0xA'', ''0xB''] [5, 6])) = [''0xB'']"
    by code_simp
  have "GetAssetPrice s' ''0xb'' = GetAssetPrice s' ''0xB''" by (simp add: GetAssetPrice_def l)
  then show ?thesis
    using heartbeat_prices [OF _ d e] e unfolding c by (auto simp: less_Suc_eq numeral_2_eq_2)
qed

section \<open>Who is told\<close>

lemma fold_Enqueue_in:
  "u \<in> set us \<Longrightarrow> length (fold Enqueue us q) < taskQueueSize \<Longrightarrow> u \<in> set (fold Enqueue us q)"
  and fold_Enqueue_keeps: "x \<in> set q \<Longrightarrow> x \<in> set (fold Enqueue us q)"
  and fold_Enqueue_grows: "length q \<le> length (fold Enqueue us q)"
proof -
  have keeps: "x \<in> set q \<Longrightarrow> x \<in> set (fold Enqueue us q)" for x us q
    by (induction us arbitrary: q) (auto simp: Enqueue_def)
  have grows: "length q \<le> length (fold Enqueue us q)" for us q
  proof (induction us arbitrary: q)
    case (Cons v us)
    have "length q \<le> length (Enqueue v q)" by (simp add: Enqueue_def)
    also have "\<dots> \<le> length (fold Enqueue us (Enqueue v q))" by (rule Cons)
    finally show ?case by simp
  qed simp
  show "x \<in> set q \<Longrightarrow> x \<in> set (fold Enqueue us q)" by (rule keeps)
  show "length q \<le> length (fold Enqueue us q)" by (rule grows)
  show "u \<in> set us \<Longrightarrow> length (fold Enqueue us q) < taskQueueSize \<Longrightarrow> u \<in> set (fold Enqueue us q)"
  proof (induction us arbitrary: q)
    case (Cons v us)
    show ?case
    proof (cases "u = v")
      case True
      have "length q < taskQueueSize"
        using Cons.prems(2) grows [of q "v # us"] by linarith
      then have "u \<in> set (Enqueue v q)" using True by (simp add: Enqueue_def)
      then show ?thesis using keeps by simp
    qed (use Cons in simp)
  qed simp
qed

lemma EnqueueByAsset_fold:
  "fold (\<lambda>asset. EnqueueByAsset (ords asset) s asset) as q = fold Enqueue (concat (map (\<lambda>a. GetSubscribers (ords a) s a) as)) q"
  by (induction as arbitrary: q) (simp_all add: EnqueueByAsset_def)

lemma store_prices_reachable:
  "store_reachable s \<Longrightarrow> store_reachable (fst (fold price_step aps (s, ch)))"
proof (induction aps arbitrary: s ch)
  case (Cons ap aps)
  obtain a p where "ap = (a, p)" by (cases ap)
  then show ?case using Cons sr_step [OF Cons.prems st_price] by (simp add: price_step_def)
qed simp

lemma price_step_frame:
  "reserve_at (fst (fold price_step aps (s, ch))) = reserve_at s \<and>
   subscribers (fst (fold price_step aps (s, ch))) = subscribers s"
proof (induction aps arbitrary: s ch)
  case (Cons ap aps)
  obtain a p where "ap = (a, p)" by (cases ap)
  then show ?case using Cons by (simp add: price_step_def subscribers_raw store_simps fun_eq_iff)
qed simp

lemma heartbeat_enqueues:
  assumes "fetchPrices abi port feeder = Some newPrices"
    and "distinct (map ToLower (targetAssets feeder))" and "length newPrices = length (targetAssets feeder)"
    and "\<And>a. a \<in> set (targetAssets feeder) \<Longrightarrow> enumerates (ords a) (subscribers s a)"
    and "fetchAndStorePrices ords abi port feeder s queue = (True, s', queue')"
    and "i < length newPrices" and "GetAssetPrice s (targetAssets feeder ! i) \<noteq> Some (newPrices ! i)"
    and "u \<in> subscribers s (targetAssets feeder ! i)" and "length queue' < 50000"
  shows "u \<in> set queue'"
proof -
  let ?as = "targetAssets feeder" and ?aps = "zip (targetAssets feeder) newPrices"
  obtain changed where st: "store_prices ?as newPrices s = (s', changed)"
    and q: "queue' = fold Enqueue (concat (map (\<lambda>a. GetSubscribers (ords a) s' a) changed)) queue"
    using assms(1,5) by (auto simp: fetchAndStorePrices_def EnqueueByAsset_fold split: prod.splits)
  have "map (ToLower \<circ> fst) ?aps = map ToLower ?as" using assms(3) by (metis list.map_comp map_fst_zip)
  then have d: "distinct (map (ToLower \<circ> fst) ?aps)" using assms(2) by simp
  have s': "s' = fst (fold price_step ?aps (s, []))" and c: "changed = snd (fold price_step ?aps (s, []))"
    using st by (simp_all add: store_prices_def)
  have "(?as ! i, newPrices ! i) \<in> set ?aps" using assms(3,6) by (auto simp: set_zip)
  then have ch: "?as ! i \<in> set changed" using assms(7) by (force simp: c price_steps [OF d])
  have "enumerates (ords (?as ! i)) (subscribers s (?as ! i))" using assms(3,4,6) by simp
  then have "u \<in> set (GetSubscribers (ords (?as ! i)) s' (?as ! i))"
    using price_step_frame [of ?aps s "[]"] assms(8) by (simp add: s' enumerated_subscribers enumerates_set)
  then have "u \<in> set (concat (map (\<lambda>a. GetSubscribers (ords a) s' a) changed))" using ch by auto
  then show ?thesis using fold_Enqueue_in assms(9) unfolding q by (simp add: taskQueueSize_def)
qed

text \<open>
  a price change reaches every holder. In a state built by the store's methods, after a successful
  heartbeat each user with an entry for an asset whose price was missing or different is in the task
  queue, in whatever order the subscribers are visited, unless the queue filled up.
\<close>

theorem price_change_reaches_holders:
  assumes "store_reachable s" and "fetchPrices abi port feeder = Some newPrices"
    and "distinct (map ToLower (targetAssets feeder))" and "length newPrices = length (targetAssets feeder)"
    and "\<And>a. a \<in> set (targetAssets feeder) \<Longrightarrow> enumerates (ords a) (subscribers s a)"
    and "fetchAndStorePrices ords abi port feeder s queue = (True, s', queue')"
    and "i < length newPrices" and "GetAssetPrice s (targetAssets feeder ! i) \<noteq> Some (newPrices ! i)"
    and "reserve_at s u (ToLower (targetAssets feeder ! i)) \<noteq> None"
    and "length queue' < 50000"
  shows "u \<in> set queue'"
proof -
  have "u \<in> subscribers s (targetAssets feeder ! i)"
    using subs_complete_reachable [OF assms(1)] assms(9) by (simp add: subs_complete_def subscribers_raw)
  then show ?thesis using heartbeat_enqueues [OF assms(2-8)] assms(10) by simp
qed

definition toy_oracle :: oracle_abi where
  "toy_oracle = \<lparr>oa_HexToAddress = (\<lambda>_. 0), pack_getAssetsPrices = (\<lambda>_. Some []), unpack_getAssetsPrices = (\<lambda>_. Some [7])\<rparr>"

definition toy_oracle_port :: eth_port where
  "toy_oracle_port = \<lparr>eth_call = (\<lambda>_ _ _. Some [CHR 0x22, CHR 0x22]), hex_Decode = (\<lambda>_. Some [])\<rparr>"

theorem price_change_reaches_holders_witness:
  "\<exists>s' queue'. fetchAndStorePrices (\<lambda>_. [''u'']) toy_oracle toy_oracle_port (NewOracleFeeder ''0xO'' [''a''])
     (GetUserReserve ''u'' ''a'' NewStateStore) [] = (True, s', queue') \<and> ''u'' \<in> set queue'"
proof -
  let ?s = "GetUserReserve ''u'' ''a'' NewStateStore" and ?o = "NewOracleFeeder ''0xO'' [''a'']"
  let ?r = "fetchAndStorePrices (\<lambda>_. [''u'']) toy_oracle toy_oracle_port ?o ?s []"
  have r: "store_reachable ?s" using sr_step [OF sr_new st_get] .
  have p: "fetchPrices toy_oracle toy_oracle_port ?o = Some [7]" by code_simp
  have t: "targetAssets ?o = [''a'']" by (simp add: NewOracleFeeder_def)
  have l: "ToLower ''u'' = ''u''" "ToLower ''a'' = ''a''" by code_simp+
  have sub: "subscribers ?s ''a'' = {''u''}"
    by (simp add: subscribers_raw store_simps l) (simp add: subs_raw_def NewStateStore_def reserve_at_def)
  have e: "\<And>a. a \<in> set (targetAssets ?o) \<Longrightarrow> enumerates [''u''] (subscribers ?s a)"
    by (simp add: t sub enumerates_def)
  have "fst ?r" by code_simp
  then obtain s' q where f: "?r = (True, s', q)" by (cases ?r) auto
  have len: "length (snd (snd ?r)) < 50000 \<and> GetAssetPrice ?s ''a'' = None" by code_simp
  have h: "reserve_at ?s ''u'' (ToLower ''a'') \<noteq> None" by (simp add: store_simps l)
  have "''u'' \<in> set q"
    by (rule price_change_reaches_holders [OF r p _ _ e f, of 0]) (use len f h in \<open>simp_all add: t\<close>)
  then show ?thesis using f by blast
qed

end
