(* ===== verification/GraphClient.thy ===== *)
theory GraphClient
  imports Models
begin

text \<open>
  \<open>internal/rpc/graph_client.go\<close>: paging through The Graph. The network is a parameter: the reply to
  the \<open>n\<close>-th request of a caller. Each of the sixteen goroutines of \<open>GetAllUsersAtBlock\<close> makes its own
  requests; the order in which they report is an argument.
\<close>

section \<open>Requests\<close>

text \<open>
  What \<open>doQuery\<close> and \<open>json.Unmarshal\<close> make of a response: a transport error or a status other than 200,
  a body that is not the expected JSON, a body with GraphQL errors, or a page of users.
\<close>

datatype graph_reply = QueryError | BadJson | GraphErrors | Users "graph_user list"

text \<open>A query is made with \<open>lastId\<close>, \<open>prefixLt\<close> and \<open>limit\<close>; the first argument counts the requests.\<close>

type_synonym graph_server = "nat \<Rightarrow> string \<Rightarrow> string \<Rightarrow> nat \<Rightarrow> graph_reply"

definition graphRetries :: nat where "graphRetries = 3"

fun query_retry :: "nat \<Rightarrow> (nat \<Rightarrow> graph_reply) \<Rightarrow> nat \<Rightarrow> graph_reply \<times> nat" where
  "query_retry 0 q n = (QueryError, n)"
| "query_retry (Suc k) q n =
     (case q n of QueryError \<Rightarrow> query_retry k q (n + 1) | r \<Rightarrow> (r, n + 1))"

section \<open>One partition\<close>

text \<open>
  The loop ends with an empty page. \<open>None\<close> is a loop that never ends; otherwise the users or \<open>None\<close> for
  an error, with the number of requests made.
\<close>

partial_function (option) partition_loop ::
    "graph_server \<Rightarrow> string \<Rightarrow> nat \<Rightarrow> nat \<Rightarrow> string \<Rightarrow> graph_user list \<Rightarrow> (graph_user list option \<times> nat) option" where
  "partition_loop query prefixLt limit n lastID allPartitionUsers =
     (case query_retry graphRetries (\<lambda>k. query k lastID prefixLt limit) n of
        (Users users, n') \<Rightarrow>
          if users = [] then Some (Some allPartitionUsers, n')
          else partition_loop query prefixLt limit n' (g_ID (last users)) (allPartitionUsers @ users)
      | (_, n') \<Rightarrow> Some (None, n'))"

definition fetchUserPartition ::
    "graph_server \<Rightarrow> string \<Rightarrow> string \<Rightarrow> nat \<Rightarrow> graph_user list option option" where
  "fetchUserPartition query prefixGt prefixLt limit =
     map_option fst (partition_loop query prefixLt limit 0 prefixGt [])"

section \<open>All partitions\<close>

definition partitions :: "(string \<times> string) list" where
  "partitions =
     [(''0x0'', ''0x1''), (''0x1'', ''0x2''), (''0x2'', ''0x3''), (''0x3'', ''0x4''),
      (''0x4'', ''0x5''), (''0x5'', ''0x6''), (''0x6'', ''0x7''), (''0x7'', ''0x8''),
      (''0x8'', ''0x9''), (''0x9'', ''0xa''), (''0xa'', ''0xb''), (''0xb'', ''0xc''),
      (''0xc'', ''0xd''), (''0xd'', ''0xe''), (''0xe'', ''0xf''),
      (''0xf'', ''0xffffffffffffffffffffffffffffffffffffffff'')]"

definition limitPerPage :: nat where "limitPerPage = 1000"

text \<open>
  The collecting loop. An event is the report of a partition or \<open>None\<close> when the caller's context ends,
  which returns at once; an error is remembered until all partitions have reported.
\<close>

fun collect_users ::
    "(nat \<Rightarrow> graph_user list option) \<Rightarrow> nat option list \<Rightarrow> graph_user list \<Rightarrow> bool \<Rightarrow> graph_user list option" where
  "collect_users res [] allUsers failed = (if failed then None else Some allUsers)"
| "collect_users res (None # es) allUsers failed = None"
| "collect_users res (Some p # es) allUsers failed =
     (case res p of
        None \<Rightarrow> collect_users res es allUsers True
      | Some users \<Rightarrow> collect_users res es (allUsers @ users) failed)"

text \<open>A partition whose loop never ends never reports, and the function waits for it (\<open>None\<close>).\<close>

definition GetAllUsersAtBlock ::
    "(nat \<Rightarrow> graph_server) \<Rightarrow> nat option list \<Rightarrow> graph_user list option option" where
  "GetAllUsersAtBlock query events =
     (let run = (\<lambda>p. fetchUserPartition (query p) (fst (partitions ! p)) (snd (partitions ! p)) limitPerPage) in
      if \<exists>p \<in> set (List.map_filter id events). run p = None then None
      else Some (collect_users (\<lambda>p. the (run p)) events [] False))"

text \<open>\<open>GetAnchorBlock\<close>: the block number in the decoded response; a missing number reads 0, an error.\<close>

definition GetAnchorBlock :: "u64 option \<Rightarrow> u64 option" where
  "GetAnchorBlock response = (case response of None \<Rightarrow> None | Some b \<Rightarrow> if b = 0 then None else Some b)"

section \<open>Paging visits everybody\<close>

text \<open>The users with an id strictly between two strings, and the subgraph as The Graph documents it.\<close>

definition between :: "string \<Rightarrow> string \<Rightarrow> graph_user list \<Rightarrow> graph_user list" where
  "between lo hi db = filter (\<lambda>u. str_less lo (g_ID u) \<and> str_less (g_ID u) hi) db"

definition by_id :: "graph_user list \<Rightarrow> bool" where
  "by_id db \<longleftrightarrow> sorted_wrt (\<lambda>u v. str_less (g_ID u) (g_ID v)) db"

text \<open>
  Of any three consecutive requests one is answered, the ones before it fail in transport, and the
  answer is the first \<open>limit\<close> users after \<open>lastId\<close> and below \<open>prefixLt\<close> in the order of the ids.
\<close>

definition answers_within :: "nat \<Rightarrow> (nat \<Rightarrow> graph_reply) \<Rightarrow> graph_reply \<Rightarrow> nat \<Rightarrow> bool" where
  "answers_within k q r n \<longleftrightarrow> (\<exists>j < k. q (n + j) = r \<and> (\<forall>i < j. q (n + i) = QueryError))"

definition serves_users :: "graph_server \<Rightarrow> graph_user list \<Rightarrow> bool" where
  "serves_users query db \<longleftrightarrow> by_id db \<and>
     (\<forall>n lastId lt limit. answers_within 3 (\<lambda>k. query k lastId lt limit) (Users (take limit (between lastId lt db))) n)"

lemma query_retry_answers:
  assumes "answers_within k q (Users us) n"
  shows "\<exists>n'. query_retry k q n = (Users us, n')"
  using assms
proof (induction k arbitrary: n)
  case (Suc k)
  obtain j where j: "j < Suc k" "q (n + j) = Users us" "\<forall>i < j. q (n + i) = QueryError"
    using Suc.prems by (auto simp: answers_within_def)
  show ?case
  proof (cases j)
    case 0
    then show ?thesis using j by simp
  next
    case (Suc j')
    have "answers_within k q (Users us) (n + 1)"
      unfolding answers_within_def using j Suc by (intro exI [of _ j']) auto
    moreover have "q n = QueryError" using j(3) Suc by (metis add.right_neutral zero_less_Suc)
    ultimately show ?thesis using Suc.IH by simp
  qed
qed (simp add: answers_within_def)

lemma by_id_filter: "by_id db \<Longrightarrow> by_id (filter P db)"
  unfolding by_id_def by (rule sorted_wrt_filter)

lemma by_id_distinct: "by_id db \<Longrightarrow> distinct (map g_ID db)"
  unfolding by_id_def by (induction db) auto

lemma drop_page:
  assumes "by_id us" and "0 < m" and "us \<noteq> []"
  shows "filter (\<lambda>u. str_less (g_ID (last (take m us))) (g_ID u)) us = drop m us"
proof -
  let ?y = "last (take m us)"
  have ne: "take m us \<noteq> []" using assms(2,3) by simp
  have s: "sorted_wrt (\<lambda>u v. str_less (g_ID u) (g_ID v)) (take m us @ drop m us)"
    using assms(1) by (simp add: by_id_def)
  have "\<not> str_less (g_ID ?y) (g_ID u)" if "u \<in> set (take m us)" for u
  proof -
    have "sorted_wrt (\<lambda>u v. str_less (g_ID u) (g_ID v)) (butlast (take m us) @ [?y])"
      using s ne by (simp add: sorted_wrt_append)
    moreover have "u \<in> set (butlast (take m us)) \<or> u = ?y"
      using that append_butlast_last_id [OF ne] by (metis Un_iff empty_iff empty_set set_ConsD set_append)
    ultimately show ?thesis by (auto simp: sorted_wrt_append dest: str_less_asym)
  qed
  then have "filter (\<lambda>u. str_less (g_ID ?y) (g_ID u)) (take m us) = []" by (simp add: filter_empty_conv)
  moreover have "filter (\<lambda>u. str_less (g_ID ?y) (g_ID u)) (drop m us) = drop m us"
    using s last_in_set [OF ne] unfolding sorted_wrt_append filter_id_conv by blast
  ultimately show ?thesis by (metis append_Nil append_take_drop_id filter_append)
qed

lemma between_next:
  assumes "by_id db" and "0 < m" and "between lo hi db \<noteq> []"
  shows "between (g_ID (last (take m (between lo hi db)))) hi db = drop m (between lo hi db)"
proof -
  let ?y = "last (take m (between lo hi db))"
  have "take m (between lo hi db) \<noteq> []" using assms by simp
  then have "?y \<in> set (between lo hi db)" by (meson in_set_takeD last_in_set)
  then have "str_less lo (g_ID ?y)" by (simp add: between_def)
  then have "between (g_ID ?y) hi db = filter (\<lambda>u. str_less (g_ID ?y) (g_ID u)) (between lo hi db)"
    unfolding between_def filter_filter by (intro filter_cong) (auto dest: str_less_trans)
  then show ?thesis
    using drop_page [of "between lo hi db" m] assms by_id_filter [OF assms(1)] by (simp add: between_def)
qed

lemma partition_loop_complete:
  assumes "serves_users query db" and "0 < limit"
  shows "\<exists>n'. partition_loop query hi limit n lo acc = Some (Some (acc @ between lo hi db), n')"
proof (induction "length (between lo hi db)" arbitrary: n lo acc rule: less_induct)
  case less
  let ?b = "between lo hi db" and ?page = "take limit (between lo hi db)"
  obtain n' where q: "query_retry graphRetries (\<lambda>k. query k lo hi limit) n = (Users ?page, n')"
    using query_retry_answers [of 3 "\<lambda>k. query k lo hi limit" ?page n] assms(1)
    by (auto simp: serves_users_def graphRetries_def)
  show ?case
  proof (cases "?b = []")
    case True
    then show ?thesis using q by (subst partition_loop.simps) simp
  next
    case False
    then have ne: "?page \<noteq> []" using assms(2) by simp
    have db: "by_id db" using assms(1) by (simp add: serves_users_def)
    have next_: "between (g_ID (last ?page)) hi db = drop limit ?b" using between_next [OF db assms(2) False] .
    then have "length (between (g_ID (last ?page)) hi db) < length ?b" using False assms(2) by simp
    then obtain n'' where "partition_loop query hi limit n' (g_ID (last ?page)) (acc @ ?page) =
        Some (Some ((acc @ ?page) @ drop limit ?b), n'')"
      using less next_ by metis
    then show ?thesis using q ne by (subst partition_loop.simps) simp
  qed
qed

text \<open>
  C22: paging terminates and returns the whole partition. For a subgraph that answers at least every third
  request, the loop ends, whatever the page size, and returns every user with an id strictly between
  the two bounds exactly once and in order.
\<close>

theorem partition_complete:
  assumes "serves_users query db" and "0 < limit"
  shows "fetchUserPartition query gt lt limit = Some (Some (between gt lt db))"
  using partition_loop_complete [OF assms, of lt 0 gt "[]"] by (auto simp: fetchUserPartition_def)

section \<open>The sixteen partitions cover the addresses\<close>

definition is_address :: "string \<Rightarrow> bool" where
  "is_address s \<longleftrightarrow> take 2 s = ''0x'' \<and> length s = 42 \<and> set (drop 2 s) \<subseteq> hex_char ` {..<16}"

definition top_address :: string where
  "top_address = ''0x'' @ replicate 40 (CHR ''f'')"

lemma hex_char_less: "a < 16 \<Longrightarrow> b < 16 \<Longrightarrow> (of_char (hex_char a) :: nat) < of_char (hex_char b) \<longleftrightarrow> a < b"
  by (auto simp: of_char_hex_char)

lemma hex_char_inj: "a < 16 \<Longrightarrow> b < 16 \<Longrightarrow> hex_char a = hex_char b \<longleftrightarrow> a = b"
  by (metis digit_val_hex_char option.inject)

lemma hex_char_15: "hex_char 15 = CHR ''f''"
  by code_simp

lemma str_less_top: "set s \<subseteq> hex_char ` {..<16} \<Longrightarrow> length s = n \<Longrightarrow>
  str_less s (replicate n (hex_char 15)) \<longleftrightarrow> s \<noteq> replicate n (hex_char 15)"
proof (induction s arbitrary: n)
  case (Cons c s)
  then obtain d where d: "c = hex_char d" "d < 16" by auto
  then show ?case using Cons by (cases n) (auto simp: hex_char_less hex_char_inj)
qed simp

lemma partition_bounds:
  assumes "p < 16"
  shows "partitions ! p = (''0x'' @ [hex_char p], if p < 15 then ''0x'' @ [hex_char (p + 1)] else top_address)"
proof -
  have "list_all (\<lambda>p. partitions ! p = (''0x'' @ [hex_char p], if p < 15 then ''0x'' @ [hex_char (p + 1)] else top_address))
      [0..<16]" by code_simp
  then show ?thesis using assms by (simp add: list_all_iff)
qed

lemma address_partition:
  assumes a: "is_address s" and p: "p < 16"
  shows "str_less (fst (partitions ! p)) s \<and> str_less s (snd (partitions ! p)) \<longleftrightarrow>
    s \<noteq> top_address \<and> s ! 2 = hex_char p"
proof -
  define hs where "hs = drop 2 s"
  have "take 2 s @ drop 2 s = s" by (rule append_take_drop_id)
  then have s: "s = ''0x'' @ hs" "length hs = 40" "set hs \<subseteq> hex_char ` {..<16}"
    using a by (simp_all only: is_address_def hs_def length_drop)
  obtain h t where h: "hs = h # t" "length t = 39" using s(2) by (cases hs) auto
  then obtain d where d: "h = hex_char d" "d < 16" using s(3) by auto
  have t: "t \<noteq> []" using h(2) by auto
  have top: "s = top_address \<longleftrightarrow> hs = replicate 40 (hex_char 15)"
    by (simp add: s(1) top_address_def hex_char_15)
  have lo: "str_less (fst (partitions ! p)) s \<longleftrightarrow> p \<le> d"
    using p d t by (cases t) (auto simp: partition_bounds s(1) h(1) hex_char_less)
  have "str_less s (snd (partitions ! p)) \<longleftrightarrow> (if p < 15 then d \<le> p else s \<noteq> top_address)"
  proof (cases "p < 15")
    case True
    then show ?thesis using d t by (auto simp: partition_bounds s(1) h(1) hex_char_less)
  next
    case False
    then show ?thesis using str_less_top [OF s(3,2)] top p
      by (simp add: partition_bounds top_address_def s(1) hex_char_15)
  qed
  moreover have "s ! 2 = hex_char p \<longleftrightarrow> d = p" using d p by (simp add: s(1) h(1) hex_char_inj)
  moreover have "p < 15 \<Longrightarrow> d = p \<Longrightarrow> s \<noteq> top_address" using top d by (auto simp: h(1) hex_char_inj numeral_eq_Suc)
  ultimately show ?thesis using lo p d by (cases "p < 15") auto
qed

lemma mset_filter_disjoint:
  "(\<And>x. x \<in> set xs \<Longrightarrow> \<not> (P x \<and> Q x)) \<Longrightarrow> mset (filter P xs) + mset (filter Q xs) = mset (filter (\<lambda>x. P x \<or> Q x) xs)"
  by (induction xs) auto

lemma mset_concat_filters:
  assumes "distinct ps" and "\<And>u p q. u \<in> set xs \<Longrightarrow> p \<in> set ps \<Longrightarrow> q \<in> set ps \<Longrightarrow> Q p u \<Longrightarrow> Q q u \<Longrightarrow> p = q"
  shows "mset (concat (map (\<lambda>p. filter (Q p) xs) ps)) = mset (filter (\<lambda>u. \<exists>p \<in> set ps. Q p u) xs)"
  using assms
proof (induction ps)
  case (Cons p ps)
  have "mset (filter (Q p) xs) + mset (filter (\<lambda>u. \<exists>p \<in> set ps. Q p u) xs) =
      mset (filter (\<lambda>u. Q p u \<or> (\<exists>p \<in> set ps. Q p u)) xs)"
  proof (rule mset_filter_disjoint)
    fix u assume "u \<in> set xs"
    then show "\<not> (Q p u \<and> (\<exists>p \<in> set ps. Q p u))"
      using Cons.prems by (metis distinct.simps(2) list.set_intros(1,2))
  qed
  moreover have "mset (concat (map (\<lambda>p. filter (Q p) xs) ps)) = mset (filter (\<lambda>u. \<exists>p \<in> set ps. Q p u) xs)"
    using Cons.prems by (intro Cons.IH) auto
  ultimately show ?case by simp
qed simp

lemma collect_users_all:
  "(\<And>p. p \<in> set ps \<Longrightarrow> res p = Some (f p)) \<Longrightarrow>
   collect_users res (map Some ps) acc False = Some (acc @ concat (map f ps))"
  by (induction ps arbitrary: acc) auto

lemma map_filter_Some: "List.map_filter id (map Some ps) = ps"
  by (induction ps) (simp_all add: List.map_filter_simps)

lemma all_users:
  assumes "\<And>p. p < 16 \<Longrightarrow> serves_users (query p) db" and "\<And>u. u \<in> set db \<Longrightarrow> is_address (g_ID u)"
    and "mset order = mset [0..<16]"
  shows "\<exists>us. GetAllUsersAtBlock query (map Some order) = Some (Some us) \<and>
    mset us = mset (filter (\<lambda>u. g_ID u \<noteq> top_address) db)"
proof -
  have o: "distinct order" "set order = {..<16}"
    using assms(3) by (metis distinct_upt mset_eq_imp_distinct_iff) (metis assms(3) atLeast_upt set_mset_mset)
  let ?part = "\<lambda>p. between (fst (partitions ! p)) (snd (partitions ! p)) db"
  let ?Q = "\<lambda>p u. g_ID u \<noteq> top_address \<and> g_ID u ! 2 = hex_char p"
  have part: "?part p = filter (?Q p) db" if "p < 16" for p
    unfolding between_def using address_partition [OF assms(2) that] by (intro filter_cong) auto
  have run: "fetchUserPartition (query p) (fst (partitions ! p)) (snd (partitions ! p)) limitPerPage = Some (Some (?part p))"
    if "p < 16" for p
    using partition_loop_complete [OF assms(1) [OF that], of limitPerPage "snd (partitions ! p)" 0 "fst (partitions ! p)" "[]"]
    by (auto simp: fetchUserPartition_def limitPerPage_def)
  have all: "GetAllUsersAtBlock query (map Some order) = Some (Some (concat (map ?part order)))"
    using run o collect_users_all [of order "\<lambda>p. the (fetchUserPartition (query p) (fst (partitions ! p))
      (snd (partitions ! p)) limitPerPage)" ?part "[]"]
    by (simp add: GetAllUsersAtBlock_def map_filter_Some)
  have parts: "concat (map ?part order) = concat (map (\<lambda>p. filter (?Q p) db) order)"
    using part o by (intro arg_cong [where f = concat] map_cong) auto
  have once: "mset (concat (map (\<lambda>p. filter (?Q p) db) order)) = mset (filter (\<lambda>u. \<exists>p \<in> set order. ?Q p u) db)"
    using o by (intro mset_concat_filters) (auto simp: hex_char_inj)
  have top: "filter (\<lambda>u. \<exists>p \<in> set order. ?Q p u) db = filter (\<lambda>u. g_ID u \<noteq> top_address) db"
  proof (intro filter_cong refl)
    fix u assume "u \<in> set db"
    then have a: "is_address (g_ID u)" by (rule assms(2))
    have "drop 2 (g_ID u) ! 0 \<in> set (drop 2 (g_ID u))" using a by (intro nth_mem) (simp add: is_address_def)
    then have "g_ID u ! 2 \<in> hex_char ` {..<16}" using a by (auto simp: is_address_def)
    then show "(\<exists>p \<in> set order. ?Q p u) \<longleftrightarrow> g_ID u \<noteq> top_address" using o(2) by blast
  qed
  show ?thesis using all once unfolding parts top by blast
qed

text \<open>
  C34: the sixteen partitions together return every borrower once, except at the very top: whatever the
  order in which the goroutines report, \<open>GetAllUsersAtBlock\<close> returns each user of the subgraph with
  an address below \<open>0xff...f\<close> exactly once; a user with that last address is left out.
\<close>

theorem all_users_once:
  assumes "\<And>p. p < 16 \<Longrightarrow> serves_users (query p) db" and "\<And>u. u \<in> set db \<Longrightarrow> is_address (g_ID u)"
    and "mset order = mset [0..<16]"
  shows "\<exists>us. GetAllUsersAtBlock query (map Some order) = Some (Some us) \<and>
    mset us = mset (filter (\<lambda>u. g_ID u \<noteq> top_address) db)"
  by (rule all_users [OF assms])

definition toy_user :: "string \<Rightarrow> graph_user" where
  "toy_user i = \<lparr>g_ID = i, g_EModeCategoryId = None, g_Reserves = []\<rparr>"

definition toy_subgraph :: "graph_user list \<Rightarrow> graph_server" where
  "toy_subgraph db n lastId lt limit =
     (if n mod 3 = 1 then QueryError else Users (take limit (between lastId lt db)))"

lemma toy_serves: "by_id db \<Longrightarrow> serves_users (toy_subgraph db) db"
proof -
  have "answers_within 3 (\<lambda>k. toy_subgraph db k lastId lt limit) (Users (take limit (between lastId lt db))) n"
    for n lastId lt limit
  proof (cases "n mod 3 = 1")
    case True
    then have "(n + 1) mod 3 \<noteq> 1" by presburger
    then show ?thesis using True unfolding answers_within_def
      by (intro exI [of _ 1]) (simp add: toy_subgraph_def)
  next
    case False
    then show ?thesis unfolding answers_within_def by (intro exI [of _ 0]) (simp add: toy_subgraph_def)
  qed
  then show "by_id db \<Longrightarrow> ?thesis" by (simp add: serves_users_def)
qed

theorem partition_complete_witness:
  "fetchUserPartition (toy_subgraph [toy_user ''0x1'', toy_user ''0x12'', toy_user ''0x13'', toy_user ''0x2'']) ''0x1'' ''0x2'' 1 =
     Some (Some [toy_user ''0x12'', toy_user ''0x13''])"
proof -
  let ?db = "[toy_user ''0x1'', toy_user ''0x12'', toy_user ''0x13'', toy_user ''0x2'']"
  have "by_id ?db" by code_simp
  moreover have "between ''0x1'' ''0x2'' ?db = [toy_user ''0x12'', toy_user ''0x13'']" by code_simp
  ultimately show ?thesis using partition_complete [OF toy_serves, of ?db 1 "''0x1''" "''0x2''"] by simp
qed

definition low_address :: string where
  "low_address = ''0x'' @ replicate 39 (CHR ''0'') @ ''a''"

theorem all_users_once_witness:
  "\<exists>us. GetAllUsersAtBlock (\<lambda>_. toy_subgraph [toy_user low_address, toy_user top_address]) (map Some (rev [0..<16])) =
     Some (Some us) \<and> mset us = {#toy_user low_address#}"
proof -
  let ?db = "[toy_user low_address, toy_user top_address]"
  have b: "by_id ?db" by code_simp
  have "is_address low_address \<and> is_address top_address"
  proof -
    have "set (drop 2 low_address) = {hex_char 0, hex_char 10}" "set (drop 2 top_address) = {hex_char 15}" by code_simp+
    moreover have "take 2 low_address = ''0x'' \<and> length low_address = 42 \<and> take 2 top_address = ''0x'' \<and> length top_address = 42"
      by code_simp
    ultimately show ?thesis by (simp add: is_address_def)
  qed
  then have a: "\<And>u. u \<in> set ?db \<Longrightarrow> is_address (g_ID u)" by (auto simp: toy_user_def)
  have f: "filter (\<lambda>u. g_ID u \<noteq> top_address) ?db = [toy_user low_address]" by code_simp
  show ?thesis
    using all_users_once [of "\<lambda>_. toy_subgraph ?db" ?db "rev [0..<16]"] toy_serves [OF b] a unfolding f by simp
qed

end
