(* ===== verification/Ledger.thy ===== *)
theory Ledger
  imports Store
begin

text \<open>
  An abstract view of the state store: scaled balances, debts, collateral flags, known E-Modes and
  indices as plain functions. The bootstrapper and the log engine are both described by what they do
  to this ledger.
\<close>

section \<open>The view\<close>

text \<open>Scaled balances by user and asset (zero where there is no entry), indices and known E-Modes.\<close>

record ledger =
  lg_supplied :: "string \<Rightarrow> string \<Rightarrow> int"
  lg_debt :: "string \<Rightarrow> string \<Rightarrow> int"
  lg_collateral :: "string \<Rightarrow> string \<Rightarrow> bool"
  lg_emode :: "string \<Rightarrow> u8 option"
  lg_index :: "string \<rightharpoonup> global_index"

definition ledger_of :: "state_store \<Rightarrow> ledger" where
  "ledger_of s =
     \<lparr>lg_supplied = (\<lambda>u a. case reserve_at s u a of None \<Rightarrow> 0 | Some r \<Rightarrow> ScaledATokenBalance r),
      lg_debt = (\<lambda>u a. case reserve_at s u a of None \<Rightarrow> 0 | Some r \<Rightarrow> ScaledVariableDebt r),
      lg_collateral = (\<lambda>u a. case reserve_at s u a of None \<Rightarrow> False | Some r \<Rightarrow> UsageAsCollateralEnabledOnUser r),
      lg_emode = (\<lambda>u. case userPositions s u of None \<Rightarrow> None
         | Some p \<Rightarrow> if EModeFetched p then Some (EModeCategoryId p) else None),
      lg_index = globalIndices s\<rparr>"

definition at_entry :: "string \<Rightarrow> string \<Rightarrow> ('a \<Rightarrow> 'a) \<Rightarrow> (string \<Rightarrow> string \<Rightarrow> 'a) \<Rightarrow> string \<Rightarrow> string \<Rightarrow> 'a" where
  "at_entry u a f m = m(u := (m u)(a := f (m u a)))"

section \<open>The store operations on the ledger\<close>

lemma emode_frame:
  "lg_emode (ledger_of (GetUserReserve u a s)) = lg_emode (ledger_of s)"
  "lg_emode (ledger_of (update_reserve u a f s)) = lg_emode (ledger_of s)"
  "lg_emode (ledger_of (SetUserEMode u c s)) = (lg_emode (ledger_of s))(ToLower u \<mapsto> c)"
  by (auto simp: ledger_of_def fun_eq_iff GetUserReserve_def update_reserve_def SetUserEMode_def put_reserve_def
      subscribe_def ensure_position_def position_of_def new_position_def Let_def split: option.splits)

lemma index_frame:
  "globalIndices (GetUserReserve u a s) = globalIndices s"
  "globalIndices (update_reserve u a f s) = globalIndices s"
  "globalIndices (SetUserEMode u c s) = globalIndices s"
  by (auto simp: GetUserReserve_def update_reserve_def SetUserEMode_def put_reserve_def
      subscribe_def ensure_position_def Let_def split: option.splits)

lemma ledger_GetUserReserve [simp]: "ledger_of (GetUserReserve u a s) = ledger_of s"
proof -
  have "lg_emode (ledger_of (GetUserReserve u a s)) = lg_emode (ledger_of s)" by (rule emode_frame)
  then show ?thesis
    by (auto simp: ledger_of_def store_simps fun_eq_iff zero_reserve_def index_frame split: option.split)
qed

text \<open>A write through the pointer that \<open>GetUserReserve\<close> returned.\<close>

lemma ledger_write:
  fixes s u a
  defines "t \<equiv> GetUserReserve u a s"
  shows "ledger_of (update_reserve u a (\<lambda>r. r\<lparr>ScaledATokenBalance := g (ScaledATokenBalance r)\<rparr>) t) =
      (ledger_of s)\<lparr>lg_supplied := at_entry (ToLower u) (ToLower a) g (lg_supplied (ledger_of s))\<rparr>" (is ?A)
    and "ledger_of (update_reserve u a (\<lambda>r. r\<lparr>ScaledVariableDebt := g (ScaledVariableDebt r)\<rparr>) t) =
      (ledger_of s)\<lparr>lg_debt := at_entry (ToLower u) (ToLower a) g (lg_debt (ledger_of s))\<rparr>" (is ?B)
    and "ledger_of (update_reserve u a (\<lambda>r. r\<lparr>UsageAsCollateralEnabledOnUser := b\<rparr>) t) =
      (ledger_of s)\<lparr>lg_collateral := at_entry (ToLower u) (ToLower a) (\<lambda>_. b) (lg_collateral (ledger_of s))\<rparr>" (is ?C)
proof -
  have e: "lg_emode (ledger_of (update_reserve u a f t)) = lg_emode (ledger_of s)" for f
    by (simp add: t_def emode_frame)
  note simps = store_simps zero_reserve_def index_frame at_entry_def fun_eq_iff t_def
  show ?A using e [of "\<lambda>r. r\<lparr>ScaledATokenBalance := g (ScaledATokenBalance r)\<rparr>"]
    by (auto simp: ledger_of_def simps split: option.split)
  show ?B using e [of "\<lambda>r. r\<lparr>ScaledVariableDebt := g (ScaledVariableDebt r)\<rparr>"]
    by (auto simp: ledger_of_def simps split: option.split)
  show ?C using e [of "\<lambda>r. r\<lparr>UsageAsCollateralEnabledOnUser := b\<rparr>"]
    by (auto simp: ledger_of_def simps split: option.split)
qed

lemma ledger_SetUserEMode [simp]:
  "ledger_of (SetUserEMode u c s) = (ledger_of s)\<lparr>lg_emode := (lg_emode (ledger_of s))(ToLower u \<mapsto> c)\<rparr>"
  using emode_frame(3) [of u c s] by (auto simp: ledger_of_def store_simps index_frame fun_eq_iff)

lemma ledger_SetGlobalIndex [simp]:
  "ledger_of (SetGlobalIndex a i s) = (ledger_of s)\<lparr>lg_index := (lg_index (ledger_of s))(ToLower a \<mapsto> i)\<rparr>"
  by (simp add: ledger_of_def store_simps) (simp add: SetGlobalIndex_def)

lemma ledger_index: "GetGlobalIndex s (ParseHexAddress x) = lg_index (ledger_of s) (ParseHexAddress x)"
  by (simp add: GetGlobalIndex_def ledger_of_def)

end
