(* ===== verification/Bootstrap.thy ===== *)
theory Bootstrap
  imports GraphClient Ledger
begin

text \<open>
  \<open>internal/rpc/bootstrapper.go\<close>: the initial state, taken from The Graph and from one block of the
  chain. The four sources are a record of functions (\<open>None\<close> is an error, which ends the run with what
  was stored so far); the orders in which Go maps are visited are arguments.
\<close>

section \<open>Cleaning a balance\<close>

definition parseAndCleanBigInt :: "string \<Rightarrow> int" where
  "parseAndCleanBigInt value =
     (case big_SetString value 10 of
        None \<Rightarrow> 0
      | Some num \<Rightarrow> if num < 0 \<or> \<bar>num\<bar> \<le> DustThreshold then 0 else num)"

section \<open>The run\<close>

record boot_env =
  be_anchor :: "u64 option"
  be_reserves :: "string list \<Rightarrow> u64 \<Rightarrow> ((string \<rightharpoonup> global_index) \<times> (string \<rightharpoonup> asset_config)) option"
  be_users :: "u64 \<Rightarrow> graph_user list option"
  be_emodes :: "u8 list \<Rightarrow> u64 \<Rightarrow> (u8 \<rightharpoonup> emode_category) option outcome"

datatype boot_error = AnchorFailed | ReserveFetchFailed | UserFetchFailed | EModeFetchFailed

record boot_orders =
  bo_indices :: "string list"
  bo_configs :: "string list"
  bo_categories :: "u8 list"
  bo_fetched :: "u8 list"

definition store_reserves ::
    "boot_orders \<Rightarrow> (string \<rightharpoonup> global_index) \<times> (string \<rightharpoonup> asset_config) \<Rightarrow> state_store \<Rightarrow> state_store" where
  "store_reserves ords r s =
     fold (\<lambda>(asset, cfg). SetAssetConfig asset cfg) (visit (snd r) (bo_configs ords))
       (fold (\<lambda>(asset, idx). SetGlobalIndex asset idx) (visit (fst r) (bo_indices ords)) s)"

text \<open>The categories in use, as the set \<open>emodeCatSet\<close> and as the list made from it.\<close>

definition emode_cats :: "graph_user list \<Rightarrow> u8 set" where
  "emode_cats users = {c. c \<noteq> 0 \<and> c \<in> set (map GetEModeID users)}"

definition store_emodes ::
    "boot_env \<Rightarrow> boot_orders \<Rightarrow> u64 \<Rightarrow> graph_user list \<Rightarrow> state_store \<Rightarrow> state_store option outcome" where
  "store_emodes env ords anchor users s =
     (let catIds = filter (\<lambda>c. c \<in> emode_cats users) (bo_categories ords) in
      if catIds = [] then Inr (Some s)
      else bind_outcome (be_emodes env catIds anchor) (\<lambda>r. Inr (
        case r of None \<Rightarrow> None
        | Some emodeData \<Rightarrow> Some (fold (\<lambda>(cid, cat). SetEModeCategory cid cat) (visit emodeData (bo_fetched ords)) s))))"

definition clean_reserve :: "graph_reserve \<Rightarrow> user_reserve option" where
  "clean_reserve res =
     (let aTokenBal = parseAndCleanBigInt (g_ScaledATokenBalance res);
          varDebtBal = parseAndCleanBigInt (g_ScaledVariableDebt res) in
      if aTokenBal = 0 \<and> varDebtBal = 0 then None
      else Some \<lparr>AssetAddress = g_UnderlyingAsset res, ScaledATokenBalance = aTokenBal,
             ScaledVariableDebt = varDebtBal,
             UsageAsCollateralEnabledOnUser = g_UsageAsCollateralEnabledOnUser res\<rparr>)"

definition load_reserve :: "string \<Rightarrow> graph_reserve \<Rightarrow> state_store \<Rightarrow> state_store" where
  "load_reserve userID res s = (case clean_reserve res of None \<Rightarrow> s | Some r \<Rightarrow> UpsertUserReserve userID r s)"

definition load_user :: "graph_user \<Rightarrow> state_store \<Rightarrow> state_store" where
  "load_user u s = fold (load_reserve (g_ID u)) (g_Reserves u) (SetUserEMode (g_ID u) (GetEModeID u) s)"

definition Run :: "boot_env \<Rightarrow> boot_orders \<Rightarrow> string list \<Rightarrow> state_store \<Rightarrow> (boot_error option \<times> state_store) outcome" where
  "Run env ords targetAssets s =
     (case be_anchor env of None \<Rightarrow> Inr (Some AnchorFailed, s) | Some anchor \<Rightarrow>
      let s1 = SetAnchorBlock anchor s in
      case be_reserves env targetAssets anchor of None \<Rightarrow> Inr (Some ReserveFetchFailed, s1) | Some reserves \<Rightarrow>
      let s2 = store_reserves ords reserves s1 in
      case be_users env anchor of None \<Rightarrow> Inr (Some UserFetchFailed, s2) | Some users \<Rightarrow>
      bind_outcome (store_emodes env ords anchor users s2) (\<lambda>r. Inr (
        case r of None \<Rightarrow> (Some EModeFetchFailed, s2) | Some s3 \<Rightarrow> (None, fold load_user users s3))))"

section \<open>What the store holds afterwards\<close>

lemma parse_clean_range: "parseAndCleanBigInt v = 0 \<or> DustThreshold < parseAndCleanBigInt v"
  by (auto simp: parseAndCleanBigInt_def split: option.split)

text \<open>The entries of the snapshot, in the order they are stored; a later one for the same key wins.\<close>

definition reserve_entries :: "string \<Rightarrow> graph_reserve list \<Rightarrow> ((string \<times> string) \<times> user_reserve) list" where
  "reserve_entries userID rs =
     List.map_filter (\<lambda>res. map_option (\<lambda>r. ((ToLower userID, ToLower (AssetAddress r)), r)) (clean_reserve res)) rs"

definition graph_entries :: "graph_user list \<Rightarrow> ((string \<times> string) \<times> user_reserve) list" where
  "graph_entries users = concat (map (\<lambda>u. reserve_entries (g_ID u) (g_Reserves u)) users)"

definition graph_emodes :: "graph_user list \<Rightarrow> (string \<times> u8) list" where
  "graph_emodes users = map (\<lambda>u. (ToLower (g_ID u), GetEModeID u)) users"

definition reserve_map :: "state_store \<Rightarrow> string \<times> string \<Rightarrow> user_reserve option" where
  "reserve_map s = (\<lambda>(u, a). reserve_at s u a)"

lemma reserve_map_load_reserve:
  "reserve_map (load_reserve i res s) = reserve_map s ++ map_of (rev (reserve_entries i [res]))"
  by (auto simp: reserve_map_def load_reserve_def reserve_entries_def List.map_filter_simps store_simps fun_eq_iff
      split: option.split)

lemma reserve_entries_Cons: "reserve_entries i (r # rs) = reserve_entries i [r] @ reserve_entries i rs"
  by (simp add: reserve_entries_def List.map_filter_simps split: option.split)

lemma reserve_map_load_reserves:
  "reserve_map (fold (load_reserve i) rs s) = reserve_map s ++ map_of (rev (reserve_entries i rs))"
proof (induction rs arbitrary: s)
  case (Cons r rs)
  then show ?case
    by (subst reserve_entries_Cons) (simp add: reserve_map_load_reserve)
qed (simp add: reserve_entries_def List.map_filter_simps)

lemma reserve_map_load_users:
  "reserve_map (fold load_user users s) = reserve_map s ++ map_of (rev (graph_entries users))"
proof (induction users arbitrary: s)
  case (Cons u us)
  have "reserve_map (load_user u s) = reserve_map s ++ map_of (rev (reserve_entries (g_ID u) (g_Reserves u)))"
    by (simp add: load_user_def reserve_map_load_reserves) (simp add: reserve_map_def store_simps)
  then show ?case by (simp add: Cons.IH graph_entries_def)
qed (simp add: graph_entries_def)

lemma RunD:
  assumes "Run env ords assets s = Inr (None, t)"
  obtains b reserves users s3 where "be_anchor env = Some b" "be_reserves env assets b = Some reserves"
    "be_users env b = Some users" "store_emodes env ords b users (store_reserves ords reserves (SetAnchorBlock b s)) = Inr (Some s3)"
    "t = fold load_user users s3"
  using assms by (auto simp: Run_def Let_def bind_outcome_Inr_iff split: option.splits)

lemma fold_preserves: "(\<And>x s. P s \<Longrightarrow> P (f x s)) \<Longrightarrow> P s \<Longrightarrow> P (fold f xs s)"
  by (induction xs arbitrary: s) auto

lemma store_emodes_preserves:
  assumes "store_emodes env ords b users s = Inr (Some t)" and "P s" and "\<And>c e u. P u \<Longrightarrow> P (SetEModeCategory c e u)"
  shows "P t"
proof -
  have "P (fold (\<lambda>(cid, cat). SetEModeCategory cid cat) xs s)" for xs
    by (rule fold_preserves [where P = P]) (simp_all add: assms(2,3) split: prod.split)
  moreover have "t = s \<or> (\<exists>xs. t = fold (\<lambda>(cid, cat). SetEModeCategory cid cat) xs s)"
    using assms(1) by (auto simp: store_emodes_def Let_def bind_outcome_Inr_iff split: if_splits option.splits)
  ultimately show ?thesis using assms(2) by auto
qed

lemma store_reserves_preserves:
  assumes "P s" and "\<And>a i u. P u \<Longrightarrow> P (SetGlobalIndex a i u)" and "\<And>a c u. P u \<Longrightarrow> P (SetAssetConfig a c u)"
  shows "P (store_reserves ords r s)"
  unfolding store_reserves_def
  by (rule fold_preserves [where P = P], simp add: assms split: prod.split,
      rule fold_preserves [where P = P]) (simp_all add: assms split: prod.split)

lemma load_users_preserves:
  assumes "P s" and "\<And>u c s. P s \<Longrightarrow> P (SetUserEMode u c s)" and "\<And>u r s. P s \<Longrightarrow> P (UpsertUserReserve u r s)"
  shows "P (fold load_user users s)"
proof (rule fold_preserves [where P = P])
  fix u s assume "P s"
  show "P (load_user u s)"
    unfolding load_user_def
    by (rule fold_preserves [where P = P]) (simp_all add: load_reserve_def assms(2,3) \<open>P s\<close> split: option.split)
qed (rule assms(1))

text \<open>What the steps before the users keep: positions, and hence the reserves.\<close>

lemma config_frames:
  "userPositions (SetGlobalIndex a i s) = userPositions s" "userPositions (SetAssetConfig a c s) = userPositions s"
  "userPositions (SetEModeCategory k e s) = userPositions s" "userPositions (SetAnchorBlock b s) = userPositions s"
  by (simp_all add: SetGlobalIndex_def SetAssetConfig_def SetEModeCategory_def SetAnchorBlock_def Let_def)

lemma positions_before_users:
  assumes "store_emodes env ords b users (store_reserves ords r (SetAnchorBlock b s)) = Inr (Some s3)"
  shows "userPositions s3 = userPositions s"
  by (rule store_emodes_preserves [OF assms])
    (auto simp: config_frames intro!: store_reserves_preserves [where P = "\<lambda>t. userPositions t = userPositions s"])

definition known_emode :: "state_store \<Rightarrow> string \<Rightarrow> u8 option" where
  "known_emode s = lg_emode (ledger_of s)"

lemma known_emode_positions: "userPositions t = userPositions s \<Longrightarrow> known_emode t = known_emode s"
  by (simp add: known_emode_def ledger_of_def)

lemma known_emode_simps:
  "known_emode (SetUserEMode u c s) = (known_emode s)(ToLower u \<mapsto> c)"
  "known_emode (UpsertUserReserve u r s) = known_emode s"
  by (simp add: known_emode_def emode_frame)
    (auto simp: known_emode_def ledger_of_def fun_eq_iff UpsertUserReserve_def put_reserve_def subscribe_def
      ensure_position_def position_of_def new_position_def Let_def split: option.splits)

lemma known_emode_load_users:
  "known_emode (fold load_user users s) = known_emode s ++ map_of (rev (graph_emodes users))"
proof (induction users arbitrary: s)
  case (Cons u us)
  have "known_emode (fold (load_reserve i) rs t) = known_emode t" for i rs t
    by (rule fold_preserves) (auto simp: load_reserve_def known_emode_simps split: option.split)
  then have "known_emode (load_user u s) = (known_emode s)(ToLower (g_ID u) \<mapsto> GetEModeID u)"
    by (simp add: load_user_def known_emode_simps)
  then show ?case
    by (simp only: fold_Cons comp_apply Cons.IH graph_emodes_def list.map rev.simps map_of_append map_of.simps
        map_add_assoc map_add_upd map_add_empty fst_conv snd_conv)
qed (simp add: graph_emodes_def)

lemma clean_reserve_range:
  "clean_reserve res = Some r \<Longrightarrow> (ScaledATokenBalance r = 0 \<or> DustThreshold < ScaledATokenBalance r) \<and>
      (ScaledVariableDebt r = 0 \<or> DustThreshold < ScaledVariableDebt r)"
  using parse_clean_range [of "g_ScaledATokenBalance res"] parse_clean_range [of "g_ScaledVariableDebt res"]
  by (auto simp: clean_reserve_def Let_def split: if_splits)

lemma bootstrap_snapshot:
  assumes "Run env ords assets NewStateStore = Inr (None, t)"
    and "be_anchor env = Some b" and "be_users env b = Some users"
  shows "reserve_at t u a = map_of (rev (graph_entries users)) (u, a) \<and>
    lg_emode (ledger_of t) u = map_of (rev (graph_emodes users)) u \<and>
    (reserve_at t u a = Some r \<longrightarrow>
       (ScaledATokenBalance r = 0 \<or> DustThreshold < ScaledATokenBalance r) \<and>
       (ScaledVariableDebt r = 0 \<or> DustThreshold < ScaledVariableDebt r) \<and> u \<in> subs_raw t a)"
proof -
  obtain reserves s3 where
    e: "store_emodes env ords b users (store_reserves ords reserves (SetAnchorBlock b NewStateStore)) = Inr (Some s3)"
    and t: "t = fold load_user users s3"
    using RunD [OF assms(1)] assms(2,3) by (metis option.inject)
  have p: "userPositions s3 = userPositions NewStateStore" using positions_before_users [OF e] .
  have "reserve_map s3 = Map.empty" by (simp add: fun_eq_iff reserve_map_def reserve_at_def p NewStateStore_def)
  then have "reserve_map t = map_of (rev (graph_entries users))"
    using reserve_map_load_users [of users s3] by (simp only: t empty_map_add)
  then have r: "reserve_at t u a = map_of (rev (graph_entries users)) (u, a)"
    using fun_cong [where x = "(u, a)"] by (fastforce simp: reserve_map_def)
  have "known_emode s3 = Map.empty"
    using known_emode_positions [OF p] by (simp add: known_emode_def ledger_of_def NewStateStore_def)
  then have m: "lg_emode (ledger_of t) u = map_of (rev (graph_emodes users)) u"
    using known_emode_load_users [of users s3] by (simp add: t known_emode_def)
  have "store_reachable (SetAnchorBlock b NewStateStore)" by (intro sr_step [OF sr_new] store_step.intros)
  then have "store_reachable (store_reserves ords reserves (SetAnchorBlock b NewStateStore))"
    by (rule store_reserves_preserves) (blast intro: sr_step store_step.intros)+
  then have "store_reachable s3" by (rule store_emodes_preserves [OF e]) (blast intro: sr_step store_step.intros)
  then have "store_reachable t" unfolding t by (rule load_users_preserves) (blast intro: sr_step store_step.intros)+
  then have s: "reserve_at t u a \<noteq> None \<Longrightarrow> u \<in> subs_raw t a"
    using subs_complete_reachable by (auto simp: subs_complete_def)
  have "\<exists>res. clean_reserve res = Some r" if "r \<in> snd ` set (graph_entries users)"
    using that by (auto simp: graph_entries_def reserve_entries_def List.map_filter_def)
  moreover have "r \<in> snd ` set (graph_entries users)" if "reserve_at t u a = Some r"
    using that r by (auto dest!: map_of_SomeD intro!: rev_image_eqI)
  ultimately have "(ScaledATokenBalance r = 0 \<or> DustThreshold < ScaledATokenBalance r) \<and>
      (ScaledVariableDebt r = 0 \<or> DustThreshold < ScaledVariableDebt r)" if "reserve_at t u a = Some r"
    using that clean_reserve_range by blast
  then show ?thesis using r m s by auto
qed

text \<open>
  C25: the bootstrap loads exactly the snapshot. After a successful run on the empty store, a user has an
  entry for an asset exactly when the snapshot lists one whose cleaned balance or debt is not zero (the
  last such listing counts), with the cleaned amounts; the known E-Modes are those of the snapshot;
  every amount stored is zero or above the dust threshold; and every holder subscribes to its assets.
\<close>

theorem bootstrap_loads_snapshot:
  assumes "Run env ords assets NewStateStore = Inr (None, t)"
    and "be_anchor env = Some b" and "be_users env b = Some users"
  shows "reserve_at t u a = map_of (rev (graph_entries users)) (u, a) \<and>
    lg_emode (ledger_of t) u = map_of (rev (graph_emodes users)) u \<and>
    (reserve_at t u a = Some r \<longrightarrow>
       (ScaledATokenBalance r = 0 \<or> DustThreshold < ScaledATokenBalance r) \<and>
       (ScaledVariableDebt r = 0 \<or> DustThreshold < ScaledVariableDebt r) \<and> u \<in> subs_raw t a)"
  by (rule bootstrap_snapshot [OF assms])

definition toy_boot :: boot_env where
  "toy_boot = \<lparr>be_anchor = Some 7, be_reserves = (\<lambda>_ _. Some (Map.empty, Map.empty)),
     be_users = (\<lambda>_. Some [\<lparr>g_ID = ''0xU'', g_EModeCategoryId = Some ''1'',
       g_Reserves = [\<lparr>g_UnderlyingAsset = ''A'', g_ScaledATokenBalance = ''5000'', g_ScaledVariableDebt = ''3'',
         g_UsageAsCollateralEnabledOnUser = True\<rparr>]\<rparr>]),
     be_emodes = (\<lambda>_ _. Inr (Some Map.empty))\<rparr>"

definition toy_orders :: boot_orders where
  "toy_orders = \<lparr>bo_indices = [], bo_configs = [], bo_categories = [1], bo_fetched = []\<rparr>"

theorem bootstrap_loads_snapshot_witness:
  "\<exists>t. Run toy_boot toy_orders [] NewStateStore = Inr (None, t) \<and>
     map_option (\<lambda>r. (ScaledATokenBalance r, ScaledVariableDebt r)) (reserve_at t ''0xu'' ''a'') = Some (5000, 0) \<and>
     lg_emode (ledger_of t) ''0xu'' = Some 1"
proof -
  obtain users where u: "be_users toy_boot 7 = Some users" "be_anchor toy_boot = Some 7" by (simp add: toy_boot_def)
  obtain t where t: "Run toy_boot toy_orders [] NewStateStore = Inr (None, t)"
    by (simp add: Run_def toy_boot_def toy_orders_def Let_def store_emodes_def)
  have e: "map_option (\<lambda>r. (ScaledATokenBalance r, ScaledVariableDebt r))
      (map_of (rev (graph_entries (the (be_users toy_boot 7)))) (''0xu'', ''a'')) = Some (5000, 0)" by code_simp
  have m: "map_of (rev (graph_emodes (the (be_users toy_boot 7)))) ''0xu'' = Some 1" by code_simp
  show ?thesis
    using bootstrap_loads_snapshot [OF t u(2,1), of "''0xu''" "''a''"] t e m u by auto
qed

subsection \<open>Indices and configurations\<close>

text \<open>The three fields that the steps after the reserves leave alone.\<close>

definition reserve_fields :: "state_store \<Rightarrow> (string \<rightharpoonup> global_index) \<times> (string \<rightharpoonup> asset_config) \<times> u64" where
  "reserve_fields s = (globalIndices s, assetConfigs s, anchorBlock s)"

lemma reserve_fields_frame:
  "reserve_fields (SetUserEMode u c s) = reserve_fields s"
  "reserve_fields (UpsertUserReserve u r s) = reserve_fields s"
  "reserve_fields (SetEModeCategory k e s) = reserve_fields s"
  by (auto simp: reserve_fields_def SetUserEMode_def UpsertUserReserve_def SetEModeCategory_def put_reserve_def
      subscribe_def ensure_position_def Let_def split: option.splits)

lemma index_after_configs:
  "GetGlobalIndex (fold (\<lambda>(a, c). SetAssetConfig a c) kvs s) = GetGlobalIndex s"
  by (rule fold_preserves [where P = "\<lambda>t. GetGlobalIndex t = GetGlobalIndex s"])
    (auto simp: GetGlobalIndex_def SetAssetConfig_def fun_eq_iff)

lemma anchor_after_cells:
  "anchorBlock (store_reserves ords r s) = anchorBlock s"
  by (rule store_reserves_preserves) (simp_all add: SetGlobalIndex_def SetAssetConfig_def)

lemma bootstrap_anchor:
  assumes "Run env ords assets s = Inr (None, t)" and "be_anchor env = Some b"
  shows "anchorBlock t = b"
proof -
  obtain reserves users s3 where
    e: "store_emodes env ords b users (store_reserves ords reserves (SetAnchorBlock b s)) = Inr (Some s3)"
    and t: "t = fold load_user users s3"
    using RunD [OF assms(1)] assms(2) by (metis option.inject)
  have "reserve_fields s3 = reserve_fields (store_reserves ords reserves (SetAnchorBlock b s))"
    by (rule store_emodes_preserves [OF e]) (simp_all add: reserve_fields_frame)
  then have "reserve_fields t = reserve_fields (store_reserves ords reserves (SetAnchorBlock b s))"
    unfolding t by (rule load_users_preserves) (simp_all add: reserve_fields_frame)
  then show ?thesis by (simp add: reserve_fields_def anchor_after_cells) (simp add: SetAnchorBlock_def Let_def)
qed

lemma visit_distinct_lower:
  assumes "enumerates ord (dom m)" and "inj_on ToLower (dom m)"
  shows "distinct (map (ToLower \<circ> fst) (visit m ord))"
proof -
  have "map (ToLower \<circ> fst) (visit m ord) = map ToLower ord"
    using visit_keys [of ord m] enumerates_set [OF assms(1)] by (metis list.map_comp order_refl)
  then show ?thesis using assms by (simp add: distinct_map enumerates_def)
qed

text \<open>
  the bootstrap starts from the chain's own numbers. After a successful run the index and the
  configuration of every asset that the batch returned are the ones it returned, for every order of
  the two loops, and the anchor block is the one the snapshot was taken at.
\<close>

theorem bootstrap_reserve_data:
  assumes "Run env ords assets s = Inr (None, t)" and "be_anchor env = Some b"
    and "be_reserves env assets b = Some (idx, cfg)"
    and "enumerates (bo_indices ords) (dom idx)" and "inj_on ToLower (dom idx)"
    and "enumerates (bo_configs ords) (dom cfg)" and "inj_on ToLower (dom cfg)"
  shows "(\<forall>a i. idx a = Some i \<longrightarrow> GetGlobalIndex t a = Some i) \<and>
    (\<forall>a c. cfg a = Some c \<longrightarrow> GetAssetConfig t a = Some c) \<and> anchorBlock t = b"
proof -
  let ?s1 = "SetAnchorBlock b s" and ?s2 = "store_reserves ords (idx, cfg) (SetAnchorBlock b s)"
  obtain users s3 where e: "store_emodes env ords b users ?s2 = Inr (Some s3)" and t: "t = fold load_user users s3"
    using RunD [OF assms(1)] assms(2,3) by (metis option.inject)
  have "reserve_fields s3 = reserve_fields ?s2"
    by (rule store_emodes_preserves [OF e]) (simp_all add: reserve_fields_frame)
  then have f: "reserve_fields t = reserve_fields ?s2"
    unfolding t by (rule load_users_preserves) (simp_all add: reserve_fields_frame)
  then have g: "GetGlobalIndex t = GetGlobalIndex ?s2" "GetAssetConfig t = GetAssetConfig ?s2"
    by (simp_all add: reserve_fields_def GetGlobalIndex_def GetAssetConfig_def fun_eq_iff)
  have "GetGlobalIndex ?s2 a = Some i" if "idx a = Some i" for a i
    using index_cells.get_fold_put [OF visit_distinct_lower [OF assms(4,5)], of a i ?s1] that set_visit_enumerates [OF assms(4)]
    by (simp add: store_reserves_def index_after_configs)
  moreover have "GetAssetConfig ?s2 a = Some c" if "cfg a = Some c" for a c
    using config_cells.get_fold_put [OF visit_distinct_lower [OF assms(6,7)], of a c] that set_visit_enumerates [OF assms(6)]
    by (simp add: store_reserves_def)
  ultimately show ?thesis using bootstrap_anchor [OF assms(1,2)] by (simp add: g(1,2))
qed

definition toy_index :: global_index where
  "toy_index = \<lparr>gi_AssetAddress = ''A'', LiquidityIndex = RAY, VariableBorrowIndex = RAY, LastUpdateBlock = 7\<rparr>"

theorem bootstrap_reserve_data_witness:
  "\<exists>t. Run (toy_boot\<lparr>be_reserves := \<lambda>_ _. Some ([''A'' \<mapsto> toy_index], Map.empty)\<rparr>)
      (toy_orders\<lparr>bo_indices := [''A'']\<rparr>) [''A''] NewStateStore = Inr (None, t) \<and>
    GetGlobalIndex t ''A'' = Some toy_index \<and> anchorBlock t = 7"
proof -
  let ?e = "toy_boot\<lparr>be_reserves := \<lambda>_ _. Some ([''A'' \<mapsto> toy_index], Map.empty)\<rparr>" and ?o = "toy_orders\<lparr>bo_indices := [''A'']\<rparr>"
  obtain t where t: "Run ?e ?o [''A''] NewStateStore = Inr (None, t)"
    by (simp add: Run_def toy_boot_def toy_orders_def Let_def store_emodes_def)
  have b: "be_anchor ?e = Some 7" "be_reserves ?e [''A''] 7 = Some ([''A'' \<mapsto> toy_index], Map.empty)"
    by (simp_all add: toy_boot_def)
  have o: "enumerates (bo_indices ?o) (dom [''A'' \<mapsto> toy_index])" "inj_on ToLower (dom [''A'' \<mapsto> toy_index])"
    "enumerates (bo_configs ?o) (dom (Map.empty :: string \<rightharpoonup> asset_config))" "inj_on ToLower (dom (Map.empty :: string \<rightharpoonup> asset_config))"
    by (simp_all add: enumerates_def toy_orders_def)
  show ?thesis using bootstrap_reserve_data [OF t b o] t by (intro exI [of _ t]) simp
qed

end
