(* ===== verification/Bot.thy ===== *)
theory Bot
  imports Interleaving ReplaySync Oracle Bootstrap
begin

text \<open>
  The running bot: the handlers of all components touch the store only through the locked sections of
  Interleaving; the goroutines as one transition system over store, task queue, log cursor, node client
  and broadcast transactions; what holds in all its runs. A task, a log and a heartbeat are one step each;
  Goroutines has the same goroutines section by section.
\<close>

section \<open>Handlers are paths of locked sections\<close>

definition sections :: "state_store \<Rightarrow> state_store \<Rightarrow> bool" where
  "sections = locked_section\<^sup>*\<^sup>*"

lemma sections_refl [simp]: "sections s s"
  by (simp add: sections_def)

lemma sections_step: "sections s t \<Longrightarrow> locked_section t w \<Longrightarrow> sections s w"
  unfolding sections_def by (rule rtranclp.rtrancl_into_rtrancl)

lemma sections_trans [trans]: "sections s t \<Longrightarrow> sections t w \<Longrightarrow> sections s w"
  unfolding sections_def by (rule rtranclp_trans)

lemma sections_store:
  "sections s t \<Longrightarrow> sections s (GetUserReserve u a t)" "sections s t \<Longrightarrow> sections s (update_reserve u a f t)"
  "sections s t \<Longrightarrow> sections s (SetUserEMode u c t)" "sections s t \<Longrightarrow> sections s (SetGlobalIndex a i t)"
  "sections s t \<Longrightarrow> sections s (SetCurrentBlock b t)" "sections s t \<Longrightarrow> sections s (SetAnchorBlock b t)"
  "sections s t \<Longrightarrow> sections s (SetAssetPrice a p t)" "sections s t \<Longrightarrow> sections s (SetAssetConfig a cfg t)"
  "sections s t \<Longrightarrow> sections s (SetEModeCategory k e t)" "sections s t \<Longrightarrow> sections s (UpsertUserReserve u r t)"
  by (blast intro: sections_step ls_store store_step.intros)+

lemma sections_engine:
  "sections s t \<Longrightarrow> updateHeap u hf t = Inr w \<Longrightarrow> sections s w"
  "sections s t \<Longrightarrow> sections s (set_next_check u time t)" "sections s t \<Longrightarrow> sections s (put_position u p t)"
  "sections s t \<Longrightarrow> sections s (put_category c cat t)" "sections s t \<Longrightarrow> sections s (set_position_emode u c t)"
  by (blast intro: sections_step locked_section.intros)+

lemma handlers_sections:
  "sections (rp_store st) (rp_store (set_collateral b l st))" "sections (rp_store st) (rp_store (handleSupply l st))"
  "sections (rp_store st) (rp_store (handleWithdraw l st))" "sections (rp_store st) (rp_store (handleBorrow l st))"
  "sections (rp_store st) (rp_store (handleRepay l st))" "sections (rp_store st) (rp_store (handleUserEModeSet l st))"
  "sections (rp_store st) (rp_store (handleLiquidationCall l st))"
  "sections (rp_store st) (rp_store (handleReserveDataUpdated ord l st))"
  by (simp_all add: set_collateral_def handleSupply_def handleWithdraw_def handleBorrow_def handleRepay_def
      handleUserEModeSet_def handleLiquidationCall_def handleReserveDataUpdated_def Let_def sections_store
      split: option.split)

lemma processLog_sections: "sections (rp_store st) (rp_store (processLog kc ord l st))"
  by (simp add: processLog_def Let_def handleCollateralEnabled_def handleCollateralDisabled_def handlers_sections)

lemma historic_log_sections: "sections (rp_store st) (rp_store (historic_log kc oF oS l st))"
  using processLog_sections [of "new_tx_flush oF l st"] by (simp add: historic_log_def)

lemma live_step_sections:
  assumes "live_step kc e l st st'"
  shows "sections (rp_store st) (rp_store st')"
  using assms
proof (cases rule: live_step.cases)
  case (live ordF ordS ordE)
  let ?st2 = "new_tx_flush ordF l (on_store (SetCurrentBlock (log_block l)) st)"
  have "sections (rp_store st) (rp_store ?st2)" by (simp add: sections_store)
  then show ?thesis using live(1) sections_trans [OF _ processLog_sections [of ?st2 kc ordS l]]
    by (simp add: live_log_def live_core_def Let_def)
qed

lemma heartbeat_sections:
  assumes "fetchAndStorePrices ords abi port feeder s queue = (ok, s', queue')"
  shows "sections s s'"
proof -
  have "sections s (fst (fold price_step aps (t, ch)))" if "sections s t" for aps t ch
    using that by (induction aps arbitrary: t ch) (auto simp: price_step_def sections_store split: prod.split)
  then have "sections s (fst (store_prices as ps s))" for as ps by (simp add: store_prices_def)
  then show ?thesis using assms
    by (auto simp: fetchAndStorePrices_def split: option.splits prod.splits) (metis fst_conv)
qed

lemma load_category_sections:
  "load_category env c s = Inr (Some t) \<Longrightarrow> sections s t"
  by (auto simp: load_category_def bind_outcome_Inr_iff sections_engine split: if_splits)

lemma calculateHF_sections:
  assumes "calculateHF ord ord' env s u = Inr (snap, t)"
  shows "sections s t"
proof (cases "t = s")
  case False
  then obtain catId s1 where "load_category env catId s = Inr (Some s1)" "t = set_position_emode u catId s1"
    using assms by (auto simp: calculateHF_def bind_outcome_Inr_iff Let_def split: option.splits if_splits)
  then show ?thesis using sections_engine(5) load_category_sections by simp
qed simp

lemma liquidate_sections:
  assumes "liquidate ord txenv ex ctxDone now u acct pos s r = Inr (t, sent, r')"
  shows "sections s t"
  using assms by (cases rule: liquidate_cases) (blast intro: sections_engine sections_refl)+

lemma worker_step_sections:
  assumes "worker_step ords env txenv ex now u s r = Inr (t, sent, r')"
  shows "sections s t"
  using assms
proof (cases rule: worker_step_cases)
  case (liquidated snap s1 acct pos)
  have "sections s (put_position u pos s1)" using calculateHF_sections [OF liquidated(1)] by (rule sections_engine)
  then show ?thesis using liquidate_sections [OF liquidated(4)] by (rule sections_trans)
qed (blast intro: calculateHF_sections sections_engine)+

lemma bootstrap_sections:
  assumes "Run env ords assets s = Inr (None, t)"
  shows "sections s t"
proof -
  obtain b reserves users s3 where r: "store_emodes env ords b users (store_reserves ords reserves (SetAnchorBlock b s)) = Inr (Some s3)"
    "t = fold load_user users s3" using assms by (rule RunD)
  have "sections s (store_reserves ords reserves (SetAnchorBlock b s))"
    by (rule store_reserves_preserves [where P = "sections s"]) (simp_all add: sections_store)
  then have "sections s s3"
    by (rule store_emodes_preserves [OF r(1), where P = "sections s"]) (rule sections_store)
  then show ?thesis unfolding r(2)
    by (rule load_users_preserves [where P = "sections s"]) (simp_all add: sections_store)
qed

lemma sections_reachable: "sections s t \<Longrightarrow> bot_reachable s \<Longrightarrow> bot_reachable t"
  unfolding sections_def by (induction rule: rtranclp_induct) (auto intro: bot_step)

section \<open>The running bot\<close>

text \<open>
  What \<open>main\<close> wires together and never changes, and what changes. The log engine connects, replays the
  history and then follows the stream; the other goroutines run from the start.
\<close>

record wiring =
  w_keccak :: keccak
  w_txenv :: tx_env
  w_executor :: tx_executor
  w_oracle :: oracle_abi
  w_feeder :: oracle_feeder

datatype log_phase = Connected | Replaying "rpc_log list" u64 | Streaming

record bot =
  bt_replay :: replay
  bt_phase :: log_phase
  bt_rpc :: rpc_client
  bt_sent :: "signed_tx list"

definition NewLogReplayEngine :: "state_store \<Rightarrow> replay" where
  "NewLogReplayEngine s =
     \<lparr>rp_store = s, rp_queue = [], dirtyUsers = {}, currentTxHash = [], lastProcessedBlock = 0, lastProcessedLogIndex = 0\<rparr>"

text \<open>\<open>RiskEngine.Start\<close> orders the heap before it launches the workers.\<close>

definition start_engine :: "state_store \<Rightarrow> state_store" where
  "start_engine s = put_heap (heap_Init RiskHeap_iface (riskHeap s)) s"

definition launch :: "state_store \<Rightarrow> rpc_client \<Rightarrow> bot" where
  "launch s r = \<lparr>bt_replay = NewLogReplayEngine (start_engine s), bt_phase = Connected, bt_rpc = r, bt_sent = []\<rparr>"

abbreviation bot_store :: "bot \<Rightarrow> state_store" where "bot_store b \<equiv> rp_store (bt_replay b)"
abbreviation bot_queue :: "bot \<Rightarrow> string list" where "bot_queue b \<equiv> rp_queue (bt_replay b)"

text \<open>
  One activity of a goroutine; the label is the user of a task. A worker takes the head of the queue; a
  request of any other goroutine may move the shared node counter in between.
\<close>

inductive activity :: "wiring \<Rightarrow> string option \<Rightarrow> bot \<Rightarrow> bot \<Rightarrow> bool" for w where
  act_task: "bot_queue b = u # q \<Longrightarrow>
    worker_step ords env (w_txenv w) (w_executor w) now u (bot_store b) (bt_rpc b) = Inr (s, sent, r) \<Longrightarrow>
    activity w (Some u) b
      (b\<lparr>bt_replay := (bt_replay b)\<lparr>rp_store := s, rp_queue := q\<rparr>, bt_rpc := r, bt_sent := bt_sent b @ sent\<rparr>)"
| act_watchdog: "activity w None b
    (b\<lparr>bt_replay := (bt_replay b)\<lparr>rp_queue := watchdog_tick now (bot_store b) (bot_queue b)\<rparr>\<rparr>)"
| act_heartbeat: "fetchAndStorePrices ords (w_oracle w) port (w_feeder w) (bot_store b) (bot_queue b) = (ok, s, q) \<Longrightarrow>
    activity w None b (b\<lparr>bt_replay := (bt_replay b)\<lparr>rp_store := s, rp_queue := q\<rparr>\<rparr>)"
| act_request: "rpcURLs r = rpcURLs (bt_rpc b) \<Longrightarrow> activity w None b (b\<lparr>bt_rpc := r\<rparr>)"
| act_history: "bt_phase b = Connected \<Longrightarrow> fetchLatestBlock latestBlock = Some bWs \<Longrightarrow>
    fetchHistoricLogs getLogs (anchorBlock (bot_store b) + 1) bWs = Some (Some logs) \<Longrightarrow>
    activity w None b (b\<lparr>bt_phase := Replaying (sort_logs logs) bWs\<rparr>)"
| act_replay: "bt_phase b = Replaying (l # ls) bWs \<Longrightarrow> enumerates oF (dirtyUsers (bt_replay b)) \<Longrightarrow>
    (\<And>a. enumerates (oS a) (subscribers (bot_store b) a)) \<Longrightarrow>
    activity w None b
      (b\<lparr>bt_replay := historic_log (w_keccak w) oF oS l (bt_replay b), bt_phase := Replaying ls bWs\<rparr>)"
| act_handover: "bt_phase b = Replaying [] bWs \<Longrightarrow> enumerates oF (dirtyUsers (bt_replay b)) \<Longrightarrow>
    activity w None b (b\<lparr>bt_replay := catch_up (w_keccak w) [] oF bWs (bt_replay b), bt_phase := Streaming\<rparr>)"
| act_log: "bt_phase b = Streaming \<Longrightarrow> live_step (w_keccak w) e l (bt_replay b) st \<Longrightarrow>
    activity w None b (b\<lparr>bt_replay := st\<rparr>)"

inductive bot_run :: "wiring \<Rightarrow> bot \<Rightarrow> string option list \<Rightarrow> bot \<Rightarrow> bool" for w where
  br_stop: "bot_run w b [] b"
| br_act: "bot_run w b ls b1 \<Longrightarrow> activity w x b1 b2 \<Longrightarrow> bot_run w b (ls @ [x]) b2"

inductive_cases activityE: "activity w x b b'"

text \<open>The users whose tasks were run, in order.\<close>

definition served :: "string option list \<Rightarrow> string list" where
  "served ls = List.map_filter id ls"

lemma served_simps [simp]:
  "served [] = []" "served (xs @ ys) = served xs @ served ys" "served [None] = []" "served [Some u] = [u]"
  by (simp_all add: served_def List.map_filter_def)

section \<open>Every activity keeps to the locked sections and to the queue\<close>

lemma handover_simps [simp]:
  "rp_store (catch_up kc [] oF bWs st) = rp_store st" "rp_queue (catch_up kc [] oF bWs st) = rp_queue (flushDirtyUsers oF st)"
  by (simp_all add: catch_up_def Let_def)

lemma activity_sections: "activity w x b b' \<Longrightarrow> sections (bot_store b) (bot_store b')"
  by (erule activityE)
    (auto intro: worker_step_sections heartbeat_sections historic_log_sections live_step_sections)

lemma bot_run_sections: "bot_run w b ls b' \<Longrightarrow> sections (bot_store b) (bot_store b')"
  by (induction rule: bot_run.induct) (auto intro: activity_sections sections_trans)

text \<open>What an activity that runs no task does to the queue: it appends, up to the bound.\<close>

definition grown :: "string list \<Rightarrow> string list \<Rightarrow> bool" where
  "grown q q' \<longleftrightarrow> (\<exists>added. q' = q @ added) \<and> (length q \<le> taskQueueSize \<longrightarrow> length q' \<le> taskQueueSize)"

lemma grown_refl [simp]: "grown q q"
  by (simp add: grown_def)

lemma grown_trans [trans]: "grown p q \<Longrightarrow> grown q r \<Longrightarrow> grown p r"
  by (auto simp: grown_def)

lemma grown_fold: "grown p q \<Longrightarrow> grown p (fold Enqueue us q)"
proof (induction us arbitrary: q)
  case (Cons u us)
  have "grown q (Enqueue u q)" by (auto simp: grown_def Enqueue_def)
  then show ?case using Cons grown_trans by simp
qed simp

lemma grown_by_asset: "grown p q \<Longrightarrow> grown p (EnqueueByAsset ord s a q)"
  by (simp add: EnqueueByAsset_def grown_fold)

lemma grown_flush: "grown p (rp_queue st) \<Longrightarrow> grown p (rp_queue (flushDirtyUsers ord st))"
  by (simp add: flushDirtyUsers_def grown_fold)

lemma grown_handlers:
  "grown (rp_queue st) (rp_queue (set_collateral b l st))" "grown (rp_queue st) (rp_queue (handleSupply l st))"
  "grown (rp_queue st) (rp_queue (handleWithdraw l st))" "grown (rp_queue st) (rp_queue (handleBorrow l st))"
  "grown (rp_queue st) (rp_queue (handleRepay l st))" "grown (rp_queue st) (rp_queue (handleUserEModeSet l st))"
  "grown (rp_queue st) (rp_queue (handleLiquidationCall l st))"
  "grown (rp_queue st) (rp_queue (handleReserveDataUpdated ord l st))"
  by (simp_all add: set_collateral_def handleSupply_def handleWithdraw_def handleBorrow_def handleRepay_def
      handleUserEModeSet_def handleLiquidationCall_def handleReserveDataUpdated_def Let_def grown_by_asset
      split: option.split)

lemma grown_process: "grown (rp_queue st) (rp_queue (processLog kc ord l st))"
  by (simp add: processLog_def Let_def handleCollateralEnabled_def handleCollateralDisabled_def grown_handlers)

lemma grown_new_tx: "grown (rp_queue st) (rp_queue (new_tx_flush oF l st))"
  by (simp add: new_tx_flush_def grown_flush)

lemma grown_historic: "grown (rp_queue st) (rp_queue (historic_log kc oF oS l st))"
  using grown_trans [OF grown_new_tx grown_process] by (simp add: historic_log_def)

lemma grown_live:
  assumes "live_step kc e l st st'"
  shows "grown (rp_queue st) (rp_queue st')"
  using assms
proof (cases rule: live_step.cases)
  case (live ordF ordS ordE)
  let ?st2 = "new_tx_flush ordF l (on_store (SetCurrentBlock (log_block l)) st)"
  have "grown (rp_queue st) (rp_queue ?st2)"
    using grown_new_tx [of "on_store (SetCurrentBlock (log_block l)) st"] by simp
  then have "grown (rp_queue st) (rp_queue (live_core kc ordF ordS l st))"
    using grown_trans [OF _ grown_process [of ?st2]] by (simp add: live_core_def Let_def)
  then show ?thesis using live(1) by (simp add: live_log_def Let_def grown_flush)
qed

lemma grown_heartbeat:
  assumes "fetchAndStorePrices ords abi port feeder s q = (ok, s', q')"
  shows "grown q q'"
proof -
  have "grown q (fold (\<lambda>a. EnqueueByAsset (ords a) t a) as p)" if "grown q p" for t as p
    using that by (induction as arbitrary: p) (simp_all add: grown_by_asset)
  then show ?thesis using assms by (auto simp: fetchAndStorePrices_def split: option.splits prod.splits)
qed

lemma activity_queue:
  assumes "activity w x b b'"
  obtains (task) u where "x = Some u" "bot_queue b = u # bot_queue b'"
  | (other) "x = None" "grown (bot_queue b) (bot_queue b')"
  using assms
  by (rule activityE)
    (auto simp: watchdog_tick_def grown_fold grown_flush
      intro: grown_heartbeat grown_historic grown_live)

lemma run_queue:
  "bot_run w b ls b' \<Longrightarrow> (\<exists>added. bot_queue b @ added = served ls @ bot_queue b') \<and>
     (length (bot_queue b) \<le> taskQueueSize \<longrightarrow> length (bot_queue b') \<le> taskQueueSize)"
proof (induction rule: bot_run.induct)
  case (br_act b ls b1 x b2)
  from br_act(2) show ?case
  proof (cases rule: activity_queue)
    case (task u)
    then show ?thesis using br_act.IH by auto
  next
    case other
    then obtain added where "bot_queue b2 = bot_queue b1 @ added"
      "length (bot_queue b1) \<le> taskQueueSize \<longrightarrow> length (bot_queue b2) \<le> taskQueueSize" by (auto simp: grown_def)
    moreover obtain more where "bot_queue b @ more = served ls @ bot_queue b1" using br_act.IH by blast
    ultimately have "bot_queue b @ more @ added = served (ls @ [x]) @ bot_queue b2"
      using other(1) by (simp flip: append_assoc)
    then show ?thesis using br_act.IH \<open>_ \<longrightarrow> length (bot_queue b2) \<le> _\<close> by blast
  qed
qed simp

section \<open>Properties of the running bot\<close>

text \<open>The bootstrap leaves the heap empty, so \<open>heap.Init\<close> has nothing to do.\<close>

lemma bootstrap_heap:
  assumes "Run env ords assets NewStateStore = Inr (None, s)"
  shows "start_engine s = s"
proof -
  let ?P = "\<lambda>t. riskHeap t = riskHeap NewStateStore"
  have step: "store_step t t' \<Longrightarrow> ?P t \<Longrightarrow> ?P t'" for t t' using store_step_heap_frame by metis
  obtain b reserves users s3 where r: "store_emodes env ords b users (store_reserves ords reserves (SetAnchorBlock b NewStateStore)) = Inr (Some s3)"
    "s = fold load_user users s3" using assms by (rule RunD)
  have "?P (store_reserves ords reserves (SetAnchorBlock b NewStateStore))"
    by (rule store_reserves_preserves [where P = ?P]) (use step in \<open>blast intro: store_step.intros\<close>)+
  then have "?P s3"
    by (rule store_emodes_preserves [OF r(1), where P = ?P]) (use step in \<open>blast intro: store_step.intros\<close>)
  then have "?P s" unfolding r(2)
    by (rule load_users_preserves [where P = ?P]) (use step in \<open>blast intro: store_step.intros\<close>)+
  then show ?thesis
    by (simp add: start_engine_def heap_Init_def put_heap_def NewStateStore_def RiskHeap_iface_def RiskHeap_Len_def)
qed

lemma launched_reachable:
  assumes "Run env ords assets NewStateStore = Inr (None, s)" and "bot_run w (launch s r) ls b"
  shows "bot_reachable (bot_store b)"
  using sections_reachable [OF bot_run_sections [OF assms(2)]] sections_reachable [OF bootstrap_sections [OF assms(1)] bot_start]
  by (simp add: launch_def NewLogReplayEngine_def bootstrap_heap [OF assms(1)])

lemma launched_bot_book:
  assumes "Run env ords assets NewStateStore = Inr (None, s)" and "bot_run w (launch s r) ls b"
  shows "heap_book (bot_store b) \<and> length (bot_queue b) \<le> 50000 \<and> (\<forall>u hf. \<exists>t. updateHeap u hf (bot_store b) = Inr t)"
proof -
  have h: "heap_book (bot_store b)" using bot_reachable_book [OF launched_reachable [OF assms]] .
  have "length (bot_queue b) \<le> taskQueueSize"
    using run_queue [OF assms(2)] by (simp add: launch_def NewLogReplayEngine_def)
  then show ?thesis using h updateHeap_book [OF h] by (auto simp: taskQueueSize_def)
qed

text \<open>
  every queued user is served, first come first served. In any run of the bot the tasks that were run
  followed by what still waits are the users that waited at the start followed by users added since.
\<close>

theorem queue_first_come_first_served:
  assumes "bot_run w b ls b'"
  shows "\<exists>added. bot_queue b @ added = served ls @ bot_queue b'"
  using run_queue [OF assms] by blast

lemma served_waiting:
  assumes "bot_run w b ls b'" and "length (bot_queue b) \<le> length (served ls)" and "u \<in> set (bot_queue b)"
  shows "u \<in> set (served ls)"
proof -
  obtain added where "bot_queue b @ added = served ls @ bot_queue b'" using run_queue [OF assms(1)] by blast
  then have "bot_queue b = take (length (bot_queue b)) (served ls)" using assms(2)
    by (metis append_eq_conv_conj take_append diff_is_0_eq' take_0 append_Nil2)
  then show ?thesis using assms(3) by (metis in_set_takeD)
qed

text \<open>
  C19: a changed price leads to a check of every holder. After a heartbeat that changed the price of an
  asset and did not fill the queue of 50000, once the workers have run as many tasks as then waited in the
  queue, the health of every subscriber of the asset has been recomputed.
\<close>

theorem changed_price_is_checked:
  assumes "fetchPrices (w_oracle w) port (w_feeder w) = Some newPrices"
    and "distinct (map ToLower (targetAssets (w_feeder w)))" and "length newPrices = length (targetAssets (w_feeder w))"
    and "\<And>a. a \<in> set (targetAssets (w_feeder w)) \<Longrightarrow> enumerates (ords a) (subscribers (bot_store b) a)"
    and "fetchAndStorePrices ords (w_oracle w) port (w_feeder w) (bot_store b) (bot_queue b) = (True, s, q)"
    and "i < length newPrices" and "GetAssetPrice (bot_store b) (targetAssets (w_feeder w) ! i) \<noteq> Some (newPrices ! i)"
    and "u \<in> subscribers (bot_store b) (targetAssets (w_feeder w) ! i)" and "length q < 50000"
    and "bot_run w (b\<lparr>bt_replay := (bt_replay b)\<lparr>rp_store := s, rp_queue := q\<rparr>\<rparr>) ls b'"
    and "length q \<le> length (served ls)"
  shows "u \<in> set (served ls)"
proof -
  have "u \<in> set q" using heartbeat_enqueues [OF assms(1-9)] .
  then show ?thesis using served_waiting [OF assms(10), of u] assms(11) by simp
qed

text \<open>
  the bot never liquidates anybody. If node calls with a finished context fail, as those of Go's
  HTTP client do, then in every run of the bot the list of transactions broadcast stays empty.
\<close>

theorem bot_never_broadcasts:
  assumes "\<And>i url msg. \<exists>e. EstimateGas (node_at (w_txenv w) i url) True msg = Inl e \<and> \<not> is_revert e"
    and "bot_run w (launch s r) ls b"
  shows "bt_sent b = []"
proof -
  have "bot_run w b0 ls b \<Longrightarrow> bt_sent b0 = [] \<Longrightarrow> bt_sent b = []" for b0 ls b
  proof (induction rule: bot_run.induct)
    case (br_act b0 ls b1 x b2)
    from br_act(2) show ?case
      by (rule activityE) (use br_act in \<open>auto dest: worker_sends_nothing [OF assms(1)]\<close>)
  qed simp
  then show ?thesis using assms(2) by (simp add: launch_def)
qed

lemma liquidate_panic:
  assumes "heap_book s" and "liquidate ord txenv ex ctxDone now u acct pos s r = Inl e"
  shows "CalculateOptimalRecipe ord s u pos (acct_HealthFactor acct) = Inl e"
proof (cases "CalculateOptimalRecipe ord s u pos (acct_HealthFactor acct)")
  case (Inl e')
  then show ?thesis using assms(2) by (simp add: liquidate_def Let_def)
next
  case (Inr recipe)
  have up: "\<exists>t. updateHeap u hf s' = Inr t" if "heap_book s'" for hf s' using updateHeap_book [OF that, of u hf] by blast
  have cool: "\<exists>t. updateHeap u hf (set_next_check u x s) = Inr t" for hf x
    using up set_next_check_mem(1) [OF assms(1)] by blast
  have "liquidate ord txenv ex ctxDone now u acct pos s r \<noteq> Inl e"
  proof (cases "\<exists>rec. recipe = Some rec \<and> 0 < ExpectedProfitUSD rec")
    case False
    then show ?thesis using Inr cool [of "Some (acct_HealthFactor acct)" "now + noProfitCooldown"]
      by (cases recipe) (auto simp: liquidate_def Let_def)
  next
    case True
    then obtain rec err tx r1 where "recipe = Some rec" "0 < ExpectedProfitUSD rec"
      "SendLiquidation txenv ctxDone ex rec r = (err, tx, r1)" by (metis prod_cases3)
    then show ?thesis
      using Inr up [OF assms(1), of "Some fakeSafeHF"] cool [of "Some (acct_HealthFactor acct)" "now + liquidationCooldown"]
      by (cases err) (auto simp: liquidate_def Let_def)
  qed
  then show ?thesis using assms(2) by simp
qed

text \<open>
  C30: where a worker can crash. In a consistent state a task panics only if a chain answer for the user's
  E-Mode, a category or the user's position panics while it is decoded, or if the strategy search panics
  on the verified position; the bookkeeping never does.
\<close>

theorem task_panic_sources:
  assumes "heap_book s" and "worker_step ords env txenv ex now u s r = Inl e"
  shows "FetchUserEMode_at env u = Inl e \<or> (\<exists>c. FetchEModeCategory_at env c = Inl e) \<or>
    (\<exists>t n. FetchUserPosition_at env t u n = Inl e) \<or>
    (\<exists>t n acct pos. FetchUserPosition_at env t u n = Inr (Some (acct, pos)) \<and>
      CalculateOptimalRecipe (ords 2) (put_position u pos t) u pos (acct_HealthFactor acct) = Inl e)"
proof (cases "calculateHF (ords 0) (ords 1) env s u")
  case (Inl e')
  then have "e' = e" using assms(2) by (simp add: worker_step_def)
  then show ?thesis using Inl
    by (auto simp: calculateHF_def load_category_def bind_outcome_Inl_iff Let_def split: option.splits if_splits)
next
  case (Inr c)
  obtain snap s1 where c: "c = (snap, s1)" by fastforce
  have b: "heap_book s1" using calculateHF_frame Inr c assms(1) book_frame(1) by blast
  have up: "updateHeap u hf t \<noteq> Inl e" if "heap_book t" for t hf using updateHeap_book [OF that, of u hf] by auto
  consider "snap = None" | sn where "snap = Some sn" by (cases snap) auto
  then show ?thesis
  proof cases
    case 1
    then show ?thesis using assms(2) Inr c up [OF b] by (auto simp: worker_step_def bind_outcome_Inl_iff)
  next
    case (2 sn)
    let ?fetch = "FetchUserPosition_at env s1 u (CalculatedAtBlock sn)"
    have late: "TotalDebtBase sn \<ge> minDebtThreshold \<and> snap_HealthFactor sn < HFLiquidationThreshold"
    proof (rule ccontr)
      assume "\<not> ?thesis"
      then have "\<exists>hf. worker_step ords env txenv ex now u s r = bind_outcome (updateHeap u hf s1) (\<lambda>s'. Inr (s', [], r))"
        using Inr c 2 by (auto simp: worker_step_def Let_def not_le)
      then obtain hf where w: "worker_step ords env txenv ex now u s r = bind_outcome (updateHeap u hf s1) (\<lambda>s'. Inr (s', [], r))" ..
      from assms(2) show False unfolding w using up [OF b] by (auto simp: bind_outcome_Inl_iff)
    qed
    show ?thesis
    proof (cases "\<exists>acct pos. ?fetch = Inr (Some (acct, pos))")
      case False
      then show ?thesis using assms(2) Inr c 2 late
        by (cases ?fetch) (auto simp: worker_step_def Let_def split: option.splits)
    next
      case True
      then obtain acct pos where f: "?fetch = Inr (Some (acct, pos))" by blast
      have p: "heap_book (put_position u pos s1)" using b by simp
      then have "liquidate (ords 2) txenv ex True now u acct pos (put_position u pos s1) r = Inl e"
        using assms(2) Inr c 2 late f up by (auto simp: worker_step_def Let_def bind_outcome_Inl_iff split: if_splits)
      then show ?thesis using liquidate_panic [OF p] f by blast
    qed
  qed
qed

section \<open>Witnesses\<close>

definition toy_wiring :: wiring where
  "toy_wiring = \<lparr>w_keccak = toy_keccak, w_txenv = toy_tx_env, w_executor = toy_executor, w_oracle = toy_oracle,
     w_feeder = NewOracleFeeder ''0xO'' [''a'']\<rparr>"

lemma toy_wiring_simps [simp]:
  "w_txenv toy_wiring = toy_tx_env" "w_executor toy_wiring = toy_executor" "w_oracle toy_wiring = toy_oracle"
  "w_feeder toy_wiring = NewOracleFeeder ''0xO'' [''a'']" "targetAssets (w_feeder toy_wiring) = [''a'']"
  by (simp_all add: toy_wiring_def NewOracleFeeder_def)

lemma one_activity: "activity w x b b' \<Longrightarrow> bot_run w b [x] b'"
  using br_act [OF br_stop] by fastforce

definition toy_bot :: "state_store \<Rightarrow> string list \<Rightarrow> bot" where
  "toy_bot s q = (launch s toy_client)\<lparr>bt_replay := (NewLogReplayEngine s)\<lparr>rp_queue := q\<rparr>\<rparr>"

lemma toy_bot_simps [simp]: "bot_store (toy_bot s q) = s" "bot_queue (toy_bot s q) = q" "bt_rpc (toy_bot s q) = toy_client"
  by (simp_all add: toy_bot_def launch_def NewLogReplayEngine_def)

lemma toy_task:
  "worker_step ords env toy_tx_env toy_executor now u s toy_client = Inr (t, sent, r') \<Longrightarrow>
   \<exists>b. bot_run toy_wiring (toy_bot s (u # q)) [Some u] b"
  using one_activity [OF act_task [where w = toy_wiring and b = "toy_bot s (u # q)"]] by fastforce

theorem queue_first_come_first_served_witness:
  "\<exists>b. bot_run toy_wiring (toy_bot (toy_store 1000000000 900000000) [''u'', ''v'']) [Some ''u''] b \<and>
     (\<exists>added. [''u'', ''v''] @ added = [''u''] @ bot_queue b)"
proof -
  obtain t r' where w: "worker_step (\<lambda>i. if i = 2 then [] else [''a'']) (toy_chain_env 900000000000000000) toy_tx_env
    toy_executor 100 ''u'' (toy_store 1000000000 900000000) toy_client = Inr (t, [], r')" using toy_worker by blast
  obtain b where b: "bot_run toy_wiring (toy_bot (toy_store 1000000000 900000000) [''u'', ''v'']) [Some ''u''] b"
    using toy_task [OF w] by blast
  show ?thesis using b queue_first_come_first_served [OF b] by auto
qed

theorem changed_price_is_checked_witness:
  "\<exists>s b'. fetchAndStorePrices (\<lambda>_. [''u'']) toy_oracle toy_oracle_port (NewOracleFeeder ''0xO'' [''a''])
      (GetUserReserve ''u'' ''a'' NewStateStore) [] = (True, s, [''u'']) \<and>
     bot_run toy_wiring (toy_bot s [''u'']) [Some ''u''] b' \<and> ''u'' \<in> set (served [Some ''u''])"
proof -
  let ?s = "GetUserReserve ''u'' ''a'' NewStateStore" and ?o = "NewOracleFeeder ''0xO'' [''a'']"
  let ?r = "fetchAndStorePrices (\<lambda>_. [''u'']) toy_oracle toy_oracle_port ?o ?s []"
  have p: "fetchPrices toy_oracle toy_oracle_port ?o = Some [7]" by code_simp
  have l: "ToLower ''u'' = ''u''" "ToLower ''a'' = ''a''" by code_simp+
  have sub: "subscribers ?s ''a'' = {''u''}"
    by (simp add: subscribers_raw store_simps l) (simp add: subs_raw_def NewStateStore_def reserve_at_def)
  have e: "enumerates [''u''] (subscribers ?s a)" if "a \<in> {''a''}" for a
    using that by (simp add: sub enumerates_def)
  have "fst ?r \<and> snd (snd ?r) = [''u'']" by code_simp
  then obtain s where f: "?r = (True, s, [''u''])" by (cases ?r) auto
  have old: "GetAssetPrice ?s ''a'' = None" by code_simp
  have "\<not> isl (worker_step (\<lambda>_. [''a'']) (toy_chain_env 0) toy_tx_env toy_executor 100 ''u'' (fst (snd ?r)) toy_client)"
    by code_simp
  then obtain t sent r' where "worker_step (\<lambda>_. [''a'']) (toy_chain_env 0) toy_tx_env toy_executor 100 ''u'' s toy_client = Inr (t, sent, r')"
    unfolding f by (auto simp: isl_def) (metis prod_cases3 sum.exhaust_sel)
  then obtain b' where b: "bot_run toy_wiring (toy_bot s [''u'']) [Some ''u''] b'"
    using toy_task by blast
  have "toy_bot s [''u''] = (toy_bot ?s [])\<lparr>bt_replay := (bt_replay (toy_bot ?s []))\<lparr>rp_store := s, rp_queue := [''u'']\<rparr>\<rparr>"
    by (simp add: toy_bot_def launch_def NewLogReplayEngine_def)
  then have "''u'' \<in> set (served [Some ''u''])"
    using changed_price_is_checked [where w = toy_wiring and b = "toy_bot ?s []" and i = 0, simplified, OF p _ _ e f] l sub old b
    by simp
  then show ?thesis using f b by blast
qed

theorem bot_never_broadcasts_witness:
  "\<exists>b. bot_run toy_wiring (launch NewStateStore toy_client) [None] b \<and> bt_sent b = []"
proof -
  have "\<not> is_revert ''context canceled''" by code_simp
  then have e: "\<exists>e. EstimateGas (node_at (w_txenv toy_wiring) i url) True msg = Inl e \<and> \<not> is_revert e" for i url msg
    by (simp add: toy_tx_env_def toy_node_def)
  obtain b where b: "bot_run toy_wiring (launch NewStateStore toy_client) [None] b"
    using one_activity [OF act_watchdog] by blast
  show ?thesis using b bot_never_broadcasts [OF e b] by blast
qed

theorem task_panic_sources_witness:
  "worker_step (\<lambda>_. [''a'']) ((toy_chain_env 0)\<lparr>FetchUserPosition_at := \<lambda>_ _ _. Inl NilDereference\<rparr>) toy_tx_env
     toy_executor 100 ''u'' (toy_store 1000000000 900000000) toy_client = Inl NilDereference \<and>
   (\<exists>t n. FetchUserPosition_at ((toy_chain_env 0)\<lparr>FetchUserPosition_at := \<lambda>_ _ _. Inl NilDereference\<rparr>) t ''u'' n = Inl NilDereference)"
proof -
  let ?env = "(toy_chain_env 0)\<lparr>FetchUserPosition_at := \<lambda>_ _ _. Inl NilDereference\<rparr>"
  let ?w = "worker_step (\<lambda>_. [''a'']) ?env toy_tx_env toy_executor 100 ''u'' (toy_store 1000000000 900000000) toy_client"
  have "(case ?w of Inl e \<Rightarrow> e = NilDereference | Inr _ \<Rightarrow> False)" by code_simp
  then have w: "?w = Inl NilDereference" by (simp split: sum.splits)
  show ?thesis using w task_panic_sources [OF toy_store_book w] by (auto simp: toy_chain_env_def)
qed

end
