(* ===== verification/Objects.thy ===== *)
theory Objects
  imports Bot
begin

text \<open>
  The objects behind the maps of the store. \<open>UserPositions()\<close> maps a user to a pointer; a goroutine that
  keeps the pointer of a position, or of a reserve inside it, across two locked sections may find that a
  worker has put another object in its place (\<open>risk_engine.go\<close>, lines 160 and 205, the only place where
  an entry is overwritten; none is ever deleted). An object is named by its user and the number of
  replacements before it. The current object of a user is the entry of the map, replaced ones live on in
  the hands of whoever still has their pointer.
\<close>

section \<open>Memory\<close>

record memory =
  mm_store :: state_store
  mm_version :: "string \<Rightarrow> nat"
  mm_replaced :: "string \<Rightarrow> nat \<Rightarrow> user_position"

definition memory_of :: "state_store \<Rightarrow> memory" where
  "memory_of s = \<lparr>mm_store = s, mm_version = (\<lambda>_. 0), mm_replaced = (\<lambda>u _. new_position u)\<rparr>"

text \<open>A locked section that keeps the objects.\<close>

definition in_section :: "(state_store \<Rightarrow> state_store) \<Rightarrow> memory \<Rightarrow> memory" where
  "in_section f m = m\<lparr>mm_store := f (mm_store m)\<rparr>"

text \<open>What the pointer to the position number \<open>v\<close> of \<open>u\<close> shows.\<close>

definition position_at :: "memory \<Rightarrow> string \<Rightarrow> nat \<Rightarrow> user_position option" where
  "position_at m u v = (if v = mm_version m u then userPositions (mm_store m) u else Some (mm_replaced m u v))"

definition change_replaced :: "string \<Rightarrow> nat \<Rightarrow> (user_position \<Rightarrow> user_position) \<Rightarrow> memory \<Rightarrow> memory" where
  "change_replaced u v f m =
     m\<lparr>mm_replaced := (mm_replaced m)(u := (mm_replaced m u)(v := f (mm_replaced m u v)))\<rparr>"

definition change_reserve :: "string \<Rightarrow> (user_reserve \<Rightarrow> user_reserve) \<Rightarrow> user_position \<Rightarrow> user_position" where
  "change_reserve a f p = (case Reserves p a of None \<Rightarrow> p | Some r \<Rightarrow> p\<lparr>Reserves := (Reserves p)(a \<mapsto> f r)\<rparr>)"

text \<open>A write through the pointer to a reserve, and one through the pointer to a position.\<close>

definition write_reserve :: "string \<Rightarrow> nat \<Rightarrow> string \<Rightarrow> (user_reserve \<Rightarrow> user_reserve) \<Rightarrow> memory \<Rightarrow> memory" where
  "write_reserve u v a f m =
     (if v = mm_version m u then in_section (update_reserve u a f) m
      else change_replaced u v (change_reserve a f) m)"

definition write_emode :: "string \<Rightarrow> nat \<Rightarrow> u8 \<Rightarrow> memory \<Rightarrow> memory" where
  "write_emode u v catId m =
     (if v = mm_version m u then in_section (set_position_emode u catId) m
      else change_replaced u v (\<lambda>p. p\<lparr>EModeCategoryId := catId, EModeFetched := True\<rparr>) m)"

definition replace_position :: "string \<Rightarrow> user_position \<Rightarrow> memory \<Rightarrow> memory" where
  "replace_position u p m =
     \<lparr>mm_store = put_position u p (mm_store m), mm_version = (mm_version m)(u := Suc (mm_version m u)),
      mm_replaced = (mm_replaced m)(u := (mm_replaced m u)(mm_version m u := position_of (mm_store m) u))\<rparr>"

section \<open>What the writes do to the map\<close>

lemma in_section_simps [simp]:
  "mm_store (in_section f m) = f (mm_store m)" "mm_version (in_section f m) = mm_version m"
  "mm_replaced (in_section f m) = mm_replaced m"
  by (simp_all add: in_section_def)

lemma memory_of_simps [simp]: "mm_store (memory_of s) = s" "mm_version (memory_of s) u = 0"
  by (simp_all add: memory_of_def)

lemma write_frame [simp]:
  "mm_version (write_reserve u v a f m) = mm_version m" "mm_version (write_emode u v c m) = mm_version m"
  by (simp_all add: write_reserve_def write_emode_def change_replaced_def)

lemma write_store:
  "mm_store (write_reserve u v a f m) = (if v = mm_version m u then update_reserve u a f (mm_store m) else mm_store m)"
  "mm_store (write_emode u v c m) = (if v = mm_version m u then set_position_emode u c (mm_store m) else mm_store m)"
  by (simp_all add: write_reserve_def write_emode_def change_replaced_def)

lemma replace_simps [simp]:
  "mm_store (replace_position u p m) = put_position u p (mm_store m)"
  "mm_version (replace_position u p m) = (mm_version m)(u := Suc (mm_version m u))"
  by (simp_all add: replace_position_def)

lemma position_at_current [simp]: "position_at m u (mm_version m u) = userPositions (mm_store m) u"
  by (simp add: position_at_def)

text \<open>Whoever held the pointer keeps the old object as it was.\<close>

lemma position_at_replaced:
  "userPositions (mm_store m) u = Some q \<Longrightarrow> position_at (replace_position u p m) u (mm_version m u) = Some q"
  by (simp add: position_at_def replace_position_def position_of_def)

section \<open>What every locked section keeps\<close>

text \<open>
  A relation between store states that every locked section of the goroutines keeps, except those that move the
  block height. What follows for the workers, the log handlers and the price feeder is proved once.
\<close>

locale store_relation =
  fixes R :: "state_store \<Rightarrow> state_store \<Rightarrow> bool"
  assumes R_refl: "R s s"
    and R_trans: "R s t \<Longrightarrow> R t w \<Longrightarrow> R s w"
    and R_get: "R s (GetUserReserve u a s)"
    and R_write: "R s (update_reserve u a f s)"
    and R_emode: "R s (SetUserEMode u c s)"
    and R_index: "R s (SetGlobalIndex a i s)"
    and R_price: "R s (SetAssetPrice a price s)"
    and R_heap: "updateHeap u hf s = Inr t \<Longrightarrow> R s t"
    and R_cooldown: "R s (set_next_check u time s)"
    and R_position: "R s (put_position u pos s)"
    and R_category: "R s (put_category c cat s)"
    and R_position_emode: "R s (set_position_emode u c s)"
begin

lemma R_write_reserve: "R (mm_store m) (mm_store (write_reserve u v a f m))"
  by (simp add: write_store R_refl R_write)

lemma R_write_emode: "R (mm_store m) (mm_store (write_emode u v c m))"
  by (simp add: write_store R_refl R_position_emode)

lemmas R_sections = R_refl R_get R_write R_emode R_index R_price R_heap R_cooldown R_position R_category
  R_position_emode R_write_reserve R_write_emode

end

interpretation path: store_relation sections
  by unfold_locales (auto intro: sections_trans sections_store sections_engine [OF sections_refl])

definition same_blocks :: "state_store \<Rightarrow> state_store \<Rightarrow> bool" where
  "same_blocks s t \<longleftrightarrow> currentBlock t = currentBlock s \<and> anchorBlock t = anchorBlock s"

lemma updateHeap_blocks: "updateHeap u hf s = Inr t \<Longrightarrow> same_blocks s t"
  by (auto simp: same_blocks_def updateHeap_def drop_user_def track_user_def put_heap_def bind_outcome_Inr_iff Let_def
      split: option.splits if_splits prod.splits)

interpretation blocks: store_relation same_blocks
  by unfold_locales
    (auto simp: same_blocks_def GetUserReserve_def update_reserve_def SetUserEMode_def SetGlobalIndex_def SetAssetPrice_def
      put_reserve_def subscribe_def ensure_position_def set_next_check_def put_position_def put_category_def
      set_position_emode_def put_heap_def Let_def dest: updateHeap_blocks [unfolded same_blocks_def] split: option.splits)

text \<open>No subscription is ever removed.\<close>

definition holders_kept :: "state_store \<Rightarrow> state_store \<Rightarrow> bool" where
  "holders_kept s t \<longleftrightarrow> (\<forall>a. subs_raw s a \<subseteq> subs_raw t a)"

lemma subs_raw_engine [simp]:
  "subs_raw (put_position u p s) = subs_raw s" "subs_raw (put_category c cat s) = subs_raw s"
  "subs_raw (set_position_emode u c s) = subs_raw s" "subs_raw (set_next_check u t s) = subs_raw s"
  by (simp_all add: subs_raw_def put_position_def put_category_def set_position_emode_def set_next_check_def put_heap_def
      Let_def fun_eq_iff split: option.split)

lemma updateHeap_holders: "updateHeap u hf s = Inr t \<Longrightarrow> subs_raw t = subs_raw s"
  by (auto simp: subs_raw_def updateHeap_def drop_user_def track_user_def put_heap_def bind_outcome_Inr_iff Let_def fun_eq_iff
      split: option.splits if_splits prod.splits)

interpretation holders: store_relation holders_kept
  by unfold_locales (auto simp: holders_kept_def store_simps dest: updateHeap_holders)

end
