(* ===== verification/Worker.thy ===== *)
theory Worker
  imports Objects
begin

text \<open>
  The body of a worker, \<open>workerLoop\<close>, \<open>calculateHF\<close> and \<open>computeHFMath\<close> in \<open>risk_engine.go\<close>, cut where it
  releases the store's lock or waits for a node: a program counter for every section, with the local variables
  that are live there. Other goroutines may run between two sections. Without them the sections amount to the
  one step \<open>worker_step\<close> of RiskEngine.
\<close>

section \<open>Program counters\<close>

text \<open>\<open>calculateHF\<close> computes at most twice: with the E-Mode as stored, and with the loaded one.\<close>

datatype round = First | Second

text \<open>
  The numbers are versions of the user's position object: the one captured by \<open>calculateHF\<close>, the one captured by
  \<open>computeHFMath\<close>, and the one the worker stored itself.
\<close>

datatype worker_pc =
    Idle
  | Look string
  | Copy round string nat bool u8
  | Height round string nat nat bool u8
  | Total round string nat nat bool u8 u64
  | AskMode string nat
  | LookCategory string nat u8
  | AskCategory string nat u8
  | PutCategory string nat u8 emode_category
  | PutMode string nat u8
  | ReadConfigs string risk_snapshot
  | AskPosition string risk_snapshot state_store
  | Replace string user_account_data user_position
  | Search string user_account_data nat
  | Send string user_account_data liquidation_recipe
  | Cool string user_account_data int
  | File string "int option"

section \<open>The sections\<close>

definition hf_of_position ::
    "string list \<Rightarrow> state_store \<Rightarrow> user_position \<Rightarrow> bool \<Rightarrow> u8 \<Rightarrow> u64 \<Rightarrow> risk_snapshot option" where
  "hf_of_position ord s user eModeFetched userEModeCat startBlock =
     (case hf_loop s eModeFetched userEModeCat (visit (Reserves user) ord) (0, 0, 0) of
        None \<Rightarrow> None
      | Some (rawCollateralBase, totalCollateralBase, totalDebtBase) \<Rightarrow>
          if totalDebtBase = 0 then None
          else let hf = big_Div (big_Div (totalCollateralBase * WAD) 10000) totalDebtBase in
            Some \<lparr>snap_HealthFactor = hf, RawCollateralBase = rawCollateralBase,
                  TotalCollateralBase = totalCollateralBase, TotalDebtBase = totalDebtBase,
                  CalculatedAtBlock = startBlock\<rparr>)"

text \<open>Where the worker goes with the snapshot that \<open>calculateHF\<close> returned.\<close>

definition judge :: "string \<Rightarrow> risk_snapshot option \<Rightarrow> worker_pc" where
  "judge u snapshot =
     (case snapshot of None \<Rightarrow> File u None
      | Some snap \<Rightarrow> if TotalDebtBase snap < minDebtThreshold then File u None
          else if snap_HealthFactor snap < HFLiquidationThreshold then ReadConfigs u snap
          else File u (Some (snap_HealthFactor snap)))"

definition after_sum :: "round \<Rightarrow> string \<Rightarrow> nat \<Rightarrow> bool \<Rightarrow> risk_snapshot option \<Rightarrow> worker_pc" where
  "after_sum rd u v eModeFetched snapshot =
     (case snapshot of
        Some snap \<Rightarrow>
          if rd = First \<and> \<not> TotalDebtBase snap < minDebtThreshold \<and> \<not> eModeFetched \<and>
             snap_HealthFactor snap < HFSafetyThreshold
          then AskMode u v else judge u snapshot
      | None \<Rightarrow> judge u None)"

type_synonym worker_result = "(worker_pc \<times> memory \<times> signed_tx list \<times> rpc_client) outcome"

definition goto :: "memory \<Rightarrow> rpc_client \<Rightarrow> worker_pc \<Rightarrow> worker_result" where
  "goto m r pc = Inr (pc, m, [], r)"

text \<open>
  One section. \<open>ords\<close> gives the visiting orders, \<open>now\<close> the clock. A section of \<open>Idle\<close> does nothing: taking a
  task from the queue is the business of the caller.
\<close>

fun worker_section ::
    "(nat \<Rightarrow> string list) \<Rightarrow> chain_env \<Rightarrow> tx_env \<Rightarrow> tx_executor \<Rightarrow> int \<Rightarrow> worker_pc \<Rightarrow> memory \<Rightarrow> rpc_client \<Rightarrow> worker_result"
  where
  "worker_section ords env txenv ex now Idle m r = goto m r Idle"
| "worker_section ords env txenv ex now (Look u) m r =
     goto m r (case userPositions (mm_store m) u of None \<Rightarrow> File u None
       | Some user \<Rightarrow> Copy First u (mm_version m u) (EModeFetched user) (EModeCategoryId user))"
| "worker_section ords env txenv ex now (Copy rd u v f c) m r =
     goto m r (case userPositions (mm_store m) u of None \<Rightarrow> File u None
       | Some _ \<Rightarrow> Height rd u v (mm_version m u) f c)"
| "worker_section ords env txenv ex now (Height rd u v v' f c) m r =
     goto m r (Total rd u v v' f c (GetCurrentBlock (mm_store m)))"
| "worker_section ords env txenv ex now (Total rd u v v' f c startBlock) m r =
     goto m r (after_sum rd u v f (case position_at m u v' of None \<Rightarrow> None
       | Some user \<Rightarrow> hf_of_position (ords (if rd = First then 0 else 1)) (mm_store m) user f c startBlock))"
| "worker_section ords env txenv ex now (AskMode u v) m r =
     bind_outcome (FetchUserEMode_at env u) (\<lambda>answer. goto m r
       (case answer of None \<Rightarrow> File u None
        | Some catId \<Rightarrow> if catId > 0 then LookCategory u v catId else PutMode u v catId))"
| "worker_section ords env txenv ex now (LookCategory u v catId) m r =
     goto m r (if eModeCategories (mm_store m) catId = None then AskCategory u v catId else PutMode u v catId)"
| "worker_section ords env txenv ex now (AskCategory u v catId) m r =
     bind_outcome (FetchEModeCategory_at env catId) (\<lambda>answer. goto m r
       (case answer of None \<Rightarrow> File u None | Some catConfig \<Rightarrow> PutCategory u v catId catConfig))"
| "worker_section ords env txenv ex now (PutCategory u v catId catConfig) m r =
     goto (in_section (put_category catId catConfig) m) r (PutMode u v catId)"
| "worker_section ords env txenv ex now (PutMode u v catId) m r =
     goto (write_emode u v catId m) r (Copy Second u v True catId)"
| "worker_section ords env txenv ex now (ReadConfigs u snap) m r = goto m r (AskPosition u snap (mm_store m))"
| "worker_section ords env txenv ex now (AskPosition u snap s) m r =
     bind_outcome (FetchUserPosition_at env s u (CalculatedAtBlock snap)) (\<lambda>answer. goto m r
       (case answer of None \<Rightarrow> Idle | Some (acct, pos) \<Rightarrow> Replace u acct pos))"
| "worker_section ords env txenv ex now (Replace u acct pos) m r =
     goto (replace_position u pos m) r
       (if acct_HealthFactor acct < HFLiquidationThreshold then Search u acct (Suc (mm_version m u))
        else File u (Some (acct_HealthFactor acct)))"
| "worker_section ords env txenv ex now (Search u acct v) m r =
     bind_outcome (case position_at m u v of None \<Rightarrow> Inl NilDereference
         | Some pos \<Rightarrow> CalculateOptimalRecipe (ords 2) (mm_store m) u pos (acct_HealthFactor acct))
       (\<lambda>recipe. goto m r (case recipe of None \<Rightarrow> Cool u acct noProfitCooldown
          | Some rec \<Rightarrow> if ExpectedProfitUSD rec > 0 then Send u acct rec else Cool u acct noProfitCooldown))"
| "worker_section ords env txenv ex now (Send u acct rec) m r =
     (case SendLiquidation txenv True ex rec r of (err, tx, r') \<Rightarrow>
        Inr (case err of None \<Rightarrow> File u (Some fakeSafeHF) | Some _ \<Rightarrow> Cool u acct liquidationCooldown,
             m, case tx of None \<Rightarrow> [] | Some t \<Rightarrow> [t], r'))"
| "worker_section ords env txenv ex now (Cool u acct seconds) m r =
     goto (in_section (set_next_check u (now + seconds)) m) r (File u (Some (acct_HealthFactor acct)))"
| "worker_section ords env txenv ex now (File u hf) m r =
     bind_outcome (updateHeap u hf (mm_store m)) (\<lambda>s. goto (m\<lparr>mm_store := s\<rparr>) r Idle)"

section \<open>A task alone\<close>

text \<open>Up to \<open>n\<close> sections without anybody in between, and what the store and the network see of them.\<close>

fun run_worker ::
    "nat \<Rightarrow> (nat \<Rightarrow> string list) \<Rightarrow> chain_env \<Rightarrow> tx_env \<Rightarrow> tx_executor \<Rightarrow> int \<Rightarrow> worker_pc \<Rightarrow> memory \<Rightarrow> rpc_client \<Rightarrow> worker_result"
  where
  "run_worker 0 ords env txenv ex now pc m r = Inr (pc, m, [], r)"
| "run_worker (Suc n) ords env txenv ex now pc m r =
     bind_outcome (worker_section ords env txenv ex now pc m r) (\<lambda>(pc', m', sent, r').
       bind_outcome (run_worker n ords env txenv ex now pc' m' r') (\<lambda>(pc'', m'', sent', r'').
         Inr (pc'', m'', sent @ sent', r'')))"

lemma run_worker_Idle [simp]: "run_worker n ords env txenv ex now Idle m r = Inr (Idle, m, [], r)"
  by (induction n) (simp_all add: goto_def)

definition seen :: "worker_result \<Rightarrow> (worker_pc \<times> state_store \<times> signed_tx list \<times> rpc_client) outcome" where
  "seen w = bind_outcome w (\<lambda>(pc, m, sent, r). Inr (pc, mm_store m, sent, r))"

lemma seen_simps [simp]:
  "seen (Inr (pc, m, sent, r)) = Inr (pc, mm_store m, sent, r)" "seen (Inl e) = Inl e"
  by (simp_all add: seen_def)

definition task_done ::
    "(state_store \<times> signed_tx list \<times> rpc_client) outcome \<Rightarrow> (worker_pc \<times> state_store \<times> signed_tx list \<times> rpc_client) outcome" where
  "task_done w = bind_outcome w (\<lambda>(s, sent, r). Inr (Idle, s, sent, r))"

lemma task_done_simps [simp]:
  "task_done (Inr (s, sent, r)) = Inr (Idle, s, sent, r)" "task_done (Inl e) = Inl e"
  by (simp_all add: task_done_def)

lemma seen_goto:
  "seen (run_worker (Suc n) ords env txenv ex now pc m r) = seen (run_worker n ords env txenv ex now pc' m' r)"
  if "worker_section ords env txenv ex now pc m r = goto m' r pc'"
proof -
  have "run_worker (Suc n) ords env txenv ex now pc m r = run_worker n ords env txenv ex now pc' m' r"
    using that by (cases "run_worker n ords env txenv ex now pc' m' r") (auto simp: goto_def)
  then show ?thesis by simp
qed

lemma seen_bind:
  "seen (run_worker (Suc n) ords env txenv ex now pc m r) =
     bind_outcome x (\<lambda>a. seen (run_worker n ords env txenv ex now (f a) m r))"
  if "worker_section ords env txenv ex now pc m r = bind_outcome x (\<lambda>a. goto m r (f a))"
proof (cases x)
  case (Inr a)
  then have "worker_section ords env txenv ex now pc m r = goto m r (f a)" using that by simp
  then show ?thesis using seen_goto Inr by simp
qed (use that in simp)

section \<open>A task alone is one step\<close>

lemma file_alone:
  "seen (run_worker (Suc n) ords env txenv ex now (File u hf) m r) =
     task_done (bind_outcome (updateHeap u hf (mm_store m)) (\<lambda>s. Inr (s, [], r)))"
  by (cases "updateHeap u hf (mm_store m)") (simp_all add: goto_def)

lemma cool_alone:
  "seen (run_worker (Suc (Suc n)) ords env txenv ex now (Cool u acct seconds) m r) =
     task_done (bind_outcome (updateHeap u (Some (acct_HealthFactor acct)) (set_next_check u (now + seconds) (mm_store m)))
       (\<lambda>s. Inr (s, [], r)))"
  by (subst seen_goto [where pc' = "File u (Some (acct_HealthFactor acct))" and
      m' = "in_section (set_next_check u (now + seconds)) m"]) (simp_all add: file_alone del: run_worker.simps)

lemma send_alone:
  "seen (run_worker (Suc (Suc (Suc n))) ords env txenv ex now (Send u acct rec) m r) =
     task_done (case SendLiquidation txenv True ex rec r of (err, tx, r') \<Rightarrow>
       bind_outcome (case err of None \<Rightarrow> updateHeap u (Some fakeSafeHF) (mm_store m)
         | Some _ \<Rightarrow> updateHeap u (Some (acct_HealthFactor acct)) (set_next_check u (now + liquidationCooldown) (mm_store m)))
       (\<lambda>s. Inr (s, case tx of None \<Rightarrow> [] | Some t \<Rightarrow> [t], r')))"
proof -
  obtain err tx r' where s: "SendLiquidation txenv True ex rec r = (err, tx, r')" by (metis prod_cases3)
  show ?thesis
  proof (cases err)
    case None
    then show ?thesis using s
      by (cases "updateHeap u (Some fakeSafeHF) (mm_store m)") (simp_all add: goto_def)
  next
    case (Some e)
    then show ?thesis using s
      by (cases "updateHeap u (Some (acct_HealthFactor acct)) (set_next_check u (now + liquidationCooldown) (mm_store m))")
        (simp_all add: goto_def)
  qed
qed

lemma search_alone:
  assumes "position_at m u v = Some pos"
  shows "seen (run_worker (Suc (Suc (Suc (Suc n)))) ords env txenv ex now (Search u acct v) m r) =
    task_done (liquidate (ords 2) txenv ex True now u acct pos (mm_store m) r)"
proof -
  have s: "seen (run_worker (Suc (Suc (Suc (Suc n)))) ords env txenv ex now (Search u acct v) m r) =
    bind_outcome (CalculateOptimalRecipe (ords 2) (mm_store m) u pos (acct_HealthFactor acct)) (\<lambda>recipe.
      seen (run_worker (Suc (Suc (Suc n))) ords env txenv ex now (case recipe of None \<Rightarrow> Cool u acct noProfitCooldown
        | Some rec \<Rightarrow> if ExpectedProfitUSD rec > 0 then Send u acct rec else Cool u acct noProfitCooldown) m r))"
    by (rule seen_bind) (simp add: assms)
  show ?thesis
  proof (cases "CalculateOptimalRecipe (ords 2) (mm_store m) u pos (acct_HealthFactor acct)")
    case (Inr recipe)
    show ?thesis
    proof (cases "\<exists>rec. recipe = Some rec \<and> 0 < ExpectedProfitUSD rec")
      case False
      then show ?thesis unfolding s liquidate_def Let_def using Inr cool_alone
        by (cases recipe) (auto simp del: run_worker.simps)
    next
      case True
      then obtain rec where rec: "recipe = Some rec" "0 < ExpectedProfitUSD rec" by blast
      obtain err tx r' where "SendLiquidation txenv True ex rec r = (err, tx, r')" by (metis prod_cases3)
      then show ?thesis unfolding s liquidate_def Let_def using Inr rec send_alone [of n ords env txenv ex now u acct rec m r]
        by (cases err) (auto simp del: run_worker.simps)
    qed
  qed (simp add: s liquidate_def Let_def del: run_worker.simps)
qed

lemma replace_alone:
  "seen (run_worker (Suc (Suc (Suc (Suc (Suc n))))) ords env txenv ex now (Replace u acct pos) m r) =
     task_done (if acct_HealthFactor acct < HFLiquidationThreshold
       then liquidate (ords 2) txenv ex True now u acct pos (put_position u pos (mm_store m)) r
       else bind_outcome (updateHeap u (Some (acct_HealthFactor acct)) (put_position u pos (mm_store m))) (\<lambda>s. Inr (s, [], r)))"
proof -
  have p: "position_at (replace_position u pos m) u (Suc (mm_version m u)) = Some pos"
    by (simp add: position_at_def put_position_def)
  have "worker_section ords env txenv ex now (Replace u acct pos) m r = goto (replace_position u pos m) r
    (if acct_HealthFactor acct < HFLiquidationThreshold then Search u acct (Suc (mm_version m u))
     else File u (Some (acct_HealthFactor acct)))" by simp
  from seen_goto [OF this] show ?thesis
    using search_alone [OF p, of n] file_alone [of "Suc (Suc (Suc n))"] by (simp del: run_worker.simps)
qed

text \<open>What \<open>worker_step\<close> does with a snapshot.\<close>

definition task_tail ::
    "(nat \<Rightarrow> string list) \<Rightarrow> chain_env \<Rightarrow> tx_env \<Rightarrow> tx_executor \<Rightarrow> int \<Rightarrow> string \<Rightarrow> risk_snapshot option \<Rightarrow>
     state_store \<Rightarrow> rpc_client \<Rightarrow> (state_store \<times> signed_tx list \<times> rpc_client) outcome" where
  "task_tail ords env txenv ex now u snapshot s r =
     (let update = (\<lambda>hf st. bind_outcome (updateHeap u hf st) (\<lambda>s'. Inr (s', [], r))) in
      case snapshot of None \<Rightarrow> update None s
      | Some snap \<Rightarrow>
          if TotalDebtBase snap < minDebtThreshold then update None s
          else if snap_HealthFactor snap < HFLiquidationThreshold then
            bind_outcome (FetchUserPosition_at env s u (CalculatedAtBlock snap)) (\<lambda>verified.
              case verified of None \<Rightarrow> Inr (s, [], r)
              | Some (acct, pos) \<Rightarrow>
                  if acct_HealthFactor acct < HFLiquidationThreshold
                  then liquidate (ords 2) txenv ex True now u acct pos (put_position u pos s) r
                  else update (Some (acct_HealthFactor acct)) (put_position u pos s))
          else update (Some (snap_HealthFactor snap)) s)"

lemma worker_step_tail:
  "worker_step ords env txenv ex now u s r =
     bind_outcome (calculateHF (ords 0) (ords 1) env s u) (\<lambda>(snapshot, s1). task_tail ords env txenv ex now u snapshot s1 r)"
  by (simp add: worker_step_def task_tail_def)

lemma judge_alone:
  "seen (run_worker (Suc (Suc (Suc (Suc (Suc (Suc (Suc n))))))) ords env txenv ex now (judge u snapshot) m r) =
     task_done (task_tail ords env txenv ex now u snapshot (mm_store m) r)"
proof (cases "\<exists>snap. snapshot = Some snap \<and> \<not> TotalDebtBase snap < minDebtThreshold \<and>
    snap_HealthFactor snap < HFLiquidationThreshold")
  case False
  then show ?thesis
    by (cases snapshot) (auto simp: judge_def task_tail_def file_alone simp del: run_worker.simps)
next
  case True
  then obtain snap where snap: "snapshot = Some snap" "\<not> TotalDebtBase snap < minDebtThreshold"
    "snap_HealthFactor snap < HFLiquidationThreshold" by blast
  let ?k = "Suc (Suc (Suc (Suc (Suc n))))"
  have "seen (run_worker (Suc (Suc ?k)) ords env txenv ex now (ReadConfigs u snap) m r) =
      seen (run_worker (Suc ?k) ords env txenv ex now (AskPosition u snap (mm_store m)) m r)"
    by (rule seen_goto) simp
  also have "\<dots> = bind_outcome (FetchUserPosition_at env (mm_store m) u (CalculatedAtBlock snap)) (\<lambda>answer.
      seen (run_worker ?k ords env txenv ex now
        (case answer of None \<Rightarrow> Idle | Some (acct, pos) \<Rightarrow> Replace u acct pos) m r))"
    by (rule seen_bind) simp
  finally show ?thesis using snap
    by (cases "FetchUserPosition_at env (mm_store m) u (CalculatedAtBlock snap)")
      (auto simp: judge_def task_tail_def replace_alone simp del: run_worker.simps split: option.split)
qed

lemma computeHFMath_position:
  "computeHFMath ord s u f c = (case userPositions s u of None \<Rightarrow> None
     | Some user \<Rightarrow> hf_of_position ord s user f c (GetCurrentBlock s))"
  by (simp add: computeHFMath_def hf_of_position_def Let_def split: option.split)

lemma math_alone:
  "seen (run_worker (Suc (Suc (Suc n))) ords env txenv ex now (Copy rd u v f c) m r) =
     seen (run_worker n ords env txenv ex now
       (after_sum rd u v f (computeHFMath (ords (if rd = First then 0 else 1)) (mm_store m) u f c)) m r)"
  if "userPositions (mm_store m) u = Some p"
proof -
  let ?s = "mm_store m"
  have "seen (run_worker (Suc (Suc (Suc n))) ords env txenv ex now (Copy rd u v f c) m r) =
      seen (run_worker (Suc (Suc n)) ords env txenv ex now (Height rd u v (mm_version m u) f c) m r)"
    by (rule seen_goto) (simp add: that)
  also have "\<dots> = seen (run_worker (Suc n) ords env txenv ex now (Total rd u v (mm_version m u) f c (GetCurrentBlock ?s)) m r)"
    by (rule seen_goto) simp
  also have "\<dots> = seen (run_worker n ords env txenv ex now
      (after_sum rd u v f (computeHFMath (ords (if rd = First then 0 else 1)) ?s u f c)) m r)"
    by (rule seen_goto) (simp add: that computeHFMath_position)
  finally show ?thesis .
qed

text \<open>The second round: the E-Mode is stored and the sum is computed again.\<close>

lemma mode_alone:
  assumes "userPositions (mm_store m) u = Some p"
  shows "seen (run_worker (Suc (Suc (Suc (Suc (Suc (Suc (Suc (Suc (Suc (Suc (Suc n)))))))))))
      ords env txenv ex now (PutMode u (mm_version m u) catId) m r) =
    (let s = set_position_emode u catId (mm_store m) in
      task_done (task_tail ords env txenv ex now u (computeHFMath (ords 1) s u True catId) s r))"
proof -
  let ?k = "Suc (Suc (Suc (Suc (Suc (Suc (Suc n))))))" and ?m = "write_emode u (mm_version m u) catId m"
  have st: "mm_store ?m = set_position_emode u catId (mm_store m)" by (simp add: write_store)
  have u: "userPositions (mm_store ?m) u = Some (p\<lparr>EModeCategoryId := catId, EModeFetched := True\<rparr>)"
    using assms by (simp add: st)
  have a: "after_sum Second u v f x = judge u x" for v f x by (simp add: after_sum_def split: option.split)
  have "seen (run_worker (Suc (Suc (Suc (Suc ?k)))) ords env txenv ex now (PutMode u (mm_version m u) catId) m r) =
      seen (run_worker (Suc (Suc (Suc ?k))) ords env txenv ex now (Copy Second u (mm_version m u) True catId) ?m r)"
    by (rule seen_goto) simp
  then show ?thesis using math_alone [OF u, where rd = Second, of ?k] judge_alone [of n]
    by (simp add: a st Let_def del: run_worker.simps)
qed

lemma look_category_alone:
  assumes "userPositions (mm_store m) u = Some p" and "catId > 0"
  shows "seen (run_worker (Suc (Suc (Suc (Suc (Suc (Suc (Suc (Suc (Suc (Suc (Suc (Suc (Suc (Suc n))))))))))))))
      ords env txenv ex now (LookCategory u (mm_version m u) catId) m r) =
    bind_outcome (load_category env catId (mm_store m)) (\<lambda>l. case l of
      None \<Rightarrow> task_done (task_tail ords env txenv ex now u None (mm_store m) r)
    | Some s1 \<Rightarrow> let s = set_position_emode u catId s1 in
        task_done (task_tail ords env txenv ex now u (computeHFMath (ords 1) s u True catId) s r))"
proof -
  let ?k = "Suc (Suc (Suc (Suc (Suc (Suc (Suc (Suc (Suc (Suc (Suc n))))))))))" and ?v = "mm_version m u"
  have look: "seen (run_worker (Suc (Suc (Suc ?k))) ords env txenv ex now (LookCategory u ?v catId) m r) =
      seen (run_worker (Suc (Suc ?k)) ords env txenv ex now
        (if eModeCategories (mm_store m) catId = None then AskCategory u ?v catId else PutMode u ?v catId) m r)"
    by (rule seen_goto) simp
  show ?thesis
  proof (cases "eModeCategories (mm_store m) catId")
    case (Some cat)
    then show ?thesis using look mode_alone [OF assms(1), of "Suc (Suc n)"] assms(2)
      by (simp add: load_category_def del: run_worker.simps)
  next
    case None
    have ask: "seen (run_worker (Suc (Suc ?k)) ords env txenv ex now (AskCategory u ?v catId) m r) =
        bind_outcome (FetchEModeCategory_at env catId) (\<lambda>answer. seen (run_worker (Suc ?k) ords env txenv ex now
          (case answer of None \<Rightarrow> File u None | Some catConfig \<Rightarrow> PutCategory u ?v catId catConfig) m r))"
      by (rule seen_bind) simp
    have put: "seen (run_worker (Suc ?k) ords env txenv ex now (PutCategory u ?v catId cat) m r) =
        (let s = set_position_emode u catId (put_category catId cat (mm_store m)) in
          task_done (task_tail ords env txenv ex now u (computeHFMath (ords 1) s u True catId) s r))" for cat
    proof -
      let ?m = "in_section (put_category catId cat) m"
      have "seen (run_worker (Suc ?k) ords env txenv ex now (PutCategory u ?v catId cat) m r) =
          seen (run_worker ?k ords env txenv ex now (PutMode u ?v catId) ?m r)" by (rule seen_goto) simp
      then show ?thesis using mode_alone [of ?m u p n] assms(1)
        by (simp add: put_category_def del: run_worker.simps)
    qed
    have filed: "seen (run_worker (Suc ?k) ords env txenv ex now (File u None) m r) =
        task_done (task_tail ords env txenv ex now u None (mm_store m) r)"
      by (subst file_alone) (simp add: task_tail_def Let_def)
    show ?thesis using None assms(2) look ask put filed
      by (cases "FetchEModeCategory_at env catId")
        (auto simp: load_category_def simp del: run_worker.simps split: option.split)
  qed
qed

lemma task_alone:
  "seen (run_worker 19 ords env txenv ex now (Look u) m r) = task_done (worker_step ords env txenv ex now u (mm_store m) r)"
proof -
  let ?s = "mm_store m" and ?v = "mm_version m u"
  let ?k = "Suc (Suc (Suc (Suc (Suc (Suc (Suc (Suc (Suc (Suc (Suc (Suc (Suc (Suc 0)))))))))))))"
  have n: "(19 :: nat) = Suc (Suc (Suc (Suc (Suc ?k))))" by simp
  have filed: "seen (run_worker (Suc j) ords env txenv ex now (File u None) m r) =
      task_done (task_tail ords env txenv ex now u None ?s r)" for j
    by (subst file_alone) (simp add: task_tail_def Let_def)
  show ?thesis
  proof (cases "userPositions ?s u")
    case None
    have "seen (run_worker 19 ords env txenv ex now (Look u) m r) =
        seen (run_worker (Suc (Suc (Suc (Suc ?k)))) ords env txenv ex now (File u None) m r)"
      unfolding n by (rule seen_goto) (simp add: None)
    then show ?thesis using None filed
      by (simp add: worker_step_tail calculateHF_def del: run_worker.simps)
  next
    case (Some p)
    let ?hf = "computeHFMath (ords 0) ?s u (EModeFetched p) (EModeCategoryId p)"
    have "seen (run_worker 19 ords env txenv ex now (Look u) m r) =
        seen (run_worker (Suc (Suc (Suc (Suc ?k)))) ords env txenv ex now (Copy First u ?v (EModeFetched p) (EModeCategoryId p)) m r)"
      unfolding n by (rule seen_goto) (simp add: Some)
    also have "\<dots> = seen (run_worker (Suc ?k) ords env txenv ex now (after_sum First u ?v (EModeFetched p) ?hf) m r)"
      by (subst math_alone [OF Some]) simp
    finally have start: "seen (run_worker 19 ords env txenv ex now (Look u) m r) =
      seen (run_worker (Suc ?k) ords env txenv ex now (after_sum First u ?v (EModeFetched p) ?hf) m r)" .
    show ?thesis
    proof (cases "\<exists>sn. ?hf = Some sn \<and> \<not> TotalDebtBase sn < minDebtThreshold \<and> \<not> EModeFetched p \<and>
        snap_HealthFactor sn < HFSafetyThreshold")
      case False
      then have a: "after_sum First u ?v (EModeFetched p) ?hf = judge u ?hf"
        by (cases ?hf) (auto simp: after_sum_def)
      have c: "calculateHF (ords 0) (ords 1) env ?s u = Inr (?hf, ?s)"
        using False Some by (cases ?hf) (auto simp: calculateHF_def)
      show ?thesis unfolding start a worker_step_tail c using judge_alone by (simp del: run_worker.simps)
    next
      case True
      then obtain sn where sn: "?hf = Some sn" "\<not> TotalDebtBase sn < minDebtThreshold" "\<not> EModeFetched p"
        "snap_HealthFactor sn < HFSafetyThreshold" by blast
      then have a: "after_sum First u ?v (EModeFetched p) ?hf = AskMode u ?v" by (simp add: after_sum_def)
      have ask: "seen (run_worker (Suc ?k) ords env txenv ex now (AskMode u ?v) m r) =
          bind_outcome (FetchUserEMode_at env u) (\<lambda>answer. seen (run_worker ?k ords env txenv ex now
            (case answer of None \<Rightarrow> File u None
             | Some catId \<Rightarrow> if catId > 0 then LookCategory u ?v catId else PutMode u ?v catId) m r))"
        by (rule seen_bind) simp
      have c: "calculateHF (ords 0) (ords 1) env ?s u = bind_outcome (FetchUserEMode_at env u) (\<lambda>answer.
          case answer of None \<Rightarrow> Inr (None, ?s)
          | Some catId \<Rightarrow> bind_outcome (load_category env catId ?s) (\<lambda>l. case l of None \<Rightarrow> Inr (None, ?s)
              | Some s1 \<Rightarrow> let s2 = set_position_emode u catId s1 in Inr (computeHFMath (ords 1) s2 u True catId, s2)))"
        using sn Some by (simp add: calculateHF_def del: One_nat_def)
      show ?thesis
      proof (cases "FetchUserEMode_at env u")
        case (Inr answer)
        show ?thesis
        proof (cases answer)
          case None
          then show ?thesis using Inr filed unfolding start a ask worker_step_tail c by (simp del: run_worker.simps)
        next
          case (Some catId)
          show ?thesis
          proof (cases "catId > 0")
            case True
            then show ?thesis using Inr Some look_category_alone [OF \<open>userPositions ?s u = Some p\<close> True, of 0 ords env txenv ex now r]
              unfolding start a ask worker_step_tail c
              by (cases "load_category env catId ?s") (auto simp: Let_def simp del: run_worker.simps split: option.split)
          next
            case False
            then have "catId = 0" by (simp add: word_gt_0)
            then show ?thesis using Inr Some mode_alone [OF \<open>userPositions ?s u = Some p\<close>, of "Suc (Suc (Suc 0))" ords env txenv ex now 0 r]
              unfolding start a ask worker_step_tail c by (simp add: load_category_def Let_def del: run_worker.simps)
          qed
        qed
      next
        case (Inl e)
        then show ?thesis unfolding start a ask worker_step_tail c by simp
      qed
    qed
  qed
qed

text \<open>
  C9: the worker in sections is the worker in one step. Run without interference, the sections of a task end
  after at most 19 of them, in \<open>Idle\<close>, with the same store, the same broadcasts and the same node counter as the
  step \<open>worker_step\<close>, and they panic exactly when it does.
\<close>

theorem sections_are_worker_step:
  "bind_outcome (run_worker 19 ords env txenv ex now (Look u) m r) (\<lambda>(pc, m', sent, r'). Inr (pc, mm_store m', sent, r')) =
   bind_outcome (worker_step ords env txenv ex now u (mm_store m) r) (\<lambda>(s, sent, r'). Inr (Idle, s, sent, r'))"
  using task_alone by (simp add: seen_def task_done_def del: run_worker.simps)

section \<open>Where a section goes\<close>

lemma goto_pc: "goto m r pc = Inr (pc', m', sent', r') \<Longrightarrow> pc' = pc"
  by (simp add: goto_def)

lemma bind_goto_pc: "bind_outcome x (\<lambda>a. goto m r (f a)) = Inr (pc', m', sent', r') \<Longrightarrow> \<exists>a. pc' = f a"
  by (auto simp: goto_def bind_outcome_Inr_iff)

section \<open>The sections of a worker and the store\<close>

context store_relation begin

lemma R_worker_section:
  assumes "worker_section ords env txenv ex now pc m r = Inr (pc', m', sent, r')"
  shows "R (mm_store m) (mm_store m')"
proof (cases pc)
  case (Send u acct rec)
  then show ?thesis using assms by (auto simp: R_refl split: prod.splits)
qed (use assms in \<open>auto simp: goto_def bind_outcome_Inr_iff R_sections split: option.splits\<close>)

end

end
