(* ===== verification/LogSections.thy ===== *)
theory LogSections
  imports Objects
begin

text \<open>
  The log handlers of \<open>log_replay_engine.go\<close> cut at the store's lock. A handler that changes a balance reads
  the index, gets the pointers of the reserves from \<open>GetUserReserve\<close> and writes through them, each in a section
  of its own. Without interference the sections amount to \<open>processLog\<close> of Replay; a worker that replaces the
  position between the last two makes the write land in an object nobody reads.
\<close>

section \<open>Program counters\<close>

type_synonym change = "user_reserve \<Rightarrow> user_reserve"

text \<open>A pointer to a reserve is the version of its position and the asset.\<close>

datatype log_pc =
    LogDone
  | PutIndex string global_index
  | AskHolders string
  | Feed "string list"
  | PutUserMode string u8
  | ReadIndex "global_index \<Rightarrow> int" string string "int \<Rightarrow> change"
  | ReadDebtIndex string string string int int
  | ReadCollateralIndex "global_index option" string string string int int
  | Acquire string "(nat \<times> string \<times> change) list" "(string \<times> change) list"
  | WriteReserves string "(nat \<times> string \<times> change) list"

definition add_balance :: "int \<Rightarrow> int \<Rightarrow> change" where
  "add_balance amount idx = (\<lambda>r. r\<lparr>ScaledATokenBalance := ScaledATokenBalance r + RayDiv amount idx\<rparr>)"

definition sub_balance :: "int \<Rightarrow> int \<Rightarrow> change" where
  "sub_balance amount idx = (\<lambda>r. r\<lparr>ScaledATokenBalance := drop_dust (ScaledATokenBalance r - RayDiv amount idx)\<rparr>)"

definition add_debt :: "int \<Rightarrow> int \<Rightarrow> change" where
  "add_debt amount idx = (\<lambda>r. r\<lparr>ScaledVariableDebt := ScaledVariableDebt r + RayDiv amount idx\<rparr>)"

definition sub_debt :: "int \<Rightarrow> int \<Rightarrow> change" where
  "sub_debt amount idx = (\<lambda>r. r\<lparr>ScaledVariableDebt := drop_dust (ScaledVariableDebt r - RayDiv amount idx)\<rparr>)"

definition set_flag :: "bool \<Rightarrow> change" where
  "set_flag enabled = (\<lambda>r. r\<lparr>UsageAsCollateralEnabledOnUser := enabled\<rparr>)"

section \<open>The guards of the handlers\<close>

text \<open>What a handler does before its first section: the checks of topics and data, and the parsing.\<close>

definition begin_index :: "rpc_log \<Rightarrow> log_pc" where
  "begin_index l =
     (if length (log_Topics l) < 2 then LogDone
      else
        let assetAddress = ParseHexAddress (log_Topics l ! 1); data = TrimPrefix (log_Data l) ''0x'' in
        if length data < 320 then LogDone
        else PutIndex assetAddress
          \<lparr>gi_AssetAddress = assetAddress, LiquidityIndex = ParseHexBigInt (slice data 192 256),
           VariableBorrowIndex = ParseHexBigInt (slice data 256 320), LastUpdateBlock = log_block l\<rparr>)"

definition begin_collateral :: "bool \<Rightarrow> rpc_log \<Rightarrow> log_pc" where
  "begin_collateral enabled l =
     (if length (log_Topics l) < 3 then LogDone
      else Acquire (ParseHexAddress (log_Topics l ! 2)) [] [(ParseHexAddress (log_Topics l ! 1), set_flag enabled)])"

definition begin_supply :: "rpc_log \<Rightarrow> log_pc" where
  "begin_supply l =
     (if length (log_Topics l) < 3 then LogDone
      else
        let data = TrimPrefix (log_Data l) ''0x'' in
        if length data < 128 then LogDone
        else ReadIndex LiquidityIndex (ParseHexAddress (log_Topics l ! 1)) (ParseHexAddress (log_Topics l ! 2))
          (add_balance (ParseHexBigInt (slice data 64 128))))"

definition begin_withdraw :: "rpc_log \<Rightarrow> log_pc" where
  "begin_withdraw l =
     (if length (log_Topics l) < 4 then LogDone
      else
        let data = TrimPrefix (log_Data l) ''0x'' in
        if length data < 64 then LogDone
        else ReadIndex LiquidityIndex (ParseHexAddress (log_Topics l ! 1)) (ParseHexAddress (log_Topics l ! 2))
          (sub_balance (ParseHexBigInt (slice data 0 64))))"

definition begin_borrow :: "rpc_log \<Rightarrow> log_pc" where
  "begin_borrow l =
     (if length (log_Topics l) < 3 then LogDone
      else
        let data = TrimPrefix (log_Data l) ''0x'' in
        if length data < 192 then LogDone
        else if big_Int64 (ParseHexBigInt (slice data 128 192)) \<noteq> 2 then LogDone
        else ReadIndex VariableBorrowIndex (ParseHexAddress (log_Topics l ! 1)) (ParseHexAddress (log_Topics l ! 2))
          (add_debt (ParseHexBigInt (slice data 64 128))))"

definition begin_repay :: "rpc_log \<Rightarrow> log_pc" where
  "begin_repay l =
     (if length (log_Topics l) < 3 then LogDone
      else
        let data = TrimPrefix (log_Data l) ''0x'' in
        if length data < 64 then LogDone
        else ReadIndex VariableBorrowIndex (ParseHexAddress (log_Topics l ! 1)) (ParseHexAddress (log_Topics l ! 2))
          (sub_debt (ParseHexBigInt (slice data 0 64))))"

definition begin_emode :: "rpc_log \<Rightarrow> log_pc" where
  "begin_emode l =
     (if length (log_Topics l) < 2 then LogDone
      else PutUserMode (ParseHexAddress (log_Topics l ! 1))
        (ucast (big_Uint64 (ParseHexBigInt (TrimPrefix (log_Data l) ''0x'')))))"

definition begin_liquidation :: "rpc_log \<Rightarrow> log_pc" where
  "begin_liquidation l =
     (if length (log_Topics l) < 4 then LogDone
      else
        let data = TrimPrefix (log_Data l) ''0x'' in
        if length data < 128 then LogDone
        else ReadDebtIndex (ParseHexAddress (log_Topics l ! 2)) (ParseHexAddress (log_Topics l ! 1))
          (ParseHexAddress (log_Topics l ! 3)) (ParseHexBigInt (slice data 0 64)) (ParseHexBigInt (slice data 64 128)))"

definition begin_log :: "keccak \<Rightarrow> rpc_log \<Rightarrow> log_pc" where
  "begin_log kc l =
     (if log_Removed l then LogDone
      else if log_Topics l = [] then LogDone
      else
        let eventSignature = log_Topics l ! 0 in
        if eventSignature = TopicReserveDataUpdated kc then begin_index l
        else if eventSignature = TopicSupply kc then begin_supply l
        else if eventSignature = TopicWithdraw kc then begin_withdraw l
        else if eventSignature = TopicBorrow kc then begin_borrow l
        else if eventSignature = TopicRepay kc then begin_repay l
        else if eventSignature = TopicLiquidationCall kc then begin_liquidation l
        else if eventSignature = TopicCollateralEnabled kc then begin_collateral True l
        else if eventSignature = TopicCollateralDisabled kc then begin_collateral False l
        else if eventSignature = TopicUserEModeSet kc then begin_emode l
        else LogDone)"

section \<open>The sections\<close>

text \<open>What a section of the log engine can change: the memory, the task queue and its own set of dirty users.\<close>

record log_view =
  lv_memory :: memory
  lv_queue :: "string list"
  lv_dirty :: "string set"

definition lv_section :: "(state_store \<Rightarrow> state_store) \<Rightarrow> log_view \<Rightarrow> log_view" where
  "lv_section f v = v\<lparr>lv_memory := in_section f (lv_memory v)\<rparr>"

definition mark_dirty :: "string \<Rightarrow> log_view \<Rightarrow> log_view" where
  "mark_dirty u v = v\<lparr>lv_dirty := insert u (lv_dirty v)\<rparr>"

definition write_all :: "string \<Rightarrow> (nat \<times> string \<times> change) list \<Rightarrow> memory \<Rightarrow> memory" where
  "write_all u = fold (\<lambda>(version, a, f). write_reserve (ToLower u) version (ToLower a) f)"

abbreviation lv_store :: "log_view \<Rightarrow> state_store" where "lv_store v \<equiv> mm_store (lv_memory v)"

text \<open>\<open>ord a\<close> is the order in which the holders of an asset are visited.\<close>

fun log_section :: "(string \<Rightarrow> string list) \<Rightarrow> log_pc \<Rightarrow> log_view \<Rightarrow> log_pc \<times> log_view" where
  "log_section ord LogDone v = (LogDone, v)"
| "log_section ord (PutIndex a newIndex) v = (AskHolders a, lv_section (SetGlobalIndex a newIndex) v)"
| "log_section ord (AskHolders a) v = (Feed (GetSubscribers (ord a) (lv_store v) a), v)"
| "log_section ord (Feed []) v = (LogDone, v)"
| "log_section ord (Feed (u # us)) v = (Feed us, v\<lparr>lv_queue := Enqueue u (lv_queue v)\<rparr>)"
| "log_section ord (PutUserMode u catId) v = (LogDone, mark_dirty u (lv_section (SetUserEMode u catId) v))"
| "log_section ord (ReadIndex sel a u f) v =
     (case GetGlobalIndex (lv_store v) a of None \<Rightarrow> (LogDone, v)
      | Some idx \<Rightarrow> if sel idx = 0 then (LogDone, v) else (Acquire u [] [(a, f (sel idx))], v))"
| "log_section ord (ReadDebtIndex d c u x y) v = (ReadCollateralIndex (GetGlobalIndex (lv_store v) d) d c u x y, v)"
| "log_section ord (ReadCollateralIndex debtIdx d c u x y) v =
     (case (debtIdx, GetGlobalIndex (lv_store v) c) of
        (Some di, Some ci) \<Rightarrow>
          (Acquire u [] [(d, sub_debt x (VariableBorrowIndex di)), (c, sub_balance y (LiquidityIndex ci))], v)
      | _ \<Rightarrow> (LogDone, v))"
| "log_section ord (Acquire u got []) v = (WriteReserves u got, v)"
| "log_section ord (Acquire u got ((a, f) # rest)) v =
     (let v' = lv_section (GetUserReserve u a) v; got' = got @ [(mm_version (lv_memory v) (ToLower u), a, f)] in
      (if rest = [] then WriteReserves u got' else Acquire u got' rest, v'))"
| "log_section ord (WriteReserves u got) v =
     (LogDone, mark_dirty u (v\<lparr>lv_memory := write_all u got (lv_memory v)\<rparr>))"

fun run_log :: "nat \<Rightarrow> (string \<Rightarrow> string list) \<Rightarrow> log_pc \<Rightarrow> log_view \<Rightarrow> log_pc \<times> log_view" where
  "run_log 0 ord pc v = (pc, v)"
| "run_log (Suc n) ord pc v = (case log_section ord pc v of (pc', v') \<Rightarrow> run_log n ord pc' v')"

section \<open>A log alone is one step\<close>

definition view_of :: "replay \<Rightarrow> memory \<Rightarrow> log_view" where
  "view_of st m = \<lparr>lv_memory = m, lv_queue = rp_queue st, lv_dirty = dirtyUsers st\<rparr>"

definition agrees :: "replay \<Rightarrow> log_view \<Rightarrow> bool" where
  "agrees st v \<longleftrightarrow> rp_store st = lv_store v \<and> rp_queue st = lv_queue v \<and> dirtyUsers st = lv_dirty v"

lemma run_log_Done [simp]: "run_log n ord LogDone v = (LogDone, v)"
  by (induction n) simp_all

text \<open>The program counter reaches \<open>LogDone\<close> with the effect of \<open>st'\<close>.\<close>

definition runs_to :: "(string \<Rightarrow> string list) \<Rightarrow> log_pc \<Rightarrow> log_view \<Rightarrow> replay \<Rightarrow> bool" where
  "runs_to ord pc v st' \<longleftrightarrow> (\<exists>n v'. run_log n ord pc v = (LogDone, v') \<and> agrees st' v')"

lemma runs_to_done [simp]: "runs_to ord LogDone v st' \<longleftrightarrow> agrees st' v"
  by (auto simp: runs_to_def)

lemma runs_to_step: "log_section ord pc v = (pc', v') \<Longrightarrow> runs_to ord pc' v' st' \<Longrightarrow> runs_to ord pc v st'"
  unfolding runs_to_def by (metis run_log.simps(2) case_prod_conv)

lemma runs_to_Feed:
  "runs_to ord (Feed us) v st'" if "agrees st' (v\<lparr>lv_queue := fold Enqueue us (lv_queue v)\<rparr>)"
  using that
proof (induction us arbitrary: v)
  case Nil
  then show ?case by (auto intro: runs_to_step)
next
  case (Cons u us)
  have "runs_to ord (Feed us) (v\<lparr>lv_queue := Enqueue u (lv_queue v)\<rparr>) st'"
    by (rule Cons.IH) (use Cons.prems in simp)
  then show ?case by (rule runs_to_step [rotated]) simp
qed

lemma update_reserve_lower [simp]: "update_reserve (ToLower u) (ToLower a) f = update_reserve u a f"
  by (simp add: update_reserve_def fun_eq_iff)

lemma view_simps [simp]:
  "lv_memory (lv_section f v) = in_section f (lv_memory v)" "lv_queue (lv_section f v) = lv_queue v"
  "lv_dirty (lv_section f v) = lv_dirty v" "lv_memory (mark_dirty u v) = lv_memory v"
  "lv_queue (mark_dirty u v) = lv_queue v" "lv_dirty (mark_dirty u v) = insert u (lv_dirty v)"
  by (simp_all add: lv_section_def mark_dirty_def)

lemma agrees_section [intro]: "agrees st v \<Longrightarrow> agrees (on_store f st) (lv_section f v)"
  by (simp add: agrees_def)

lemma agrees_dirty [intro]: "agrees st v \<Longrightarrow> agrees (markUserDirty u st) (mark_dirty u v)"
  by (simp add: agrees_def)

lemma write_current: "version = mm_version m u \<Longrightarrow> write_reserve u version a f m = in_section (update_reserve u a f) m"
  by (simp add: write_reserve_def)

lemma acquire_one:
  assumes "agrees st v"
  shows "runs_to ord (Acquire u [] [(a, f)]) v
    (markUserDirty u (on_store (update_reserve u a f) (on_store (GetUserReserve u a) st)))"
proof -
  let ?v = "lv_section (GetUserReserve u a) v"
  have w: "write_all u [(mm_version (lv_memory v) (ToLower u), a, f)] (lv_memory ?v) =
      in_section (update_reserve u a f) (lv_memory ?v)"
    by (simp add: write_all_def write_current)
  have a: "agrees (markUserDirty u (on_store (update_reserve u a f) (on_store (GetUserReserve u a) st)))
      (mark_dirty u (lv_section (update_reserve u a f) ?v))" using assms by blast
  show ?thesis
    by (rule runs_to_step, simp, rule runs_to_step, simp) (use a w in \<open>simp add: lv_section_def\<close>)
qed

lemma acquire_two:
  assumes "agrees st v"
  shows "runs_to ord (Acquire u [] [(d, f), (c, g)]) v
    (markUserDirty u (on_store (update_reserve u c g) (on_store (update_reserve u d f)
      (on_store (GetUserReserve u c) (on_store (GetUserReserve u d) st)))))"
proof -
  let ?v = "lv_section (GetUserReserve u c) (lv_section (GetUserReserve u d) v)"
  have w: "write_all u [(mm_version (lv_memory v) (ToLower u), d, f), (mm_version (lv_memory v) (ToLower u), c, g)] (lv_memory ?v) =
      in_section (update_reserve u c g) (in_section (update_reserve u d f) (lv_memory ?v))"
    by (simp add: write_all_def write_current)
  have a: "agrees (markUserDirty u (on_store (update_reserve u c g) (on_store (update_reserve u d f)
        (on_store (GetUserReserve u c) (on_store (GetUserReserve u d) st)))))
      (mark_dirty u (lv_section (update_reserve u c g) (lv_section (update_reserve u d f) ?v)))" using assms by blast
  show ?thesis
    by (rule runs_to_step, simp, rule runs_to_step, simp, rule runs_to_step, simp)
      (use a w in \<open>simp add: lv_section_def\<close>)
qed

lemma agrees_store: "agrees st v \<Longrightarrow> rp_store st = lv_store v"
  by (simp add: agrees_def)

lemma read_index:
  assumes "agrees st v"
  shows "runs_to ord (ReadIndex sel a u f) v
    (case GetGlobalIndex (rp_store st) a of None \<Rightarrow> st
     | Some g \<Rightarrow> if sel g = 0 then st
         else markUserDirty u (on_store (update_reserve u a (f (sel g))) (on_store (GetUserReserve u a) st)))"
proof (cases "GetGlobalIndex (lv_store v) a")
  case None
  then show ?thesis using assms agrees_store [OF assms] by - (rule runs_to_step [where pc' = LogDone and v' = v], simp_all)
next
  case (Some g)
  show ?thesis
  proof (cases "sel g = 0")
    case True
    then show ?thesis using Some assms agrees_store [OF assms] by - (rule runs_to_step [where pc' = LogDone and v' = v], simp_all)
  next
    case False
    then show ?thesis using Some acquire_one [OF assms] agrees_store [OF assms]
      by - (rule runs_to_step [where pc' = "Acquire u [] [(a, f (sel g))]" and v' = v], simp_all)
  qed
qed

lemma index_alone:
  assumes "agrees st v"
  shows "runs_to ord (begin_index l) v (handleReserveDataUpdated ord l st)"
proof (cases "length (log_Topics l) < 2 \<or> length (TrimPrefix (log_Data l) ''0x'') < 320")
  case True
  then show ?thesis using assms by (auto simp: begin_index_def handleReserveDataUpdated_def Let_def)
next
  case False
  show ?thesis unfolding begin_index_def handleReserveDataUpdated_def Let_def
    using False
    by (simp, intro runs_to_step [OF log_section.simps(2)] runs_to_step [OF log_section.simps(3)] runs_to_Feed)
      (use assms in \<open>simp add: agrees_def EnqueueByAsset_def\<close>)
qed

lemma collateral_alone: "agrees st v \<Longrightarrow> runs_to ord (begin_collateral b l) v (set_collateral b l st)"
  unfolding begin_collateral_def set_collateral_def Let_def set_flag_def [symmetric]
  using acquire_one by simp

lemma supply_alone: "agrees st v \<Longrightarrow> runs_to ord (begin_supply l) v (handleSupply l st)"
  unfolding begin_supply_def handleSupply_def Let_def add_balance_def [symmetric]
  by (simp del: One_nat_def, intro impI read_index)

lemma withdraw_alone: "agrees st v \<Longrightarrow> runs_to ord (begin_withdraw l) v (handleWithdraw l st)"
  unfolding begin_withdraw_def handleWithdraw_def Let_def sub_balance_def [symmetric]
  by (simp del: One_nat_def, intro impI read_index)

lemma borrow_alone: "agrees st v \<Longrightarrow> runs_to ord (begin_borrow l) v (handleBorrow l st)"
  unfolding begin_borrow_def handleBorrow_def Let_def add_debt_def [symmetric]
  by (simp del: One_nat_def, intro impI read_index)

lemma repay_alone: "agrees st v \<Longrightarrow> runs_to ord (begin_repay l) v (handleRepay l st)"
  unfolding begin_repay_def handleRepay_def Let_def sub_debt_def [symmetric]
  by (simp del: One_nat_def, intro impI read_index)

lemma emode_alone: "agrees st v \<Longrightarrow> runs_to ord (begin_emode l) v (handleUserEModeSet l st)"
  unfolding begin_emode_def handleUserEModeSet_def Let_def
  by (auto intro!: runs_to_step [OF log_section.simps(6)] agrees_dirty agrees_section)

lemma liquidation_alone:
  assumes "agrees st v"
  shows "runs_to ord (begin_liquidation l) v (handleLiquidationCall l st)"
proof -
  have "runs_to ord (ReadDebtIndex d c u x y) v
      (case (GetGlobalIndex (rp_store st) d, GetGlobalIndex (rp_store st) c) of
         (Some debtIdx, Some collateralIdx) \<Rightarrow>
           markUserDirty u (on_store (update_reserve u c (sub_balance y (LiquidityIndex collateralIdx)))
             (on_store (update_reserve u d (sub_debt x (VariableBorrowIndex debtIdx)))
               (on_store (GetUserReserve u c) (on_store (GetUserReserve u d) st))))
       | _ \<Rightarrow> st)" for d c u x y
  proof (cases "GetGlobalIndex (rp_store st) d = None \<or> GetGlobalIndex (rp_store st) c = None")
    case True
    have "log_section ord (ReadCollateralIndex (GetGlobalIndex (lv_store v) d) d c u x y) v = (LogDone, v)"
      using True agrees_store [OF assms] by (auto split: option.split)
    from runs_to_step [OF log_section.simps(8) runs_to_step [OF this]] show ?thesis
      using True assms by (auto split: option.split)
  next
    case False
    then obtain di ci where i: "GetGlobalIndex (rp_store st) d = Some di" "GetGlobalIndex (rp_store st) c = Some ci" by auto
    have "log_section ord (ReadCollateralIndex (GetGlobalIndex (lv_store v) d) d c u x y) v =
        (Acquire u [] [(d, sub_debt x (VariableBorrowIndex di)), (c, sub_balance y (LiquidityIndex ci))], v)"
      using i agrees_store [OF assms] by simp
    from runs_to_step [OF log_section.simps(8) runs_to_step [OF this]] show ?thesis
      using acquire_two [OF assms] i by simp
  qed
  then show ?thesis using assms
    unfolding begin_liquidation_def handleLiquidationCall_def Let_def sub_debt_def [symmetric] sub_balance_def [symmetric]
    by (simp del: One_nat_def)
qed

lemma process_alone:
  assumes "agrees st v"
  shows "runs_to ord (begin_log kc l) v (processLog kc ord l st)"
  using assms index_alone [OF assms] collateral_alone [OF assms] supply_alone [OF assms] withdraw_alone [OF assms]
    borrow_alone [OF assms] repay_alone [OF assms] emode_alone [OF assms] liquidation_alone [OF assms]
  by (simp add: begin_log_def processLog_def Let_def handleCollateralEnabled_def handleCollateralDisabled_def)

text \<open>
  the handlers in sections are the handlers in one step. Whatever the log, its sections come to an end, and
  without interference store, task queue and dirty users are then those of \<open>processLog\<close>.
\<close>

theorem sections_are_processLog:
  "\<exists>n v'. run_log n ord (begin_log kc l) v = (LogDone, v') \<and>
     (let st = processLog kc ord l (st0\<lparr>rp_store := lv_store v, rp_queue := lv_queue v, dirtyUsers := lv_dirty v\<rparr>) in
      lv_store v' = rp_store st \<and> lv_queue v' = rp_queue st \<and> lv_dirty v' = dirtyUsers st)"
proof -
  have "agrees (st0\<lparr>rp_store := lv_store v, rp_queue := lv_queue v, dirtyUsers := lv_dirty v\<rparr>) v"
    by (simp add: agrees_def)
  from process_alone [OF this, of ord kc l] show ?thesis unfolding runs_to_def agrees_def Let_def by metis
qed

section \<open>The sections and the store\<close>

context store_relation begin

lemma R_write_all: "R s (mm_store m) \<Longrightarrow> R s (mm_store (write_all u got m))"
proof (induction got arbitrary: m)
  case (Cons h got)
  obtain n a f where "h = (n, a, f)" by (cases h)
  moreover have "R s (mm_store (write_reserve (ToLower u) n (ToLower a) f m))"
    using Cons.prems R_write_reserve R_trans by blast
  ultimately show ?case using Cons.IH by (simp add: write_all_def)
qed (simp add: write_all_def)

lemma R_log_section: "log_section ord pc v = (pc', v') \<Longrightarrow> R (lv_store v) (lv_store v')"
  by (cases "(ord, pc, v)" rule: log_section.cases)
    (auto simp: Let_def R_sections R_write_all split: option.splits if_splits)

end

lemma log_section_queue:
  "log_section ord pc v = (pc', v') \<Longrightarrow> lv_queue v' = lv_queue v \<or> (\<exists>u. lv_queue v' = Enqueue u (lv_queue v))"
  by (cases "(ord, pc, v)" rule: log_section.cases)
    (auto simp: Let_def split: option.splits if_splits)

end
