(* ===== verification/ChainData.thy ===== *)
theory ChainData
  imports Multicall Store
begin

text \<open>
  Reading Aave's state from the chain: \<open>multicall.go\<close> (reserves and E-Mode categories in one batch),
  \<open>onchain_call.go\<close> (single reads), \<open>user_data_on_chain.go\<close> (a whole position) and \<open>pool.go\<close>
  (the list of assets). The ABI codec of go-ethereum is a parameter, one field for each method the
  code packs or unpacks; \<open>None\<close> is its error. A result \<open>None\<close> of a fetch is the Go error.
\<close>

section \<open>What the pool returns\<close>

record reserve_data =
  rd_Configuration :: int
  rd_LiquidityIndex :: int
  rd_VariableBorrowIndex :: int
  rd_Id :: u16
  rd_ATokenAddress :: address
  rd_VariableDebtTokenAddress :: address

record emode_data =
  ed_Ltv :: u16
  ed_LiquidationThreshold :: u16
  ed_LiquidationBonus :: u16
  ed_PriceSource :: address

record aave_abi =
  HexToAddr :: "string \<Rightarrow> address"
  AddrHex :: "address \<Rightarrow> string"
  pack_aggregate3 :: "multicall_call list \<Rightarrow> u8 list option"
  unpack_aggregate3 :: "u8 list \<Rightarrow> multicall_result list option"
  pack_getReserveData :: "address \<Rightarrow> u8 list option"
  unpack_getReserveData :: "u8 list \<Rightarrow> reserve_data option"
  pack_getEModeCategoryData :: "u8 \<Rightarrow> u8 list option"
  unpack_getEModeCategoryData :: "u8 list \<Rightarrow> emode_data option"
  pack_getEModeCategoryCollateralBitmap :: "u8 \<Rightarrow> u8 list option"
  unpack_getEModeCategoryCollateralBitmap :: "u8 list \<Rightarrow> int option"
  pack_getUserEMode :: "address \<Rightarrow> u8 list option"
  unpack_getUserEMode :: "u8 list \<Rightarrow> int option"
  pack_getUserAccountData :: "address \<Rightarrow> u8 list option"
  unpack_getUserAccountData :: "u8 list \<Rightarrow> user_account_data option"
  pack_getUserConfiguration :: "address \<Rightarrow> u8 list option"
  unpack_getUserConfiguration :: "u8 list \<Rightarrow> int option"
  pack_scaledBalanceOf :: "address \<Rightarrow> u8 list option"
  unpack_scaledBalanceOf :: "u8 list \<Rightarrow> int option"
  pack_getReservesList :: "u8 list option"
  unpack_getReservesList :: "u8 list \<Rightarrow> address list option"

section \<open>Reserves\<close>

text \<open>\<open>uint16(And(Rsh(bitmap, n), 0xFFFF).Uint64())\<close>, and the byte of the decimals.\<close>

definition bitmap_u16 :: "int \<Rightarrow> nat \<Rightarrow> u16" where
  "bitmap_u16 b n = ucast (big_Uint64 (big_And (big_Rsh b n) 0xFFFF))"

definition bitmap_byte :: "int \<Rightarrow> nat \<Rightarrow> u64" where
  "bitmap_byte b n = big_Uint64 (big_And (big_Rsh b n) 0xFF)"

definition reserve_config :: "aave_abi \<Rightarrow> reserve_data \<Rightarrow> asset_config" where
  "reserve_config abi r =
     (let configBitmap = rd_Configuration r in
      \<lparr>Decimals = bitmap_byte configBitmap 48,
       LiquidationThreshold = bitmap_u16 configBitmap 16,
       LiquidationBonus = bitmap_u16 configBitmap 32,
       ReserveID = rd_Id r,
       ATokenAddress = AddrHex abi (rd_ATokenAddress r),
       VTokenAddress = AddrHex abi (rd_VariableDebtTokenAddress r),
       LiquidationProtocolFee = bitmap_u16 configBitmap 152\<rparr>)"

definition reserve_index :: "string \<Rightarrow> u64 \<Rightarrow> reserve_data \<Rightarrow> global_index" where
  "reserve_index asset blockNumber r =
     \<lparr>gi_AssetAddress = asset, LiquidityIndex = rd_LiquidityIndex r,
      VariableBorrowIndex = rd_VariableBorrowIndex r, LastUpdateBlock = blockNumber\<rparr>"

text \<open>A call that reverted, or an answer that does not decode, leaves the asset out.\<close>

definition reserve_answer :: "aave_abi \<Rightarrow> multicall_result \<Rightarrow> reserve_data option" where
  "reserve_answer abi res =
     (if \<not> mr_Success res then None else unpack_getReserveData abi (mr_ReturnData res))"

fun reserve_loop ::
    "aave_abi \<Rightarrow> u64 \<Rightarrow> (string \<times> multicall_result) list \<Rightarrow>
     (string \<rightharpoonup> global_index) \<times> (string \<rightharpoonup> asset_config) \<Rightarrow>
     (string \<rightharpoonup> global_index) \<times> (string \<rightharpoonup> asset_config)" where
  "reserve_loop abi b [] acc = acc"
| "reserve_loop abi b ((asset, res) # rs) (indices, configs) =
     (case reserve_answer abi res of
        None \<Rightarrow> reserve_loop abi b rs (indices, configs)
      | Some r \<Rightarrow> reserve_loop abi b rs
          (indices(asset \<mapsto> reserve_index asset b r), configs(asset \<mapsto> reserve_config abi r)))"

definition decodeMulticallResultsSafe ::
    "aave_abi \<Rightarrow> eth_port \<Rightarrow> string \<Rightarrow> string list \<Rightarrow> u64 \<Rightarrow>
     ((string \<rightharpoonup> global_index) \<times> (string \<rightharpoonup> asset_config)) option" where
  "decodeMulticallResultsSafe abi port rawHex assets blockNumber =
     (case hex_Decode port rawHex of None \<Rightarrow> None | Some returnDataBytes \<Rightarrow>
      case unpack_aggregate3 abi returnDataBytes of None \<Rightarrow> None | Some results \<Rightarrow>
      if length results \<noteq> length assets then None
      else Some (reserve_loop abi blockNumber (zip assets results) (Map.empty, Map.empty)))"

fun pack_all :: "('a \<Rightarrow> 'b option) \<Rightarrow> 'a list \<Rightarrow> 'b list option" where
  "pack_all f [] = Some []"
| "pack_all f (x # xs) =
     (case f x of None \<Rightarrow> None | Some y \<Rightarrow> map_option (Cons y) (pack_all f xs))"

definition reserve_call :: "aave_abi \<Rightarrow> string \<Rightarrow> string \<Rightarrow> multicall_call option" where
  "reserve_call abi poolAddress asset =
     map_option (\<lambda>callData. \<lparr>Target = HexToAddr abi poolAddress, AllowFailure = True, CallData = callData\<rparr>)
       (pack_getReserveData abi (HexToAddr abi asset))"

definition BatchFetchReserveData ::
    "aave_abi \<Rightarrow> eth_port \<Rightarrow> address \<Rightarrow> string \<Rightarrow> string list \<Rightarrow> u64 \<Rightarrow>
     ((string \<rightharpoonup> global_index) \<times> (string \<rightharpoonup> asset_config)) option" where
  "BatchFetchReserveData abi port multicallAddr poolAddress assets blockNumber =
     (if assets = [] then Some (Map.empty, Map.empty)
      else case pack_all (reserve_call abi poolAddress) assets of None \<Rightarrow> None | Some calls \<Rightarrow>
        case pack_aggregate3 abi calls of None \<Rightarrow> None | Some payload \<Rightarrow>
        case eth_call_hex port (AddrHex abi multicallAddr) payload (hex_block blockNumber) of
          None \<Rightarrow> None
        | Some resultHex \<Rightarrow> decodeMulticallResultsSafe abi port resultHex assets blockNumber)"

section \<open>E-Mode categories\<close>

text \<open>
  Category 0 is skipped; every other id gives two calls. A packing error is ignored: the call data
  is then empty.
\<close>

definition packed :: "u8 list option \<Rightarrow> u8 list" where
  "packed r = (case r of None \<Rightarrow> [] | Some d \<Rightarrow> d)"

definition emode_calls :: "aave_abi \<Rightarrow> string \<Rightarrow> u8 list \<Rightarrow> multicall_call list" where
  "emode_calls abi poolAddress validIds =
     (let poolAddr = HexToAddr abi poolAddress in
      concat (map (\<lambda>cid.
        [\<lparr>Target = poolAddr, AllowFailure = True, CallData = packed (pack_getEModeCategoryData abi cid)\<rparr>,
         \<lparr>Target = poolAddr, AllowFailure = True,
          CallData = packed (pack_getEModeCategoryCollateralBitmap abi cid)\<rparr>]) validIds))"

definition empty_category :: emode_category where
  "empty_category =
     \<lparr>em_Ltv = 0, em_LiquidationThreshold = 0, em_LiquidationBonus = 0, em_PriceSource = [],
      CollateralBitmap = 0\<rparr>"

definition set_emode_data :: "aave_abi \<Rightarrow> emode_data \<Rightarrow> emode_category \<Rightarrow> emode_category" where
  "set_emode_data abi d cat =
     cat\<lparr>em_Ltv := ed_Ltv d, em_LiquidationThreshold := ed_LiquidationThreshold d,
       em_LiquidationBonus := ed_LiquidationBonus d, em_PriceSource := AddrHex abi (ed_PriceSource d)\<rparr>"

text \<open>
  One part of a category: the reason of a reverted call is decoded for the log (which can panic);
  an answer that does not decode leaves the category as it was.
\<close>

definition emode_part ::
    "(u8 list \<Rightarrow> 'd option) \<Rightarrow> ('d \<Rightarrow> emode_category \<Rightarrow> emode_category) \<Rightarrow> multicall_result \<Rightarrow>
     emode_category \<Rightarrow> emode_category outcome" where
  "emode_part unpack store res cat =
     (if \<not> mr_Success res then bind_outcome (decodeRevertReason (mr_ReturnData res)) (\<lambda>_. Inr cat)
      else case unpack (mr_ReturnData res) of None \<Rightarrow> Inr cat | Some d \<Rightarrow> Inr (store d cat))"

definition decode_category ::
    "aave_abi \<Rightarrow> multicall_result \<Rightarrow> multicall_result \<Rightarrow> emode_category outcome" where
  "decode_category abi configRes bitmapRes =
     bind_outcome (emode_part (unpack_getEModeCategoryData abi) (set_emode_data abi) configRes empty_category)
       (emode_part (unpack_getEModeCategoryCollateralBitmap abi) (\<lambda>bm cat. cat\<lparr>CollateralBitmap := bm\<rparr>) bitmapRes)"

fun emode_loop ::
    "aave_abi \<Rightarrow> multicall_result list \<Rightarrow> nat \<Rightarrow> u8 list \<Rightarrow> (u8 \<rightharpoonup> emode_category) \<Rightarrow>
     (u8 \<rightharpoonup> emode_category) outcome" where
  "emode_loop abi results i [] categories = Inr categories"
| "emode_loop abi results i (cid # cids) categories =
     (if length results \<le> i * 2 + 1 then Inl IndexOutOfRange
      else let configRes = results ! (i * 2); bitmapRes = results ! (i * 2 + 1) in
        bind_outcome (decode_category abi configRes bitmapRes) (\<lambda>cat.
          emode_loop abi results (i + 1) cids
            (if mr_Success configRes then categories(cid \<mapsto> cat) else categories)))"

definition BatchFetchEModeCategories ::
    "aave_abi \<Rightarrow> eth_port \<Rightarrow> address \<Rightarrow> string \<Rightarrow> u8 list \<Rightarrow> u64 \<Rightarrow> (u8 \<rightharpoonup> emode_category) option outcome" where
  "BatchFetchEModeCategories abi port multicallAddr poolAddress categoryIds blockNumber =
     (let validIds = filter (\<lambda>cid. cid \<noteq> 0) categoryIds in
      if validIds = [] then Inr (Some Map.empty)
      else case pack_aggregate3 abi (emode_calls abi poolAddress validIds) of None \<Rightarrow> Inr None | Some payload \<Rightarrow>
        case eth_call_bytes port (AddrHex abi multicallAddr) payload (hex_block blockNumber) of
          None \<Rightarrow> Inr None
        | Some returnDataBytes \<Rightarrow>
            (case unpack_aggregate3 abi returnDataBytes of None \<Rightarrow> Inr None
             | Some results \<Rightarrow> map_sum id Some (emode_loop abi results 0 validIds Map.empty)))"

section \<open>Single reads\<close>

definition latest :: string where "latest = ''latest''"

definition FetchIndicesAtBlock ::
    "aave_abi \<Rightarrow> eth_port \<Rightarrow> string \<Rightarrow> string \<Rightarrow> u64 \<Rightarrow> global_index option" where
  "FetchIndicesAtBlock abi port poolAddress assetAddress blockNumber =
     (case pack_getReserveData abi (HexToAddr abi assetAddress) of None \<Rightarrow> None | Some dataPayload \<Rightarrow>
      case eth_call_bytes port poolAddress dataPayload (hex_block blockNumber) of None \<Rightarrow> None | Some returnData \<Rightarrow>
      map_option (reserve_index assetAddress blockNumber) (unpack_getReserveData abi returnData))"

definition FetchEModeCategory :: "aave_abi \<Rightarrow> eth_port \<Rightarrow> string \<Rightarrow> u8 \<Rightarrow> emode_category option" where
  "FetchEModeCategory abi port poolAddress categoryId =
     (case pack_getEModeCategoryData abi categoryId of None \<Rightarrow> None | Some configPayload \<Rightarrow>
      case eth_call_bytes port poolAddress configPayload latest of None \<Rightarrow> None | Some configData \<Rightarrow>
      case unpack_getEModeCategoryData abi configData of None \<Rightarrow> None | Some emodeData \<Rightarrow>
      case pack_getEModeCategoryCollateralBitmap abi categoryId of None \<Rightarrow> None | Some bitmapPayload \<Rightarrow>
      case eth_call_bytes port poolAddress bitmapPayload latest of None \<Rightarrow> None | Some bitmapData \<Rightarrow>
      case unpack_getEModeCategoryCollateralBitmap abi bitmapData of None \<Rightarrow> None | Some collateralBitmap \<Rightarrow>
        Some ((set_emode_data abi emodeData empty_category)\<lparr>CollateralBitmap := collateralBitmap\<rparr>))"

text \<open>
  \<open>FetchUserEMode\<close> reads the hexadecimal text itself and ignores the verdict of \<open>SetString\<close>, whose
  result is \<open>nil\<close> for a text that is no number.
\<close>

definition FetchUserEMode :: "aave_abi \<Rightarrow> eth_port \<Rightarrow> string \<Rightarrow> string \<Rightarrow> u8 option outcome" where
  "FetchUserEMode abi port poolAddress userAddress =
     (case pack_getUserEMode abi (HexToAddr abi userAddress) of None \<Rightarrow> Inr None | Some dataPayload \<Rightarrow>
      case eth_call_hex port poolAddress dataPayload latest of None \<Rightarrow> Inr None | Some resHex \<Rightarrow>
      let hexData = TrimPrefix resHex ''0x'' in
      if hexData = [] then Inr (Some 0)
      else case big_SetString hexData 16 of
             None \<Rightarrow> Inl NilDereference
           | Some val \<Rightarrow> Inr (Some (ucast (big_Uint64 val))))"

text \<open>\<open>pool.go\<close>: the addresses of the reserves in lower case, in the contract's order.\<close>

definition FetchReservesList :: "aave_abi \<Rightarrow> eth_port \<Rightarrow> string \<Rightarrow> string list option" where
  "FetchReservesList abi port poolAddr =
     (case pack_getReservesList abi of None \<Rightarrow> None | Some callDataBytes \<Rightarrow>
      case eth_call_bytes port poolAddr callDataBytes latest of None \<Rightarrow> None | Some returnDataBytes \<Rightarrow>
      map_option (map (\<lambda>addr. ToLower (AddrHex abi addr))) (unpack_getReservesList abi returnDataBytes))"

section \<open>A user's position\<close>

record asset_meta =
  am_AssetAddress :: string
  am_ATokenAddress :: string
  am_VTokenAddress :: string
  am_ReserveIndex :: u16

definition meta_of :: "string \<times> asset_config \<Rightarrow> asset_meta" where
  "meta_of = (\<lambda>(assetAddr, cfg).
     \<lparr>am_AssetAddress = assetAddr, am_ATokenAddress = ATokenAddress cfg,
      am_VTokenAddress = VTokenAddress cfg, am_ReserveIndex = ReserveID cfg\<rparr>)"

definition packABIData :: "u8 list option \<Rightarrow> u8 list outcome" where
  "packABIData r = (case r of None \<Rightarrow> Inl PanicCall | Some data \<Rightarrow> Inr data)"

definition unpackSafeBytes :: "(u8 list \<Rightarrow> 'a option) \<Rightarrow> u8 list \<Rightarrow> 'a option" where
  "unpackSafeBytes unpack data = (if data = [] then None else unpack data)"

definition strict_call :: "address \<Rightarrow> u8 list \<Rightarrow> multicall_call" where
  "strict_call target data = \<lparr>Target = target, AllowFailure = False, CallData = data\<rparr>"

fun balance_calls :: "aave_abi \<Rightarrow> address \<Rightarrow> asset_meta list \<Rightarrow> multicall_call list outcome" where
  "balance_calls abi user [] = Inr []"
| "balance_calls abi user (a # as) =
     bind_outcome (packABIData (pack_scaledBalanceOf abi user)) (\<lambda>d1.
     bind_outcome (packABIData (pack_scaledBalanceOf abi user)) (\<lambda>d2.
     bind_outcome (balance_calls abi user as) (\<lambda>cs.
       Inr (strict_call (HexToAddr abi (am_ATokenAddress a)) d1 #
            strict_call (HexToAddr abi (am_VTokenAddress a)) d2 # cs))))"

definition position_calls ::
    "aave_abi \<Rightarrow> address \<Rightarrow> address \<Rightarrow> asset_meta list \<Rightarrow> multicall_call list outcome" where
  "position_calls abi pool user assets =
     bind_outcome (packABIData (pack_getUserAccountData abi user)) (\<lambda>d1.
     bind_outcome (packABIData (pack_getUserEMode abi user)) (\<lambda>d2.
     bind_outcome (packABIData (pack_getUserConfiguration abi user)) (\<lambda>d3.
     bind_outcome (balance_calls abi user assets) (\<lambda>cs.
       Inr (strict_call pool d1 # strict_call pool d2 # strict_call pool d3 # cs)))))"

text \<open>The bit of an asset in the user's configuration: the index is computed in 16 bits.\<close>

definition is_collateral :: "int \<Rightarrow> u16 \<Rightarrow> bool" where
  "is_collateral configData reserveIndex =
     (let bitIndex = unat (reserveIndex * 2 + 1) in big_And (big_Rsh configData bitIndex) 1 = 1)"

fun position_loop ::
    "aave_abi \<Rightarrow> int \<Rightarrow> multicall_result list \<Rightarrow> nat \<Rightarrow> asset_meta list \<Rightarrow> user_position \<Rightarrow> user_position option" where
  "position_loop abi configData returnDatas i [] position = Some position"
| "position_loop abi configData returnDatas i (asset # assets) position =
     (let aTokenResult = returnDatas ! (3 + i * 2); vTokenResult = returnDatas ! (3 + i * 2 + 1) in
      if \<not> mr_Success aTokenResult \<or> \<not> mr_Success vTokenResult then None
      else case unpackSafeBytes (unpack_scaledBalanceOf abi) (mr_ReturnData aTokenResult) of None \<Rightarrow> None | Some aBal \<Rightarrow>
        case unpackSafeBytes (unpack_scaledBalanceOf abi) (mr_ReturnData vTokenResult) of None \<Rightarrow> None | Some vBal \<Rightarrow>
          position_loop abi configData returnDatas (i + 1) assets
            (position\<lparr>Reserves := (Reserves position)(am_AssetAddress asset \<mapsto>
              \<lparr>AssetAddress = am_AssetAddress asset, ScaledATokenBalance = aBal, ScaledVariableDebt = vBal,
               UsageAsCollateralEnabledOnUser = is_collateral configData (am_ReserveIndex asset)\<rparr>)\<rparr>))"

definition head_answer :: "(u8 list \<Rightarrow> 'a option) \<Rightarrow> multicall_result \<Rightarrow> 'a option" where
  "head_answer unpack res = (if \<not> mr_Success res then None else unpackSafeBytes unpack (mr_ReturnData res))"

definition decode_position ::
    "aave_abi \<Rightarrow> string \<Rightarrow> asset_meta list \<Rightarrow> multicall_result list \<Rightarrow> (user_account_data \<times> user_position) option" where
  "decode_position abi userAddress assets returnDatas =
     (case head_answer (unpack_getUserAccountData abi) (returnDatas ! 0) of None \<Rightarrow> None | Some acctData \<Rightarrow>
      case head_answer (unpack_getUserEMode abi) (returnDatas ! 1) of None \<Rightarrow> None | Some emodeRaw \<Rightarrow>
      case head_answer (unpack_getUserConfiguration abi) (returnDatas ! 2) of None \<Rightarrow> None | Some configData \<Rightarrow>
        map_option (Pair acctData) (position_loop abi configData returnDatas 0 assets
          \<lparr>UserAddress = ToLower userAddress, Reserves = Map.empty,
           EModeCategoryId = ucast (big_Uint64 emodeRaw), EModeFetched = True\<rparr>))"

text \<open>\<open>ord\<close> is the order in which the map of asset configurations is visited.\<close>

definition FetchUserPositionBatchAtBlock ::
    "aave_abi \<Rightarrow> eth_port \<Rightarrow> address \<Rightarrow> string list \<Rightarrow> string \<Rightarrow> string \<Rightarrow> u64 \<Rightarrow> state_store \<Rightarrow>
     (user_account_data \<times> user_position) option outcome" where
  "FetchUserPositionBatchAtBlock abi port multicallAddr ord poolAddress userAddress blockNum s =
     (let blockParam = (if blockNum > 0 then hex_block blockNum else latest);
          assets = map meta_of (visit (assetConfigs s) ord) in
      bind_outcome (position_calls abi (HexToAddr abi poolAddress) (HexToAddr abi userAddress) assets) (\<lambda>calls. Inr (
        case pack_aggregate3 abi calls of None \<Rightarrow> None | Some multicallData \<Rightarrow>
        case eth_call_bytes port (AddrHex abi multicallAddr) multicallData blockParam of None \<Rightarrow> None | Some resBytes \<Rightarrow>
        case unpack_aggregate3 abi resBytes of None \<Rightarrow> None | Some returnDatas \<Rightarrow>
        if length returnDatas \<noteq> length calls then None
        else decode_position abi userAddress assets returnDatas)))"

section \<open>What the fetches return\<close>

text \<open>
  \<open>answers\<close> is a completed Multicall3 round trip: the calls are packed, the node replies to the
  payload at the block, and the reply decodes to the results.
\<close>

definition answers ::
    "aave_abi \<Rightarrow> eth_port \<Rightarrow> address \<Rightarrow> string \<Rightarrow> multicall_call list \<Rightarrow> multicall_result list \<Rightarrow> bool" where
  "answers abi port multicallAddr block calls results \<longleftrightarrow>
     (case pack_aggregate3 abi calls of None \<Rightarrow> False | Some payload \<Rightarrow>
      case eth_call_bytes port (AddrHex abi multicallAddr) payload block of None \<Rightarrow> False | Some bytes \<Rightarrow>
      unpack_aggregate3 abi bytes = Some results)"

lemma answersD:
  assumes "answers abi port mc block calls results"
  obtains payload bytes where "pack_aggregate3 abi calls = Some payload"
    "eth_call_bytes port (AddrHex abi mc) payload block = Some bytes" "unpack_aggregate3 abi bytes = Some results"
  using assms by (auto simp: answers_def split: option.splits)

subsection \<open>The configuration bitmap\<close>

text \<open>Aave's \<open>ReserveConfigurationMap\<close>: the fields the bot reads, with what lies between them.\<close>

definition aave_bitmap :: "u16 \<Rightarrow> u16 \<Rightarrow> u16 \<Rightarrow> u8 \<Rightarrow> int \<Rightarrow> u16 \<Rightarrow> int \<Rightarrow> int" where
  "aave_bitmap ltv lt bonus dec mid fee high =
     uint ltv + 2 ^ 16 * uint lt + 2 ^ 32 * uint bonus + 2 ^ 48 * uint dec + 2 ^ 56 * mid +
     2 ^ 152 * uint fee + 2 ^ 168 * high"

lemma field_at:
  assumes "0 \<le> low" and "low < 2 ^ n" and "0 \<le> x" and "x < 2 ^ w"
  shows "(low + 2 ^ n * x + 2 ^ (n + w) * rest) div 2 ^ n mod 2 ^ w = (x :: int)"
proof -
  have "low + 2 ^ n * x + 2 ^ (n + w) * rest = low + 2 ^ n * (x + 2 ^ w * rest)"
    by (simp add: power_add algebra_simps)
  then have "(low + 2 ^ n * x + 2 ^ (n + w) * rest) div 2 ^ n = x + 2 ^ w * rest"
    using assms(1,2) by (simp only: div_mult_self2 power_not_zero) simp
  then show ?thesis using assms(3,4) by simp
qed

lemma field_of:
  assumes "b = low + 2 ^ n * x + 2 ^ (n + w) * rest" and "0 \<le> low" and "low < 2 ^ n" and "0 \<le> x" and "x < 2 ^ w"
  shows "b div 2 ^ n mod 2 ^ w = (x :: int)"
  using field_at [OF assms(2-5)] assms(1) by simp

lemma bitmap_u16_mod: "bitmap_u16 b n = word_of_int (b div 2 ^ n mod 2 ^ 16)"
  using big_And_mask [of "b div 2 ^ n" 16]
  by (simp add: bitmap_u16_def big_Rsh_div big_Uint64_def unsigned_of_int take_bit_int_eq_self ucast_eq)

lemma bitmap_byte_mod: "bitmap_byte b n = word_of_int (b div 2 ^ n mod 2 ^ 8)"
  using big_And_mask [of "b div 2 ^ n" 8] by (simp add: bitmap_byte_def big_Rsh_div big_Uint64_def)

lemma u16_bound: "0 \<le> uint (x :: u16) \<and> uint x < 2 ^ 16"
  using uint_lt2p [of x] by simp

lemma u8_bound: "0 \<le> uint (x :: u8) \<and> uint x < 2 ^ 8"
  using uint_lt2p [of x] by simp

text \<open>
  C35: the reserve configuration is read from the right bits: for every bitmap in Aave's layout, with any
  values in the fields between, \<open>decodeMulticallResultsSafe\<close>'s shifts and masks return exactly the
  threshold, bonus, decimals and protocol fee that were stored.
\<close>

theorem reserve_config_roundtrip:
  assumes "0 \<le> mid" and "mid < 2 ^ 96"
    and "rd_Configuration r = aave_bitmap ltv lt bonus dec mid fee high"
  shows "LiquidationThreshold (reserve_config abi r) = lt \<and> LiquidationBonus (reserve_config abi r) = bonus \<and>
    Decimals (reserve_config abi r) = ucast dec \<and> LiquidationProtocolFee (reserve_config abi r) = fee"
proof -
  note b = u16_bound [of ltv] u16_bound [of lt] u16_bound [of bonus] u16_bound [of fee] u8_bound [of dec]
  let ?b = "aave_bitmap ltv lt bonus dec mid fee high"
  have "?b div 2 ^ 16 mod 2 ^ 16 = uint lt"
    by (rule field_of [where low = "uint ltv" and
      rest = "uint bonus + 2 ^ 16 * uint dec + 2 ^ 24 * mid + 2 ^ 120 * uint fee + 2 ^ 136 * high"])
      (use b in \<open>simp_all add: aave_bitmap_def distrib_left\<close>)
  moreover have "?b div 2 ^ 32 mod 2 ^ 16 = uint bonus"
    by (rule field_of [where low = "uint ltv + 2 ^ 16 * uint lt" and
      rest = "uint dec + 2 ^ 8 * mid + 2 ^ 104 * uint fee + 2 ^ 120 * high"])
      (use b in \<open>simp_all add: aave_bitmap_def distrib_left\<close>)
  moreover have "?b div 2 ^ 48 mod 2 ^ 8 = uint dec"
    by (rule field_of [where low = "uint ltv + 2 ^ 16 * uint lt + 2 ^ 32 * uint bonus" and
      rest = "mid + 2 ^ 96 * uint fee + 2 ^ 112 * high"])
      (use b in \<open>simp_all add: aave_bitmap_def distrib_left\<close>)
  moreover have "?b div 2 ^ 152 mod 2 ^ 16 = uint fee"
    by (rule field_of [where low = "uint ltv + 2 ^ 16 * uint lt + 2 ^ 32 * uint bonus + 2 ^ 48 * uint dec + 2 ^ 56 * mid"
      and rest = high])
      (use b assms(1,2) in \<open>simp_all add: aave_bitmap_def distrib_left\<close>)
  ultimately show ?thesis
    by (simp_all only: reserve_config_def assms(3) Let_def asset_config.select_convs bitmap_u16_mod bitmap_byte_mod
        word_of_int_uint ucast_eq simp_thms)
qed

definition toy_abi :: aave_abi where
  "toy_abi =
     \<lparr>HexToAddr = (\<lambda>s. of_nat (length s)), AddrHex = (\<lambda>_. ''0x00''),
      pack_aggregate3 = (\<lambda>_. Some []), unpack_aggregate3 = (\<lambda>_. None),
      pack_getReserveData = (\<lambda>_. Some []), unpack_getReserveData = (\<lambda>d. case d of [] \<Rightarrow> None | x # _ \<Rightarrow>
        Some \<lparr>rd_Configuration = uint x * 2 ^ 16, rd_LiquidityIndex = RAY, rd_VariableBorrowIndex = 2 * RAY,
          rd_Id = ucast x, rd_ATokenAddress = 1, rd_VariableDebtTokenAddress = 2\<rparr>),
      pack_getEModeCategoryData = (\<lambda>_. Some []), unpack_getEModeCategoryData = (\<lambda>d. case d of [] \<Rightarrow> None | x # _ \<Rightarrow>
        Some \<lparr>ed_Ltv = ucast x, ed_LiquidationThreshold = 9500, ed_LiquidationBonus = 10100, ed_PriceSource = 0\<rparr>),
      pack_getEModeCategoryCollateralBitmap = (\<lambda>_. Some []),
      unpack_getEModeCategoryCollateralBitmap = (\<lambda>d. case d of [] \<Rightarrow> None | x # _ \<Rightarrow> Some (uint x)),
      pack_getUserEMode = (\<lambda>_. Some [1]), unpack_getUserEMode = (\<lambda>d. Some 1),
      pack_getUserAccountData = (\<lambda>_. Some [2]), unpack_getUserAccountData = (\<lambda>d.
        Some \<lparr>acct_TotalCollateralBase = 100, acct_TotalDebtBase = 50, acct_HealthFactor = WAD\<rparr>),
      pack_getUserConfiguration = (\<lambda>_. Some [3]), unpack_getUserConfiguration = (\<lambda>d. Some 2),
      pack_scaledBalanceOf = (\<lambda>_. Some [4]), unpack_scaledBalanceOf = (\<lambda>d. case d of [] \<Rightarrow> None | x # _ \<Rightarrow> Some (uint x)),
      pack_getReservesList = Some [5], unpack_getReservesList = (\<lambda>_. None)\<rparr>"

text \<open>A node whose only answer is \<open>"0x"\<close>, with a codec that reads it as the given results.\<close>

definition toy_port :: eth_port where
  "toy_port = \<lparr>eth_call = (\<lambda>_ _ _. Some [CHR 0x22, CHR ''0'', CHR ''x'', CHR 0x22]), hex_Decode = (\<lambda>_. Some [])\<rparr>"

definition toy_answering :: "multicall_result list \<Rightarrow> aave_abi" where
  "toy_answering rs = toy_abi\<lparr>unpack_aggregate3 := (\<lambda>_. Some rs)\<rparr>"

theorem reserve_config_roundtrip_witness:
  "LiquidationThreshold (reserve_config toy_abi
      \<lparr>rd_Configuration = aave_bitmap 8000 8500 10500 18 7 1000 3, rd_LiquidityIndex = RAY, rd_VariableBorrowIndex = RAY,
       rd_Id = 4, rd_ATokenAddress = 1, rd_VariableDebtTokenAddress = 2\<rparr>) = 8500"
  by (rule reserve_config_roundtrip [THEN conjunct1, where mid1 = 7 and ltv1 = 8000 and bonus1 = 10500 and dec1 = 18
      and fee1 = 1000 and high1 = 3]) simp_all

subsection \<open>The batch of reserves\<close>

lemma reserve_loop_map:
  "distinct (map fst rs) \<Longrightarrow> reserve_loop abi b rs (indices, configs) =
     ((\<lambda>a. case Option.bind (map_of rs a) (reserve_answer abi) of
            None \<Rightarrow> indices a | Some r \<Rightarrow> Some (reserve_index a b r)),
      (\<lambda>a. case Option.bind (map_of rs a) (reserve_answer abi) of
            None \<Rightarrow> configs a | Some r \<Rightarrow> Some (reserve_config abi r)))"
proof (induction rs arbitrary: indices configs)
  case (Cons p rs)
  obtain asset res where p: "p = (asset, res)" by (cases p)
  then have "map_of rs asset = None" using Cons.prems by (auto simp: map_of_eq_None_iff)
  then show ?case using Cons p by (auto simp: fun_eq_iff split: option.split)
qed simp

text \<open>
  C36: a batch of reserves returns for each asset what the chain answered for that asset: when the node
  replies to the \<open>aggregate3\<close> call, \<open>BatchFetchReserveData\<close> gives an index and a configuration for
  exactly the assets whose own call succeeded and decoded, nothing for the others, and an error when
  the number of results is not the number of assets.
\<close>

theorem batch_reserves_exact:
  assumes "distinct assets" and "assets \<noteq> []"
    and "pack_all (reserve_call abi pool) assets = Some calls"
    and "answers abi port mc (hex_block b) calls results"
  shows "BatchFetchReserveData abi port mc pool assets b =
    (if length results \<noteq> length assets then None
     else let answer = (\<lambda>a. Option.bind (map_of (zip assets results) a) (reserve_answer abi)) in
       Some (\<lambda>a. map_option (reserve_index a b) (answer a), \<lambda>a. map_option (reserve_config abi) (answer a)))"
proof -
  obtain payload bytes where a: "pack_aggregate3 abi calls = Some payload"
    "eth_call_bytes port (AddrHex abi mc) payload (hex_block b) = Some bytes" "unpack_aggregate3 abi bytes = Some results"
    using assms(4) by (rule answersD)
  then obtain hex where h: "eth_call_hex port (AddrHex abi mc) payload (hex_block b) = Some hex"
    "hex_Decode port hex = Some bytes"
    by (auto simp: eth_call_bytes_def split: option.splits)
  have "distinct (map fst (zip assets results))" if "length results = length assets"
    using assms(1) that by simp
  then show ?thesis
    using assms a h
    by (auto simp: BatchFetchReserveData_def decodeMulticallResultsSafe_def reserve_loop_map Let_def fun_eq_iff
        split: option.split)
qed

theorem batch_reserves_exact_witness:
  "map_option (\<lambda>(indices, configs). (map_option LastUpdateBlock (indices ''a''), map_option LiquidationThreshold (configs ''a''),
      Option.is_none (configs ''b'')))
    (BatchFetchReserveData (toy_answering [\<lparr>mr_Success = True, mr_ReturnData = [7]\<rparr>, \<lparr>mr_Success = False, mr_ReturnData = []\<rparr>])
      toy_port 0 ''pool'' [''a'', ''b''] 9) = Some (Some 9, Some 7, True)"
proof -
  let ?rs = "[\<lparr>mr_Success = True, mr_ReturnData = [7]\<rparr>, \<lparr>mr_Success = False, mr_ReturnData = []\<rparr>]"
  let ?c = "\<lparr>Target = 4, AllowFailure = True, CallData = []\<rparr>"
  have p: "pack_all (reserve_call (toy_answering ?rs) ''pool'') [''a'', ''b''] = Some [?c, ?c]" by code_simp
  have a: "answers (toy_answering ?rs) toy_port 0 (hex_block 9) [?c, ?c] ?rs" by code_simp
  have d: "distinct [''a'', ''b'']" by simp
  show ?thesis
    unfolding batch_reserves_exact [OF d _ p a, simplified] by code_simp
qed

subsection \<open>The batch of E-Mode categories\<close>

lemma emode_loop_prefix:
  assumes "emode_loop abi results i cids acc = Inr m" and "distinct cids"
  shows "\<forall>k < length cids. \<exists>cat. decode_category abi (results ! (2 * (i + k))) (results ! (2 * (i + k) + 1)) = Inr cat \<and>
      m (cids ! k) = (if mr_Success (results ! (2 * (i + k))) then Some cat else acc (cids ! k))"
    and "\<forall>c. c \<notin> set cids \<longrightarrow> m c = acc c"
  using assms
proof (induction cids arbitrary: i acc)
  case (Cons cid cids)
  {
    case 1
    then obtain cat where cat: "decode_category abi (results ! (2 * i)) (results ! (2 * i + 1)) = Inr cat"
      and rest: "emode_loop abi results (i + 1) cids
        (if mr_Success (results ! (2 * i)) then acc(cid \<mapsto> cat) else acc) = Inr m"
      by (auto simp: bind_outcome_Inr_iff Let_def mult.commute split: if_splits)
    have IH: "\<forall>k < length cids. \<exists>cat. decode_category abi (results ! (2 * (i + 1 + k))) (results ! (2 * (i + 1 + k) + 1)) = Inr cat \<and>
      m (cids ! k) = (if mr_Success (results ! (2 * (i + 1 + k))) then Some cat else acc (cids ! k))"
      using Cons.IH(1) [OF rest] 1(2) by (auto split: if_splits)
    have out: "m cid = (if mr_Success (results ! (2 * i)) then Some cat else acc cid)"
      using Cons.IH(2) [OF rest] 1(2) by auto
    show ?case
    proof (intro allI impI)
      fix k assume "k < length (cid # cids)"
      then show "\<exists>cat. decode_category abi (results ! (2 * (i + k))) (results ! (2 * (i + k) + 1)) = Inr cat \<and>
        m ((cid # cids) ! k) = (if mr_Success (results ! (2 * (i + k))) then Some cat else acc ((cid # cids) ! k))"
        using IH out cat by (cases k) auto
    qed
  next
    case 2
    then show ?case using Cons.IH(2) [of "i + 1"]
      by (auto simp: bind_outcome_Inr_iff Let_def split: if_splits)
  }
qed simp_all

lemma emode_loop_short:
  "length results < 2 * (i + length cids) \<Longrightarrow> cids \<noteq> [] \<Longrightarrow> \<exists>e. emode_loop abi results i cids acc = Inl e"
proof (induction cids arbitrary: i acc)
  case (Cons cid cids)
  show ?case
  proof (cases "length results \<le> i * 2 + 1")
    case False
    then have "cids \<noteq> []" using Cons.prems by auto
    then show ?thesis using Cons False
      by (cases "decode_category abi (results ! (i * 2)) (results ! (i * 2 + 1))") (simp_all add: Let_def)
  qed simp
qed simp

text \<open>
  the batch of E-Mode categories pairs every answer with its own category: a returned map has, for
  the category at position \<open>k\<close> of the non-zero ids, the data of results \<open>2k\<close> and \<open>2k + 1\<close> exactly when the
  call for its parameters succeeded, and nothing else. It never has category 0. A reply with fewer
  results than calls is not an error but a panic.
\<close>

theorem emode_batch_exact:
  assumes "distinct ids" and "valid = filter (\<lambda>cid. cid \<noteq> 0) ids" and "valid \<noteq> []"
    and "answers abi port mc (hex_block b) (emode_calls abi pool valid) results"
  shows "(case BatchFetchEModeCategories abi port mc pool ids b of
      Inl e \<Rightarrow> True
    | Inr None \<Rightarrow> False
    | Inr (Some m) \<Rightarrow> 2 * length valid \<le> length results \<and> dom m \<subseteq> set valid \<and>
        (\<forall>k < length valid. m (valid ! k) =
          (if mr_Success (results ! (2 * k))
           then Some (projr (decode_category abi (results ! (2 * k)) (results ! (2 * k + 1)))) else None))) \<and>
    (length results < 2 * length valid \<longrightarrow> isl (BatchFetchEModeCategories abi port mc pool ids b))"
proof -
  obtain payload bytes where "pack_aggregate3 abi (emode_calls abi pool valid) = Some payload"
    "eth_call_bytes port (AddrHex abi mc) payload (hex_block b) = Some bytes" "unpack_aggregate3 abi bytes = Some results"
    using assms(4) by (rule answersD)
  then have f: "BatchFetchEModeCategories abi port mc pool ids b =
      map_sum id Some (emode_loop abi results 0 valid Map.empty)"
    using assms(3) by (simp add: BatchFetchEModeCategories_def flip: assms(2))
  have short: "isl (emode_loop abi results 0 valid Map.empty)" if "length results < 2 * length valid"
    using emode_loop_short [of results 0 valid] that assms(3) by (auto simp: isl_def)
  have d: "distinct valid" using assms(1,2) by simp
  show ?thesis
  proof (cases "emode_loop abi results 0 valid Map.empty")
    case (Inl e)
    then show ?thesis by (simp add: f)
  next
    case (Inr m)
    have len: "2 * length valid \<le> length results" using short Inr by (simp add: not_less [symmetric]) blast
    have "m (valid ! k) = (if mr_Success (results ! (2 * k))
        then Some (projr (decode_category abi (results ! (2 * k)) (results ! (2 * k + 1)))) else None)"
      if "k < length valid" for k
      using emode_loop_prefix(1) [OF Inr d] that by fastforce
    moreover have "dom m \<subseteq> set valid" using emode_loop_prefix(2) [OF Inr d] by auto
    ultimately show ?thesis using Inr len by (simp add: f)
  qed
qed

theorem emode_batch_exact_witness:
  "map_sum id (map_option (\<lambda>m. (map_option em_Ltv (m 1), map_option CollateralBitmap (m 1), Option.is_none (m 3))))
     (BatchFetchEModeCategories (toy_answering
       [\<lparr>mr_Success = True, mr_ReturnData = [90]\<rparr>, \<lparr>mr_Success = True, mr_ReturnData = [5]\<rparr>,
        \<lparr>mr_Success = False, mr_ReturnData = []\<rparr>, \<lparr>mr_Success = False, mr_ReturnData = []\<rparr>])
       toy_port 0 ''pool'' [0, 1, 3] 9) = Inr (Some (Some 90, Some 5, True)) \<and>
   isl (BatchFetchEModeCategories (toy_answering [\<lparr>mr_Success = True, mr_ReturnData = [90]\<rparr>])
       toy_port 0 ''pool'' [0, 1, 3] 9)"
proof -
  have d: "distinct [0, 1, 3 :: u8]" by simp
  have v: "[1, 3] = filter (\<lambda>cid. cid \<noteq> 0) [0, 1, 3 :: u8]" by simp
  let ?short = "[\<lparr>mr_Success = True, mr_ReturnData = [90]\<rparr>]"
  have a: "answers (toy_answering ?short) toy_port 0 (hex_block 9)
      (emode_calls (toy_answering ?short) ''pool'' [1, 3]) ?short" by code_simp
  have "isl (BatchFetchEModeCategories (toy_answering ?short) toy_port 0 ''pool'' [0, 1, 3] 9)"
    using emode_batch_exact [OF d v _ a] by simp
  then show ?thesis by (intro conjI) code_simp
qed

subsection \<open>A whole position\<close>

text \<open>
  \<open>chain_reads\<close>: how a node executes the calls about a user, for call data \<open>dA\<close>, \<open>dE\<close>, \<open>dC\<close>, \<open>dB\<close>:
  every call succeeds, with the account data, the E-Mode, the configuration and, for a token contract,
  the scaled balance.
\<close>

definition chain_reads ::
    "aave_abi \<Rightarrow> (multicall_call \<Rightarrow> multicall_result) \<Rightarrow> address \<Rightarrow> address \<Rightarrow> user_account_data \<Rightarrow> int \<Rightarrow> int \<Rightarrow>
     (address \<Rightarrow> int) \<Rightarrow> bool" where
  "chain_reads abi exec pool user acct emode conf bal \<longleftrightarrow>
     (case (pack_getUserAccountData abi user, pack_getUserEMode abi user,
            pack_getUserConfiguration abi user, pack_scaledBalanceOf abi user) of
        (Some dA, Some dE, Some dC, Some dB) \<Rightarrow>
          head_answer (unpack_getUserAccountData abi) (exec (strict_call pool dA)) = Some acct \<and>
          head_answer (unpack_getUserEMode abi) (exec (strict_call pool dE)) = Some emode \<and>
          head_answer (unpack_getUserConfiguration abi) (exec (strict_call pool dC)) = Some conf \<and>
          (\<forall>token. head_answer (unpack_scaledBalanceOf abi) (exec (strict_call token dB)) = Some (bal token))
      | _ \<Rightarrow> False)"

definition balance_call_list :: "aave_abi \<Rightarrow> u8 list \<Rightarrow> asset_meta list \<Rightarrow> multicall_call list" where
  "balance_call_list abi d assets = concat (map (\<lambda>a.
     [strict_call (HexToAddr abi (am_ATokenAddress a)) d, strict_call (HexToAddr abi (am_VTokenAddress a)) d]) assets)"

lemma balance_calls_list:
  "pack_scaledBalanceOf abi user = Some d \<Longrightarrow> balance_calls abi user assets = Inr (balance_call_list abi d assets)"
  by (induction assets) (simp_all add: packABIData_def balance_call_list_def)

lemma nth_balance_call_list:
  "k < length assets \<Longrightarrow> balance_call_list abi d assets ! (2 * k) = strict_call (HexToAddr abi (am_ATokenAddress (assets ! k))) d"
  "k < length assets \<Longrightarrow> balance_call_list abi d assets ! (2 * k + 1) = strict_call (HexToAddr abi (am_VTokenAddress (assets ! k))) d"
proof (induction assets arbitrary: k)
  case (Cons a assets)
  { case 1 then show ?case using Cons by (cases k) (auto simp: balance_call_list_def) }
  { case 2 then show ?case using Cons by (cases k) (auto simp: balance_call_list_def) }
qed simp_all

lemma length_balance_call_list [simp]: "length (balance_call_list abi d assets) = 2 * length assets"
  by (induction assets) (simp_all add: balance_call_list_def)

lemma is_collateral_bit:
  "unat r < 2 ^ 15 \<Longrightarrow> is_collateral conf r \<longleftrightarrow> bit conf (2 * unat r + 1)"
  by (simp add: is_collateral_def Let_def big_bit_test unat_word_ariths mult.commute)

definition fetched_reserve :: "aave_abi \<Rightarrow> int \<Rightarrow> (address \<Rightarrow> int) \<Rightarrow> asset_meta \<Rightarrow> user_reserve" where
  "fetched_reserve abi conf bal a =
     \<lparr>AssetAddress = am_AssetAddress a, ScaledATokenBalance = bal (HexToAddr abi (am_ATokenAddress a)),
      ScaledVariableDebt = bal (HexToAddr abi (am_VTokenAddress a)),
      UsageAsCollateralEnabledOnUser = is_collateral conf (am_ReserveIndex a)\<rparr>"

lemma position_loop_reads:
  assumes "\<forall>k < length assets.
      head_answer (unpack_scaledBalanceOf abi) (rs ! (3 + (i + k) * 2)) = Some (bal (HexToAddr abi (am_ATokenAddress (assets ! k)))) \<and>
      head_answer (unpack_scaledBalanceOf abi) (rs ! (3 + (i + k) * 2 + 1)) = Some (bal (HexToAddr abi (am_VTokenAddress (assets ! k))))"
  shows "position_loop abi conf rs i assets p =
    Some (p\<lparr>Reserves := Reserves p ++ map_of (rev (map (\<lambda>a. (am_AssetAddress a, fetched_reserve abi conf bal a)) assets))\<rparr>)"
  using assms
proof (induction assets arbitrary: i p)
  case (Cons a assets)
  have "\<forall>k < length assets.
      head_answer (unpack_scaledBalanceOf abi) (rs ! (3 + (i + 1 + k) * 2)) = Some (bal (HexToAddr abi (am_ATokenAddress (assets ! k)))) \<and>
      head_answer (unpack_scaledBalanceOf abi) (rs ! (3 + (i + 1 + k) * 2 + 1)) = Some (bal (HexToAddr abi (am_VTokenAddress (assets ! k))))"
    (is "\<forall>k. _ \<longrightarrow> ?P k")
  proof (intro allI impI)
    fix k assume "k < length assets"
    then show "?P k" using Cons.prems [rule_format, of "Suc k"] by (simp add: add.commute)
  qed
  note IH = Cons.IH [OF this]
  have now: "head_answer (unpack_scaledBalanceOf abi) (rs ! (3 + i * 2)) = Some (bal (HexToAddr abi (am_ATokenAddress a)))"
    "head_answer (unpack_scaledBalanceOf abi) (rs ! (3 + i * 2 + 1)) = Some (bal (HexToAddr abi (am_VTokenAddress a)))"
    using Cons.prems by (auto dest!: spec [of _ 0])
  show ?case
    using now IH by (simp add: head_answer_def Let_def split: if_splits)
      (simp add: fetched_reserve_def [of abi conf bal a] fun_upd_def)
qed simp

lemma option_eq_by_values: "(\<And>v. x = Some v \<longleftrightarrow> y = Some v) \<Longrightarrow> x = y"
  by (cases x; cases y) auto

lemma rev_map_of_visit:
  assumes "enumerates ord (dom m)"
  shows "map_of (rev (map (\<lambda>a. (am_AssetAddress a, f a)) (map meta_of (visit m ord)))) =
    (\<lambda>k. map_option (\<lambda>c. f (meta_of (k, c))) (m k))"
proof -
  let ?l = "map (\<lambda>a. (am_AssetAddress a, f a)) (map meta_of (visit m ord))"
  have fst: "map fst ?l = ord"
    using assms by (simp add: visit_conv_map enumerates_set meta_of_def comp_def)
  then have "distinct (map fst ?l)" using assms by (simp add: enumerates_distinct del: map_map)
  moreover have "set ?l = {(k, f (meta_of (k, c))) | k c. m k = Some c}"
    using set_visit_enumerates [OF assms] by (auto simp: meta_of_def image_def)
  moreover have "map fst (rev ?l) = rev (map fst ?l)" by (simp only: rev_map)
  ultimately have "map_of (rev ?l) k = Some v \<longleftrightarrow> map_option (\<lambda>c. f (meta_of (k, c))) (m k) = Some v" for k v
    by (subst map_of_eq_Some_iff) auto
  then show ?thesis by (intro ext option_eq_by_values)
qed

lemma fetched_position:
  assumes ord: "enumerates ord (dom (assetConfigs s))"
    and reads: "chain_reads abi exec (HexToAddr abi pool) (HexToAddr abi user) acct emode conf bal"
    and calls: "position_calls abi (HexToAddr abi pool) (HexToAddr abi user) (map meta_of (visit (assetConfigs s) ord)) = Inr calls"
    and answers: "answers abi port mc (if b > 0 then hex_block b else latest) calls (map exec calls)"
    and ids: "\<forall>c \<in> ran (assetConfigs s). unat (ReserveID c) < 2 ^ 15"
  shows "FetchUserPositionBatchAtBlock abi port mc ord pool user b s = Inr (Some (acct,
    \<lparr>UserAddress = ToLower user,
     Reserves = (\<lambda>a. map_option (\<lambda>c. \<lparr>AssetAddress = a, ScaledATokenBalance = bal (HexToAddr abi (ATokenAddress c)),
       ScaledVariableDebt = bal (HexToAddr abi (VTokenAddress c)),
       UsageAsCollateralEnabledOnUser = bit conf (2 * unat (ReserveID c) + 1)\<rparr>) (assetConfigs s a)),
     EModeCategoryId = ucast (big_Uint64 emode), EModeFetched = True\<rparr>))"
proof -
  let ?as = "map meta_of (visit (assetConfigs s) ord)" and ?user = "HexToAddr abi user"
  obtain dA dE dC dB where d: "pack_getUserAccountData abi ?user = Some dA" "pack_getUserEMode abi ?user = Some dE"
      "pack_getUserConfiguration abi ?user = Some dC" "pack_scaledBalanceOf abi ?user = Some dB"
    and h: "head_answer (unpack_getUserAccountData abi) (exec (strict_call (HexToAddr abi pool) dA)) = Some acct"
      "head_answer (unpack_getUserEMode abi) (exec (strict_call (HexToAddr abi pool) dE)) = Some emode"
      "head_answer (unpack_getUserConfiguration abi) (exec (strict_call (HexToAddr abi pool) dC)) = Some conf"
      "\<And>token. head_answer (unpack_scaledBalanceOf abi) (exec (strict_call token dB)) = Some (bal token)"
    using reads by (auto simp: chain_reads_def split: option.splits)
  have c: "calls = strict_call (HexToAddr abi pool) dA # strict_call (HexToAddr abi pool) dE #
      strict_call (HexToAddr abi pool) dC # balance_call_list abi dB ?as"
    using calls d by (simp add: position_calls_def packABIData_def balance_calls_list)
  let ?rs = "map exec calls"
  have nth: "?rs ! (3 + k) = exec (balance_call_list abi dB ?as ! k)" if "k < 2 * length ?as" for k
    using that by (simp add: c numeral_3_eq_3 del: length_map)
  have "\<forall>k < length ?as.
      head_answer (unpack_scaledBalanceOf abi) (?rs ! (3 + (0 + k) * 2)) = Some (bal (HexToAddr abi (am_ATokenAddress (?as ! k)))) \<and>
      head_answer (unpack_scaledBalanceOf abi) (?rs ! (3 + (0 + k) * 2 + 1)) = Some (bal (HexToAddr abi (am_VTokenAddress (?as ! k))))"
    using nth [of "2 * k" for k] nth [of "2 * k + 1" for k] h(4) nth_balance_call_list [of _ ?as abi dB]
    by (simp add: mult.commute add.assoc del: length_map map_map)
  note loop = position_loop_reads [OF this]
  have m: "(\<lambda>k. map_option (\<lambda>c. fetched_reserve abi conf bal (meta_of (k, c))) (assetConfigs s k)) =
      (\<lambda>a. map_option (\<lambda>c. \<lparr>AssetAddress = a, ScaledATokenBalance = bal (HexToAddr abi (ATokenAddress c)),
       ScaledVariableDebt = bal (HexToAddr abi (VTokenAddress c)),
       UsageAsCollateralEnabledOnUser = bit conf (2 * unat (ReserveID c) + 1)\<rparr>) (assetConfigs s a))"
    using ids by (auto simp: fun_eq_iff fetched_reserve_def meta_of_def is_collateral_bit ran_def intro!: option.map_cong)
  have "decode_position abi user ?as ?rs = Some (acct,
      \<lparr>UserAddress = ToLower user, Reserves = (\<lambda>k. map_option (\<lambda>c. fetched_reserve abi conf bal (meta_of (k, c))) (assetConfigs s k)),
       EModeCategoryId = ucast (big_Uint64 emode), EModeFetched = True\<rparr>)"
    using h loop rev_map_of_visit [OF ord] by (simp add: decode_position_def c)
  then show ?thesis
    using answers calls m by (auto simp: FetchUserPositionBatchAtBlock_def Let_def elim!: answersD)
qed

text \<open>
  a fetched position is the chain's position: when the node executes the calls, for every order in
  which the configurations are visited, \<open>FetchUserPositionBatchAtBlock\<close> returns the chain's account data
  and a position with one entry for each configured asset, holding the scaled balances of that asset's
  own two token contracts and its own collateral bit \<open>2 * id + 1\<close> of the user's configuration.
\<close>

theorem fetched_position_exact:
  assumes ord: "enumerates ord (dom (assetConfigs s))"
    and reads: "chain_reads abi exec (HexToAddr abi pool) (HexToAddr abi user) acct emode conf bal"
    and calls: "position_calls abi (HexToAddr abi pool) (HexToAddr abi user) (map meta_of (visit (assetConfigs s) ord)) = Inr calls"
    and answers: "answers abi port mc (if b > 0 then hex_block b else latest) calls (map exec calls)"
    and ids: "\<forall>c \<in> ran (assetConfigs s). unat (ReserveID c) < 2 ^ 15"
  shows "FetchUserPositionBatchAtBlock abi port mc ord pool user b s = Inr (Some (acct,
    \<lparr>UserAddress = ToLower user,
     Reserves = (\<lambda>a. map_option (\<lambda>c. \<lparr>AssetAddress = a, ScaledATokenBalance = bal (HexToAddr abi (ATokenAddress c)),
       ScaledVariableDebt = bal (HexToAddr abi (VTokenAddress c)),
       UsageAsCollateralEnabledOnUser = bit conf (2 * unat (ReserveID c) + 1)\<rparr>) (assetConfigs s a)),
     EModeCategoryId = ucast (big_Uint64 emode), EModeFetched = True\<rparr>))"
  by (rule fetched_position [OF assms])

definition toy_exec :: "multicall_call \<Rightarrow> multicall_result" where
  "toy_exec c = \<lparr>mr_Success = True, mr_ReturnData = [ucast (Target c)]\<rparr>"

definition toy_config :: asset_config where
  "toy_config = \<lparr>Decimals = 18, LiquidationThreshold = 8000, LiquidationBonus = 10500, ReserveID = 0,
     ATokenAddress = ''tok'', VTokenAddress = ''token'', LiquidationProtocolFee = 0\<rparr>"

definition toy_store :: state_store where
  "toy_store = NewStateStore\<lparr>assetConfigs := [''a'' \<mapsto> toy_config]\<rparr>"

theorem fetched_position_exact_witness:
  "map_sum id (map_option (\<lambda>(acct, p). (acct_TotalDebtBase acct, UserAddress p, EModeCategoryId p,
      map_option ScaledATokenBalance (Reserves p ''a''), map_option ScaledVariableDebt (Reserves p ''a''),
      map_option UsageAsCollateralEnabledOnUser (Reserves p ''a''), Option.is_none (Reserves p ''b''))))
    (FetchUserPositionBatchAtBlock (toy_answering (map toy_exec
       [strict_call 4 [2], strict_call 4 [1], strict_call 4 [3], strict_call 3 [4], strict_call 5 [4]]))
      toy_port 0 [''a''] ''pool'' ''User'' 0 toy_store) =
    Inr (Some (50, ''user'', 1, Some 3, Some 5, Some True, True))"
proof -
  let ?calls = "[strict_call 4 [2], strict_call 4 [1], strict_call 4 [3], strict_call 3 [4], strict_call 5 [4]]"
  let ?abi = "toy_answering (map toy_exec ?calls)"
  have o: "enumerates [''a''] (dom (assetConfigs toy_store))"
    by (simp add: toy_store_def enumerates_def)
  have r: "chain_reads ?abi toy_exec (HexToAddr ?abi ''pool'') (HexToAddr ?abi ''User'')
      \<lparr>acct_TotalCollateralBase = 100, acct_TotalDebtBase = 50, acct_HealthFactor = WAD\<rparr> 1 2 (\<lambda>t. uint (ucast t :: u8))"
    by (simp add: chain_reads_def toy_answering_def toy_abi_def toy_exec_def strict_call_def head_answer_def unpackSafeBytes_def)
  have c: "position_calls ?abi (HexToAddr ?abi ''pool'') (HexToAddr ?abi ''User'')
      (map meta_of (visit (assetConfigs toy_store) [''a''])) = Inr ?calls" by code_simp
  have a: "answers ?abi toy_port 0 (if (0 :: u64) > 0 then hex_block 0 else latest) ?calls (map toy_exec ?calls)"
    by code_simp
  have i: "\<forall>c \<in> ran (assetConfigs toy_store). unat (ReserveID c) < 2 ^ 15"
    by (simp add: toy_store_def toy_config_def)
  show ?thesis
    unfolding fetched_position_exact [OF o r c a i] by code_simp
qed

subsection \<open>The user's E-Mode\<close>

text \<open>
  \<open>FetchUserEMode\<close> reads the number the node sent and nothing else is safe: an answer of hexadecimal
  digits gives the low byte of its value, with any number of leading zeros, and an answer that has a
  character after the digits that is no digit makes the program dereference \<open>nil\<close>.
\<close>

theorem user_emode_read:
  assumes "pack_getUserEMode abi (HexToAddr abi user) = Some d"
    and "eth_call_hex port pool d latest = Some (''0x'' @ replicate k (CHR ''0'') @ hex_of_nat n @ junk)"
    and "junk = [] \<or> digit_val (hd junk) = None"
  shows "FetchUserEMode abi port pool user = (if junk = [] then Inr (Some (of_nat n)) else Inl NilDereference)"
proof -
  let ?s = "replicate k (CHR ''0'') @ hex_of_nat n @ junk"
  have ne: "?s \<noteq> []" by simp
  have "hd (replicate k (CHR ''0'') @ hex_of_nat n) \<in> insert (CHR ''0'') (hex_char ` {..<16})"
    using subsetD [OF set_hex_of_nat [of n] hd_in_set] by (cases k) auto
  then have sign: "hd ?s \<noteq> CHR ''-'' \<and> hd ?s \<noteq> CHR ''+''"
    using hex_char_no_sign by (cases k) (auto dest: sym)
  have "digits_val 16 0 ?s = (if junk = [] then Some n else None)"
    using assms(3) digits_val_append [of 16 0 "hex_of_nat n" junk]
    by (cases junk) (simp_all add: digits_val_zeros digits_val_hex)
  then have "big_SetString ?s 16 = (if junk = [] then Some (int n) else None)"
    using sign ne by (cases ?s) (simp_all add: big_SetString_def)
  moreover have "(ucast (big_Uint64 (int n)) :: u8) = of_nat n"
    by (simp add: big_Uint64_def unsigned_of_nat word_of_nat_eq_iff)
  ultimately show ?thesis
    using assms(1,2) ne by (simp add: FetchUserEMode_def TrimPrefix_def Let_def)
qed

theorem user_emode_read_witness:
  "FetchUserEMode toy_abi (toy_port\<lparr>eth_call := (\<lambda>_ _ _. Some (CHR 0x22 # ''0x0002'' @ [CHR 0x22]))\<rparr>) ''pool'' ''u'' =
     Inr (Some 2) \<and>
   FetchUserEMode toy_abi (toy_port\<lparr>eth_call := (\<lambda>_ _ _. Some (CHR 0x22 # ''0x2 '' @ [CHR 0x22]))\<rparr>) ''pool'' ''u'' =
     Inl NilDereference"
proof (intro conjI)
  let ?p = "toy_port\<lparr>eth_call := (\<lambda>_ _ _. Some (CHR 0x22 # ''0x0002'' @ [CHR 0x22]))\<rparr>"
  have "pack_getUserEMode toy_abi (HexToAddr toy_abi ''u'') = Some [1]" by code_simp
  moreover have "eth_call_hex ?p ''pool'' [1] latest = Some (''0x'' @ replicate 3 (CHR ''0'') @ hex_of_nat 2 @ [])"
    by code_simp
  ultimately show "FetchUserEMode toy_abi ?p ''pool'' ''u'' = Inr (Some 2)"
    using user_emode_read [of toy_abi "''u''" "[1]" ?p "''pool''" 3 2 "[]"] by simp
next
  let ?p = "toy_port\<lparr>eth_call := (\<lambda>_ _ _. Some (CHR 0x22 # ''0x2 '' @ [CHR 0x22]))\<rparr>"
  have "pack_getUserEMode toy_abi (HexToAddr toy_abi ''u'') = Some [1]" by code_simp
  moreover have "eth_call_hex ?p ''pool'' [1] latest = Some (''0x'' @ replicate 0 (CHR ''0'') @ hex_of_nat 2 @ '' '')"
    by code_simp
  moreover have "digit_val (hd '' '') = None" by code_simp
  ultimately show "FetchUserEMode toy_abi ?p ''pool'' ''u'' = Inl NilDereference"
    using user_emode_read [of toy_abi "''u''" "[1]" ?p "''pool''" 0 2 "'' ''"] by simp
qed

end
