(* ===== verification/Config.thy ===== *)
theory Config
  imports Multicall RpcClient
begin

text \<open>
  \<open>internal/config/config.go\<close>: the configuration read from the environment. \<open>env\<close> is \<open>os.Getenv\<close>
  (empty for a missing variable); \<open>log.Fatal\<close> ends the process, which is \<open>None\<close>. The two address
  functions of go-ethereum are parameters.
\<close>

section \<open>Reading text\<close>

text \<open>\<open>strings.Split\<close> at a single character.\<close>

fun Split :: "char \<Rightarrow> string \<Rightarrow> string list" where
  "Split sep [] = [[]]"
| "Split sep (c # s) =
     (if c = sep then [] # Split sep s
      else case Split sep s of [] \<Rightarrow> [[c]] | w # ws \<Rightarrow> (c # w) # ws)"

text \<open>\<open>strings.TrimSpace\<close> on ASCII text.\<close>

definition is_space :: "char \<Rightarrow> bool" where
  "is_space c \<longleftrightarrow> of_char c \<in> {9, 10, 11, 12, 13, 32 :: nat}"

definition TrimSpace :: "string \<Rightarrow> string" where
  "TrimSpace s = rev (dropWhile is_space (rev (dropWhile is_space s)))"

text \<open>The value of \<open>Atoi\<close> when its error is ignored: 0 for no number, the nearest bound out of range.\<close>

definition Atoi_value :: "string \<Rightarrow> int" where
  "Atoi_value s = (case big_SetString s 10 of None \<Rightarrow> 0 | Some n \<Rightarrow> max (- (2 ^ 63)) (min (2 ^ 63 - 1) n))"

section \<open>The configuration\<close>

record app_config =
  ChainName :: string
  ChainID :: int
  BotPrivateKey :: string
  LiquidatorContract :: address
  AaveV3Pool :: string
  AaveV3Oracle :: string
  RPCURLs :: "string list"
  WSURL :: string
  GraphEndpoint :: string
  GraphAPIKey :: string
  LogDir :: string
  LogMaxSize :: int
  LogMaxAge :: int
  LogLevel :: string
  WorkerCount :: int
  UniswapV3Factory :: address
  Multicall3 :: address
  StateSnapshotEnabled :: bool
  StateSnapshotDir :: string

definition requireEnv :: "(string \<Rightarrow> string) \<Rightarrow> string \<Rightarrow> string option" where
  "requireEnv env key = (if env key = [] then None else Some (env key))"

definition getEnvOrDefault :: "(string \<Rightarrow> string) \<Rightarrow> string \<Rightarrow> string \<Rightarrow> string" where
  "getEnvOrDefault env key defaultVal = (if env key = [] then defaultVal else env key)"

definition rpc_urls :: "string \<Rightarrow> string list" where
  "rpc_urls raw = filter (\<lambda>cleaned. cleaned \<noteq> []) (map TrimSpace (Split (CHR '','') raw))"

definition LoadConfig ::
    "(string \<Rightarrow> bool) \<Rightarrow> (string \<Rightarrow> address) \<Rightarrow> (string \<Rightarrow> string) \<Rightarrow> app_config option" where
  "LoadConfig IsHexAddress HexToAddress env =
     Option.bind (requireEnv env ''CHAIN_ID'') (\<lambda>chainRaw.
     Option.bind (big_SetString chainRaw 10) (\<lambda>chainID.
     Option.bind (requireEnv env ''RPC_URLS'') (\<lambda>rpcRaw.
     let rpcUrls = rpc_urls rpcRaw in if rpcUrls = [] then None else
     Option.bind (requireEnv env ''UNISWAP_V3_FACTORY'') (\<lambda>factoryAddrRaw.
     if \<not> IsHexAddress factoryAddrRaw then None else
     Option.bind (requireEnv env ''MULTICALL3'') (\<lambda>multicallAddrRaw.
     if \<not> IsHexAddress multicallAddrRaw then None else
     Option.bind (requireEnv env ''CHAIN_NAME'') (\<lambda>chainName.
     Option.bind (requireEnv env ''BOT_PRIVATE_KEY'') (\<lambda>key.
     Option.bind (requireEnv env ''LIQUIDATOR_CONTRACT'') (\<lambda>contract.
     Option.bind (requireEnv env ''AAVE_V3_POOL'') (\<lambda>pool.
     Option.bind (requireEnv env ''AAVE_V3_ORACLE'') (\<lambda>oracle.
     Option.bind (requireEnv env ''WS_URL'') (\<lambda>wsUrl.
     Option.bind (requireEnv env ''GRAPH_ENDPOINT'') (\<lambda>graph.
     Option.bind (requireEnv env ''GRAPH_API_KEY'') (\<lambda>graphKey.
     Some \<lparr>ChainName = chainName, ChainID = chainID, BotPrivateKey = key,
       LiquidatorContract = HexToAddress contract, AaveV3Pool = pool, AaveV3Oracle = oracle,
       RPCURLs = rpcUrls, WSURL = wsUrl, GraphEndpoint = graph, GraphAPIKey = graphKey,
       LogDir = getEnvOrDefault env ''LOG_DIR'' ''logs'',
       LogMaxSize = Atoi_value (getEnvOrDefault env ''LOG_MAX_SIZE'' ''100''),
       LogMaxAge = Atoi_value (getEnvOrDefault env ''LOG_MAX_AGE'' ''7''),
       LogLevel = getEnvOrDefault env ''LOG_LEVEL'' ''info'',
       WorkerCount = Atoi_value (getEnvOrDefault env ''WORKER_COUNT'' ''8''),
       UniswapV3Factory = HexToAddress factoryAddrRaw, Multicall3 = HexToAddress multicallAddrRaw,
       StateSnapshotEnabled = (ToLower (getEnvOrDefault env ''STATE_SNAPSHOT_ENABLED'' ''true'') = ''true''),
       StateSnapshotDir = getEnvOrDefault env ''STATE_SNAPSHOT_DIR'' ''state_snapshots''\<rparr>)))))))))))))"

section \<open>The list of nodes\<close>

lemma Split_nonempty [simp]: "Split sep s \<noteq> []"
  by (induction s) (auto split: list.split)

text \<open>Writing the words back with the separator gives the text.\<close>

fun join_with :: "char \<Rightarrow> string list \<Rightarrow> string" where
  "join_with sep [] = []"
| "join_with sep [w] = w"
| "join_with sep (w # ws) = w @ sep # join_with sep ws"

lemma join_Split: "join_with sep (Split sep s) = s"
proof (induction s)
  case (Cons c s)
  obtain w ws where s: "Split sep s = w # ws" by (cases "Split sep s") auto
  show ?case
  proof (cases "c = sep")
    case True
    then show ?thesis using Cons s by simp
  next
    case False
    then show ?thesis using Cons s by (cases ws) simp_all
  qed
qed simp

lemma TrimSpace_ends:
  "TrimSpace s = [] \<or> (\<not> is_space (hd (TrimSpace s)) \<and> \<not> is_space (last (TrimSpace s)))"
proof (cases "TrimSpace s = []")
  case False
  let ?d = "dropWhile is_space s"
  have "hd (dropWhile is_space (rev ?d)) = last (TrimSpace s)" using False by (simp add: TrimSpace_def last_rev)
  then have l: "\<not> is_space (last (TrimSpace s))"
    using False hd_dropWhile [of is_space "rev ?d"] by (auto simp: TrimSpace_def dropWhile_eq_Nil_conv)
  have ne: "?d \<noteq> []" using False unfolding TrimSpace_def by (metis dropWhile.simps(1) rev.simps(1))
  then have h: "\<not> is_space (hd ?d)" by (rule hd_dropWhile)
  obtain zs where "rev ?d = zs @ dropWhile is_space (rev ?d)" by (metis takeWhile_dropWhile_id)
  then have "?d = TrimSpace s @ rev zs" unfolding TrimSpace_def by (metis rev_append rev_rev_ident)
  then have "hd ?d = hd (TrimSpace s)" using False by (metis hd_append2)
  then show ?thesis using h l by simp
qed simp

text \<open>
  a configuration always names a node. Whenever \<open>LoadConfig\<close> returns, the list of RPC nodes is the
  comma-separated value without blanks around the items and without empty items, in order; it is not
  empty and no item is empty or has a blank at an end, so that \<open>NewRPCClient\<close> does not panic on it.
\<close>

theorem config_nodes:
  assumes "LoadConfig isHex toAddr env = Some cfg"
  shows "RPCURLs cfg = rpc_urls (env ''RPC_URLS'') \<and> join_with (CHR '','') (Split (CHR '','') (env ''RPC_URLS'')) = env ''RPC_URLS'' \<and>
    (\<exists>client. NewRPCClient (RPCURLs cfg) = Some client \<and> rpcURLs client = RPCURLs cfg) \<and>
    (\<forall>url \<in> set (RPCURLs cfg). url \<noteq> [] \<and> \<not> is_space (hd url) \<and> \<not> is_space (last url) )"
proof -
  have r: "RPCURLs cfg = rpc_urls (env ''RPC_URLS'')" "rpc_urls (env ''RPC_URLS'') \<noteq> []"
    using assms by (auto simp: LoadConfig_def Let_def requireEnv_def bind_eq_Some_conv split: if_splits)
  moreover have "url \<noteq> [] \<and> \<not> is_space (hd url) \<and> \<not> is_space (last url)" if "url \<in> set (rpc_urls raw)" for url raw
    using that TrimSpace_ends by (auto simp: rpc_urls_def)
  ultimately show ?thesis by (auto simp: NewRPCClient_def join_Split)
qed

definition toy_env :: "string \<Rightarrow> string" where
  "toy_env key = (if key = ''RPC_URLS'' then ''http://a, ,http://b '' else if key = ''CHAIN_ID'' then ''42161'' else ''x'')"

theorem config_nodes_witness:
  "\<exists>cfg. LoadConfig (\<lambda>_. True) (\<lambda>_. 0) toy_env = Some cfg \<and> RPCURLs cfg = [''http://a'', ''http://b'']"
proof -
  let ?c = "LoadConfig (\<lambda>_. True) (\<lambda>_. 0) toy_env"
  have "\<not> Option.is_none ?c" by code_simp
  then obtain cfg where c: "?c = Some cfg" by (cases ?c) auto
  have "rpc_urls (toy_env ''RPC_URLS'') = [''http://a'', ''http://b'']" by code_simp
  then show ?thesis using config_nodes [OF c] c by auto
qed

end
