(* ===== verification/Startup.thy ===== *)
theory Startup
  imports ChainData Config Bot
begin

text \<open>
  \<open>cmd/bot/main.go\<close> up to the start of the goroutines, with the clients put together from their models, and
  what holds of a bot that was started this way.
\<close>

section \<open>The clients put together\<close>

text \<open>
  The methods of the RPC client as the workers and the bootstrapper call them. A partition that never
  reports makes \<open>GetAllUsersAtBlock\<close> wait for its context, which \<open>main\<close> bounds by 30 minutes, and so ends
  in an error.
\<close>

definition chain_env_of :: "aave_abi \<Rightarrow> eth_port \<Rightarrow> address \<Rightarrow> string list \<Rightarrow> string \<Rightarrow> chain_env" where
  "chain_env_of abi port mc ord pool =
     \<lparr>FetchUserEMode_at = FetchUserEMode abi port pool,
      FetchEModeCategory_at = (\<lambda>c. Inr (FetchEModeCategory abi port pool c)),
      FetchUserPosition_at = (\<lambda>s u b. FetchUserPositionBatchAtBlock abi port mc ord pool u b s)\<rparr>"

record graph =
  gr_anchor :: "u64 option"
  gr_query :: "u64 \<Rightarrow> nat \<Rightarrow> graph_server"
  gr_reports :: "u64 \<Rightarrow> nat option list"

definition graph_users :: "graph \<Rightarrow> u64 \<Rightarrow> graph_user list option" where
  "graph_users g b = (case GetAllUsersAtBlock (gr_query g b) (gr_reports g b) of None \<Rightarrow> None | Some r \<Rightarrow> r)"

definition boot_env_of :: "graph \<Rightarrow> aave_abi \<Rightarrow> eth_port \<Rightarrow> address \<Rightarrow> string \<Rightarrow> boot_env" where
  "boot_env_of g abi port mc pool =
     \<lparr>be_anchor = GetAnchorBlock (gr_anchor g), be_reserves = BatchFetchReserveData abi port mc pool,
      be_users = graph_users g, be_emodes = BatchFetchEModeCategories abi port mc pool\<rparr>"

lemma boot_env_of_simps [simp]:
  "be_anchor (boot_env_of g abi port mc pool) = GetAnchorBlock (gr_anchor g)"
  "be_reserves (boot_env_of g abi port mc pool) = BatchFetchReserveData abi port mc pool"
  "be_users (boot_env_of g abi port mc pool) = graph_users g"
  "be_emodes (boot_env_of g abi port mc pool) = BatchFetchEModeCategories abi port mc pool"
  by (simp_all add: boot_env_of_def)

section \<open>main\<close>

text \<open>Everything outside the program.\<close>

record outside =
  x_IsHexAddress :: "string \<Rightarrow> bool"
  x_HexToAddress :: "string \<Rightarrow> address"
  x_HexToECDSA :: "string \<Rightarrow> address option"
  x_aave :: aave_abi
  x_port :: eth_port
  x_codec :: dex_codec
  x_transport :: mc_transport
  x_graph :: graph
  x_orders :: boot_orders
  x_keccak :: keccak
  x_txenv :: tx_env
  x_oracle :: oracle_abi

text \<open>The helpers of \<open>main\<close>; \<open>None\<close> is the end of the process by \<open>log.Fatal\<close>. A key is its wallet address.\<close>

definition NewTxExecutor :: "address \<Rightarrow> address \<Rightarrow> int \<Rightarrow> fee_cache \<Rightarrow> tx_executor" where
  "NewTxExecutor contractAddr wallet chainID feeCache =
     \<lparr>te_contract = contractAddr, te_walletAddr = wallet, te_chainID = chainID, te_feeCache = feeCache\<rparr>"

definition setupFeeCache :: "outside \<Rightarrow> string list \<Rightarrow> app_config \<Rightarrow> fee_cache option outcome" where
  "setupFeeCache x assets cfg =
     BuildCache (x_codec x) (executeMulticall (x_transport x) (Multicall3 cfg)) assets (UniswapV3Factory cfg) NewFeeCache"

definition runBootstrapper :: "outside \<Rightarrow> app_config \<Rightarrow> string list \<Rightarrow> state_store \<Rightarrow> state_store option outcome" where
  "runBootstrapper x cfg assets s =
     bind_outcome (Run (boot_env_of (x_graph x) (x_aave x) (x_port x) (Multicall3 cfg) (AaveV3Pool cfg)) (x_orders x) assets s)
       (\<lambda>(err, s'). Inr (if err = None then Some s' else None))"

definition setupTxExecutor :: "outside \<Rightarrow> fee_cache \<Rightarrow> app_config \<Rightarrow> tx_executor option" where
  "setupTxExecutor x feeCache cfg =
     map_option (\<lambda>wallet. NewTxExecutor (LiquidatorContract cfg) wallet (ChainID cfg) feeCache)
       (x_HexToECDSA x (TrimPrefix (BotPrivateKey cfg) ''0x''))"

text \<open>\<open>main\<close> up to the start of the goroutines.\<close>

definition main_start :: "outside \<Rightarrow> (string \<Rightarrow> string) \<Rightarrow> (wiring \<times> bot) option outcome" where
  "main_start x env =
     (case LoadConfig (x_IsHexAddress x) (x_HexToAddress x) env of None \<Rightarrow> Inr None | Some cfg \<Rightarrow>
      case NewRPCClient (RPCURLs cfg) of None \<Rightarrow> Inl PanicCall | Some rpcClient \<Rightarrow>
      case FetchReservesList (x_aave x) (x_port x) (AaveV3Pool cfg) of None \<Rightarrow> Inr None | Some assets \<Rightarrow>
      bind_outcome (setupFeeCache x assets cfg) (\<lambda>cache.
      case cache of None \<Rightarrow> Inr None | Some feeCache \<Rightarrow>
      bind_outcome (runBootstrapper x cfg assets NewStateStore) (\<lambda>booted.
      case booted of None \<Rightarrow> Inr None | Some stateStore \<Rightarrow>
      case setupTxExecutor x feeCache cfg of None \<Rightarrow> Inr None | Some txExecutor \<Rightarrow>
        Inr (Some (\<lparr>w_keccak = x_keccak x, w_txenv = x_txenv x, w_executor = txExecutor, w_oracle = x_oracle x,
                    w_feeder = NewOracleFeeder (AaveV3Oracle cfg) assets\<rparr>,
                   launch stateStore rpcClient)))))"

lemmas main_helpers = setupFeeCache_def runBootstrapper_def setupTxExecutor_def NewTxExecutor_def

lemma main_startE:
  assumes "main_start x env = Inr (Some (w, b))"
  obtains cfg r assets s where "LoadConfig (x_IsHexAddress x) (x_HexToAddress x) env = Some cfg"
    "FetchReservesList (x_aave x) (x_port x) (AaveV3Pool cfg) = Some assets"
    "Run (boot_env_of (x_graph x) (x_aave x) (x_port x) (Multicall3 cfg) (AaveV3Pool cfg)) (x_orders x) assets NewStateStore = Inr (None, s)"
    "w_feeder w = NewOracleFeeder (AaveV3Oracle cfg) assets" "b = launch s r"
proof -
  obtain cfg r assets where c: "LoadConfig (x_IsHexAddress x) (x_HexToAddress x) env = Some cfg"
    "NewRPCClient (RPCURLs cfg) = Some r" "FetchReservesList (x_aave x) (x_port x) (AaveV3Pool cfg) = Some assets"
    using assms by (auto simp: main_start_def split: option.splits)
  obtain cache where fc: "setupFeeCache x assets cfg = Inr cache"
    using assms c by (auto simp: main_start_def bind_outcome_Inr_iff)
  obtain feeCache where f: "cache = Some feeCache" using assms c fc by (cases cache) (auto simp: main_start_def)
  obtain booted where bo: "runBootstrapper x cfg assets NewStateStore = Inr booted"
    using assms c fc f by (auto simp: main_start_def bind_outcome_Inr_iff)
  obtain s where s: "booted = Some s" using assms c fc f bo by (cases booted) (auto simp: main_start_def)
  obtain ex where e: "setupTxExecutor x feeCache cfg = Some ex"
    using assms c fc f bo s by (cases "setupTxExecutor x feeCache cfg") (auto simp: main_start_def)
  have run: "Run (boot_env_of (x_graph x) (x_aave x) (x_port x) (Multicall3 cfg) (AaveV3Pool cfg)) (x_orders x) assets NewStateStore = Inr (None, s)"
    using bo s by (auto simp: runBootstrapper_def bind_outcome_Inr_iff split: if_splits)
  have "w_feeder w = NewOracleFeeder (AaveV3Oracle cfg) assets" "b = launch s r"
    using assms c fc f bo s e by (auto simp: main_start_def)
  then show ?thesis using that c run by blast
qed

text \<open>
  \<open>loadEnv\<close> stands for \<open>godotenv.Load\<close> (the environment afterwards, or an error, which ends the process) and
  \<open>mkdirAll\<close> for \<open>os.MkdirAll\<close>, whose error \<open>setupLogger\<close> turns into a panic. The rest of \<open>setupLogger\<close> and the
  banner only write.
\<close>

definition setupLogger :: "(string \<Rightarrow> bool) \<Rightarrow> app_config \<Rightarrow> unit outcome" where
  "setupLogger mkdirAll cfg = (if mkdirAll (LogDir cfg) then Inr () else Inl PanicCall)"

definition main_process ::
    "outside \<Rightarrow> (string \<Rightarrow> (string \<Rightarrow> string) option) \<Rightarrow> (string \<Rightarrow> bool) \<Rightarrow> string \<Rightarrow> (wiring \<times> bot) option outcome" where
  "main_process x loadEnv mkdirAll envFile =
     (case loadEnv envFile of None \<Rightarrow> Inr None | Some env \<Rightarrow>
      case LoadConfig (x_IsHexAddress x) (x_HexToAddress x) env of None \<Rightarrow> Inr None | Some cfg \<Rightarrow>
      bind_outcome (setupLogger mkdirAll cfg) (\<lambda>_. main_start x env))"

lemma main_process_starts:
  assumes "main_process x loadEnv mkdirAll envFile = Inr (Some (w, b))"
  obtains env where "loadEnv envFile = Some env" and "main_start x env = Inr (Some (w, b))"
  using assms by (auto simp: main_process_def setupLogger_def split: option.splits if_splits)

section \<open>Properties of the whole program\<close>

text \<open>
  a started bot never corrupts its risk book. Whenever \<open>main\<close> gets to its goroutines, then whatever
  workers, watchdog, price feeder and log engine do, in any order and with any answers from the network,
  the heap and its lookup table stay consistent, the queue stays within its 50000 places, and
  \<open>updateHeap\<close> finishes for every user and health factor without a panic.
\<close>

theorem started_bot_safe:
  assumes "main_start x env = Inr (Some (w, b0))" and "bot_run w b0 ls b"
  shows "heap_book (bot_store b) \<and> length (bot_queue b) \<le> 50000 \<and> (\<forall>u hf. \<exists>t. updateHeap u hf (bot_store b) = Inr t)"
proof -
  obtain benv ords assets s r where run: "Run benv ords assets NewStateStore = Inr (None, s)" and b: "b0 = launch s r"
    using main_startE [OF assms(1)] by metis
  show ?thesis using launched_bot_book [OF run] assms(2) unfolding b by blast
qed

text \<open>
  a started bot knows who is at risk from a price. When \<open>main\<close> gets to its goroutines, the store has, for
  every user and asset, the entry of the snapshot of The Graph at the anchor block, every user with an entry
  is subscribed to its asset, and the feeder polls exactly the reserves the pool listed.
\<close>

theorem started_bot_complete:
  assumes "main_start x env = Inr (Some (w, b))" and "gr_anchor (x_graph x) = Some n" and "graph_users (x_graph x) n = Some users"
  shows "(\<forall>u a. reserve_at (bot_store b) u a = map_of (rev (graph_entries users)) (u, a)) \<and>
    (\<forall>u a. reserve_at (bot_store b) u a \<noteq> None \<longrightarrow> u \<in> subs_raw (bot_store b) a) \<and>
    (\<exists>cfg. LoadConfig (x_IsHexAddress x) (x_HexToAddress x) env = Some cfg \<and>
       FetchReservesList (x_aave x) (x_port x) (AaveV3Pool cfg) = Some (targetAssets (w_feeder w)))"
proof -
  obtain cfg r assets s where c: "LoadConfig (x_IsHexAddress x) (x_HexToAddress x) env = Some cfg"
    "FetchReservesList (x_aave x) (x_port x) (AaveV3Pool cfg) = Some assets"
    and run: "Run (boot_env_of (x_graph x) (x_aave x) (x_port x) (Multicall3 cfg) (AaveV3Pool cfg)) (x_orders x) assets NewStateStore = Inr (None, s)"
    and w: "w_feeder w = NewOracleFeeder (AaveV3Oracle cfg) assets" and b: "b = launch s r"
    by (rule main_startE [OF assms(1)])
  let ?env = "boot_env_of (x_graph x) (x_aave x) (x_port x) (Multicall3 cfg) (AaveV3Pool cfg)"
  have "\<exists>m. be_anchor ?env = Some m" using run by (rule RunD) blast
  then have n: "be_anchor ?env = Some n" using assms(2) by (auto simp: GetAnchorBlock_def split: if_splits)
  have us: "be_users ?env n = Some users" using assms(3) by simp
  have "bot_store b = s" by (simp add: b launch_def NewLogReplayEngine_def bootstrap_heap [OF run])
  moreover have "reserve_at s u a = map_of (rev (graph_entries users)) (u, a)" for u a
    using bootstrap_snapshot [OF run n us] by blast
  moreover have "u \<in> subs_raw s a" if "reserve_at s u a \<noteq> None" for u a
    using bootstrap_snapshot [OF run n us, of u a] that by blast
  moreover have "targetAssets (w_feeder w) = assets" by (simp add: w NewOracleFeeder_def)
  ultimately show ?thesis using c by simp
qed

lemma updateHeap_positions: "updateHeap u hf s = Inr t \<Longrightarrow> userPositions t = userPositions s"
  by (auto simp: updateHeap_def drop_user_def track_user_def put_heap_def bind_outcome_Inr_iff Let_def
      split: option.splits if_splits prod.splits)

lemma set_next_check_positions [simp]: "userPositions (set_next_check u t s) = userPositions s"
  by (simp add: set_next_check_def Let_def split: option.split)

lemma liquidate_positions:
  assumes "liquidate ord txenv ex ctxDone now u acct pos s r = Inr (t, sent, r')"
  shows "userPositions t = userPositions s"
  using assms by (cases rule: liquidate_cases) (auto dest: updateHeap_positions)

lemma task_stores_fetched:
  assumes "calculateHF (ords 0) (ords 1) env s u = Inr (Some snap, s1)"
    and "\<not> TotalDebtBase snap < minDebtThreshold" and "snap_HealthFactor snap < HFLiquidationThreshold"
    and "FetchUserPosition_at env s1 u (CalculatedAtBlock snap) = Inr (Some (acct, pos))"
    and "worker_step ords env txenv ex now u s r = Inr (t, sent, r')"
  shows "userPositions t u = Some pos"
proof -
  have "userPositions t = userPositions (put_position u pos s1)"
  proof (cases "acct_HealthFactor acct < HFLiquidationThreshold")
    case True
    then have "liquidate (ords 2) txenv ex True now u acct pos (put_position u pos s1) r = Inr (t, sent, r')"
      using assms by (simp add: worker_step_def)
    then show ?thesis by (rule liquidate_positions)
  next
    case False
    then have "updateHeap u (Some (acct_HealthFactor acct)) (put_position u pos s1) = Inr t"
      using assms by (auto simp: worker_step_def bind_outcome_Inr_iff)
    then show ?thesis by (rule updateHeap_positions)
  qed
  then show ?thesis by (simp add: put_position_def)
qed

text \<open>
  C11: before it decides to liquidate, a worker replaces its view of the user by the chain's. When the local
  health factor is below 1 with a debt of at least one dollar and the node answers the verification calls as the
  chain would, then after the task, however it
  ended, the stored position of the user is the chain's: one entry per configured asset with the scaled
  balances of its two tokens and its own collateral flag, and the E-Mode.
\<close>

theorem verified_position_stored:
  assumes local: "calculateHF (ords 0) (ords 1) (chain_env_of abi port mc ord pool) s u = Inr (Some snap, s1)"
    and risk: "100000000 \<le> TotalDebtBase snap" "snap_HealthFactor snap < 1000000000000000000"
    and ord: "enumerates ord (dom (assetConfigs s1))"
    and reads: "chain_reads abi exec (HexToAddr abi pool) (HexToAddr abi u) acct emode conf bal"
    and calls: "position_calls abi (HexToAddr abi pool) (HexToAddr abi u) (map meta_of (visit (assetConfigs s1) ord)) = Inr calls"
    and answers: "answers abi port mc (if CalculatedAtBlock snap > 0 then hex_block (CalculatedAtBlock snap) else latest)
      calls (map exec calls)"
    and ids: "\<forall>c \<in> ran (assetConfigs s1). unat (ReserveID c) < 2 ^ 15"
    and task: "worker_step ords (chain_env_of abi port mc ord pool) txenv ex now u s r = Inr (t, sent, r')"
  shows "userPositions t u = Some
    \<lparr>UserAddress = ToLower u,
     Reserves = (\<lambda>a. map_option (\<lambda>c. \<lparr>AssetAddress = a, ScaledATokenBalance = bal (HexToAddr abi (ATokenAddress c)),
       ScaledVariableDebt = bal (HexToAddr abi (VTokenAddress c)),
       UsageAsCollateralEnabledOnUser = bit conf (2 * unat (ReserveID c) + 1)\<rparr>) (assetConfigs s1 a)),
     EModeCategoryId = ucast (big_Uint64 emode), EModeFetched = True\<rparr>" (is "_ = Some ?pos")
proof -
  let ?env = "chain_env_of abi port mc ord pool"
  have f: "FetchUserPosition_at ?env s1 u (CalculatedAtBlock snap) = Inr (Some (acct, ?pos))"
    using fetched_position [OF ord reads calls answers ids] by (simp add: chain_env_of_def)
  show ?thesis
    by (rule task_stores_fetched [OF local _ _ f task])
      (use risk in \<open>simp_all add: minDebtThreshold_def HFLiquidationThreshold_def WAD_def\<close>)
qed

section \<open>Witnesses\<close>

definition toy_graph :: graph where
  "toy_graph = \<lparr>gr_anchor = Some 7,
     gr_query = (\<lambda>_ _. toy_subgraph [\<lparr>g_ID = ''0x5a'', g_EModeCategoryId = None,
       g_Reserves = [\<lparr>g_UnderlyingAsset = ''0xa'', g_ScaledATokenBalance = ''5000'', g_ScaledVariableDebt = ''3'',
         g_UsageAsCollateralEnabledOnUser = True\<rparr>]\<rparr>]),
     gr_reports = (\<lambda>_. map Some [0..<16])\<rparr>"

definition toy_outside :: outside where
  "toy_outside = \<lparr>x_IsHexAddress = (\<lambda>_. True), x_HexToAddress = (\<lambda>_. 0), x_HexToECDSA = (\<lambda>_. Some 12),
     x_aave = toy_abi\<lparr>unpack_getReservesList := \<lambda>_. Some []\<rparr>, x_port = ChainData.toy_port, x_codec = toy_codec,
     x_transport = \<lparr>mc_pack = (\<lambda>_. Some []), mc_call = (\<lambda>_ _. Some [CHR 0x22, CHR 0x22]), mc_unhex = (\<lambda>_. Some []),
       mc_unpack = (\<lambda>_. Some [])\<rparr>,
     x_graph = toy_graph, x_orders = \<lparr>bo_indices = [], bo_configs = [], bo_categories = [], bo_fetched = []\<rparr>,
     x_keccak = toy_keccak, x_txenv = toy_tx_env, x_oracle = toy_oracle\<rparr>"

lemma toy_graph_users:
  "graph_users toy_graph b = Some [\<lparr>g_ID = ''0x5a'', g_EModeCategoryId = None,
     g_Reserves = [\<lparr>g_UnderlyingAsset = ''0xa'', g_ScaledATokenBalance = ''5000'', g_ScaledVariableDebt = ''3'',
       g_UsageAsCollateralEnabledOnUser = True\<rparr>]\<rparr>]"
proof -
  let ?u = "\<lparr>g_ID = ''0x5a'', g_EModeCategoryId = None, g_Reserves = [\<lparr>g_UnderlyingAsset = ''0xa'',
    g_ScaledATokenBalance = ''5000'', g_ScaledVariableDebt = ''3'', g_UsageAsCollateralEnabledOnUser = True\<rparr>]\<rparr>"
  have "\<exists>n'. partition_loop (toy_subgraph [?u]) lt 1000 0 gt [] = Some (Some (between gt lt [?u]), n')" for gt lt
    using partition_loop_complete [OF toy_serves, of "[?u]" 1000 lt 0 gt "[]"] by (simp add: by_id_def)
  then have p: "fetchUserPartition (toy_subgraph [?u]) gt lt limitPerPage = Some (Some (between gt lt [?u]))" for gt lt
    by (auto simp: fetchUserPartition_def limitPerPage_def)
  have "collect_users (\<lambda>p. Some (between (fst (partitions ! p)) (snd (partitions ! p)) [?u])) (map Some [0..<16]) [] False = Some [?u]"
    by code_simp
  then show ?thesis by (simp add: graph_users_def toy_graph_def GetAllUsersAtBlock_def Let_def p)
qed

lemma toy_started: "\<exists>w b. main_start toy_outside Config.toy_env = Inr (Some (w, b))"
proof -
  have "(case LoadConfig (x_IsHexAddress toy_outside) (x_HexToAddress toy_outside) Config.toy_env of
    None \<Rightarrow> False | Some cfg \<Rightarrow> RPCURLs cfg \<noteq> [])" by code_simp
  then obtain cfg where c: "LoadConfig (x_IsHexAddress toy_outside) (x_HexToAddress toy_outside) Config.toy_env = Some cfg"
    "RPCURLs cfg \<noteq> []" by (auto split: option.splits)
  have r: "NewRPCClient (RPCURLs cfg) = Some \<lparr>rpcURLs = RPCURLs cfg, currentIndex = 0\<rparr>" using c(2) by (simp add: NewRPCClient_def)
  have "eth_call_bytes (x_port toy_outside) to d b = Some []" for to d b
    by (simp add: toy_outside_def eth_call_bytes_def eth_call_hex_def ChainData.toy_port_def) code_simp
  then have a: "FetchReservesList (x_aave toy_outside) (x_port toy_outside) pool = Some []" for pool
    by (simp add: FetchReservesList_def) (simp add: toy_outside_def toy_abi_def)
  have "executeMulticall (x_transport toy_outside) mc calls = Some []" for mc calls
    by (simp add: toy_outside_def executeMulticall_def) code_simp
  then have f: "\<exists>fc. BuildCache (x_codec toy_outside) (executeMulticall (x_transport toy_outside) mc) [] fac NewFeeCache = Inr (Some fc)" for mc fac
    by (simp add: BuildCache_def find_pools_def)
  have s: "\<exists>s. Run (boot_env_of (x_graph toy_outside) (x_aave toy_outside) (x_port toy_outside) mc pool) (x_orders toy_outside) [] NewStateStore = Inr (None, s)" for mc pool
  proof -
    have "gr_anchor (x_graph toy_outside) = Some 7" "x_graph toy_outside = toy_graph"
      by (simp_all add: toy_outside_def toy_graph_def)
    then show ?thesis
      by (simp add: Run_def GetAnchorBlock_def BatchFetchReserveData_def Let_def store_emodes_def toy_graph_users)
        (simp add: toy_outside_def)
  qed
  obtain fc s where "BuildCache (x_codec toy_outside) (executeMulticall (x_transport toy_outside) (Multicall3 cfg)) [] (UniswapV3Factory cfg) NewFeeCache = Inr (Some fc)"
    "Run (boot_env_of (x_graph toy_outside) (x_aave toy_outside) (x_port toy_outside) (Multicall3 cfg) (AaveV3Pool cfg))
       (x_orders toy_outside) [] NewStateStore = Inr (None, s)" using f s by metis
  then show ?thesis using c r a by (simp add: main_start_def main_helpers) (simp add: toy_outside_def)
qed

theorem started_bot_safe_witness:
  "\<exists>w b0 b. main_start toy_outside Config.toy_env = Inr (Some (w, b0)) \<and> bot_run w b0 [None] b \<and> heap_book (bot_store b)"
proof -
  obtain w b0 where m: "main_start toy_outside Config.toy_env = Inr (Some (w, b0))" using toy_started by blast
  obtain b where b: "bot_run w b0 [None] b" using one_activity [OF act_watchdog] by blast
  show ?thesis using m b started_bot_safe [OF m b] by blast
qed

theorem started_bot_complete_witness:
  "\<exists>w b. main_start toy_outside Config.toy_env = Inr (Some (w, b)) \<and> ''0x5a'' \<in> subs_raw (bot_store b) ''0xa''"
proof -
  obtain w b where m: "main_start toy_outside Config.toy_env = Inr (Some (w, b))" using toy_started by blast
  let ?n = "7 :: u64"
  have a: "gr_anchor (x_graph toy_outside) = Some ?n" by (simp add: toy_outside_def toy_graph_def)
  obtain users where u: "graph_users (x_graph toy_outside) ?n = Some users"
    and us: "users = [\<lparr>g_ID = ''0x5a'', g_EModeCategoryId = None, g_Reserves = [\<lparr>g_UnderlyingAsset = ''0xa'',
      g_ScaledATokenBalance = ''5000'', g_ScaledVariableDebt = ''3'', g_UsageAsCollateralEnabledOnUser = True\<rparr>]\<rparr>]"
    using toy_graph_users by (simp add: toy_outside_def)
  have "\<not> Option.is_none (map_of (rev (graph_entries users)) (''0x5a'', ''0xa''))" unfolding us by code_simp
  then have e: "map_of (rev (graph_entries users)) (''0x5a'', ''0xa'') \<noteq> None" by (simp add: Option.is_none_def)
  show ?thesis using m started_bot_complete [OF m a u] e by metis
qed

theorem verified_position_stored_witness:
  "\<exists>t sent r'. worker_step (\<lambda>_. [''a''])
      (chain_env_of (toy_answering (map toy_exec [strict_call 4 [2], strict_call 4 [1], strict_call 4 [3], strict_call 0 [4], strict_call 0 [4]]))
        ChainData.toy_port 0 [''a''] ''pool'')
      toy_tx_env toy_executor 100 ''u'' (HealthFactor.toy_store 1000000000 900000000) toy_client = Inr (t, sent, r') \<and>
    map_option (\<lambda>p. map_option ScaledATokenBalance (Reserves p ''a'')) (userPositions t ''u'') = Some (Some 0)"
proof -
  let ?calls = "[strict_call 4 [2], strict_call 4 [1], strict_call 4 [3], strict_call 0 [4], strict_call 0 [4]]"
  let ?abi = "toy_answering (map toy_exec ?calls)" and ?s = "HealthFactor.toy_store 1000000000 900000000"
  let ?env = "chain_env_of ?abi ChainData.toy_port 0 [''a''] ''pool''"
  let ?w = "worker_step (\<lambda>_. [''a'']) ?env toy_tx_env toy_executor 100 ''u'' ?s toy_client"
  let ?snap = "\<lparr>snap_HealthFactor = 888888888888888888, RawCollateralBase = 2000000000,
    TotalCollateralBase = 16000000000000, TotalDebtBase = 1800000000, CalculatedAtBlock = 0\<rparr>"
  have f: "EModeFetched (toy_position 1000000000 900000000)" "EModeCategoryId (toy_position 1000000000 900000000) = 0"
    by (simp_all add: toy_position_def)
  have "computeHFMath [''a''] ?s ''u'' True 0 = Some ?snap"
    using toy_hf [of 1000000000 900000000] by (simp add: computeHFMath_spec [OF toy_user toy_enum] WAD_def)
  then have c: "calculateHF [''a''] [''a''] ?env ?s ''u'' = Inr (Some ?snap, ?s)"
    by (simp add: calculateHF_def toy_user f)
  have o: "enumerates [''a''] (dom (assetConfigs ?s))" by (simp add: HealthFactor.toy_store_def enumerates_def)
  have r: "chain_reads ?abi toy_exec (HexToAddr ?abi ''pool'') (HexToAddr ?abi ''u'')
      \<lparr>acct_TotalCollateralBase = 100, acct_TotalDebtBase = 50, acct_HealthFactor = WAD\<rparr> 1 2 (\<lambda>t. uint (ucast t :: u8))"
    by (simp add: chain_reads_def toy_answering_def toy_abi_def toy_exec_def strict_call_def head_answer_def unpackSafeBytes_def)
  have k: "position_calls ?abi (HexToAddr ?abi ''pool'') (HexToAddr ?abi ''u'')
      (map meta_of (visit (assetConfigs ?s) [''a''])) = Inr ?calls" by code_simp
  have a: "answers ?abi ChainData.toy_port 0 (if CalculatedAtBlock ?snap > 0 then hex_block (CalculatedAtBlock ?snap) else latest)
      ?calls (map toy_exec ?calls)" by code_simp
  have i: "\<forall>c \<in> ran (assetConfigs ?s). unat (ReserveID c) < 2 ^ 15" by (simp add: HealthFactor.toy_store_def)
  have "\<not> isl ?w" by code_simp
  then obtain t sent r' where w: "?w = Inr (t, sent, r')" by (cases ?w) (auto simp: isl_def)
  have "userPositions t ''u'' = Some
    \<lparr>UserAddress = ToLower ''u'',
     Reserves = (\<lambda>a. map_option (\<lambda>c. \<lparr>AssetAddress = a, ScaledATokenBalance = uint (ucast (HexToAddr ?abi (ATokenAddress c)) :: u8),
       ScaledVariableDebt = uint (ucast (HexToAddr ?abi (VTokenAddress c)) :: u8),
       UsageAsCollateralEnabledOnUser = bit (2 :: int) (2 * unat (ReserveID c) + 1)\<rparr>) (assetConfigs ?s a)),
     EModeCategoryId = ucast (big_Uint64 1), EModeFetched = True\<rparr>"
    by (rule verified_position_stored [where ords = "\<lambda>_. [''a'']", OF c _ _ o r k a i w]) simp_all
  then show ?thesis using w
    by (auto simp: HealthFactor.toy_store_def toy_answering_def toy_abi_def)
qed

end
