(* ===== verification/Goroutines.thy ===== *)
theory Goroutines
  imports Worker LogSections Startup
begin

text \<open>
  All goroutines of the bot, interleaved section by section: any number of workers, the watchdog, the price
  feeder, the log engine with the reader of its WebSocket and the buffered channel between them, the snapshots,
  and the requests that move the shared node counter. Bot runs the same goroutines with a whole task, log and
  heartbeat as one step; here the lock is released wherever the code releases it.
\<close>

section \<open>The price feeder\<close>

datatype feeder_pc =
    FeederIdle
  | Comparing "(string \<times> int) list" "string list"
  | Storing string int "(string \<times> int) list" "string list"
  | Notifying "string list"
  | Filling "string list" "string list"

fun feeder_section ::
    "(string \<Rightarrow> string list) \<Rightarrow> feeder_pc \<Rightarrow> memory \<Rightarrow> string list \<Rightarrow> feeder_pc \<times> memory \<times> string list" where
  "feeder_section ord FeederIdle m q = (FeederIdle, m, q)"
| "feeder_section ord (Comparing [] changed) m q = (Notifying changed, m, q)"
| "feeder_section ord (Comparing ((a, newPrice) # aps) changed) m q =
     (if GetAssetPrice (mm_store m) a = Some newPrice then Comparing aps changed else Storing a newPrice aps changed, m, q)"
| "feeder_section ord (Storing a newPrice aps changed) m q =
     (Comparing aps (changed @ [a]), in_section (SetAssetPrice a newPrice) m, q)"
| "feeder_section ord (Notifying []) m q = (FeederIdle, m, q)"
| "feeder_section ord (Notifying (a # as)) m q = (Filling (GetSubscribers (ord a) (mm_store m) a) as, m, q)"
| "feeder_section ord (Filling [] as) m q = (Notifying as, m, q)"
| "feeder_section ord (Filling (u # us) as) m q = (Filling us as, m, Enqueue u q)"

text \<open>Without interference the sections are one heartbeat of Oracle.\<close>

definition feeder_path :: "(string \<Rightarrow> string list) \<Rightarrow> feeder_pc \<times> memory \<times> string list \<Rightarrow> feeder_pc \<times> memory \<times> string list \<Rightarrow> bool" where
  "feeder_path ord = (\<lambda>x y. case x of (pc, m, q) \<Rightarrow> y = feeder_section ord pc m q)\<^sup>*\<^sup>*"

lemma feeder_path_refl [simp]: "feeder_path ord x x"
  by (simp add: feeder_path_def)

lemma feeder_path_step:
  "feeder_section ord pc m q = y \<Longrightarrow> feeder_path ord y z \<Longrightarrow> feeder_path ord (pc, m, q) z"
  unfolding feeder_path_def by (rule converse_rtranclp_into_rtranclp) auto

lemma filling_path: "feeder_path ord (Notifying as, m, fold Enqueue us q) z \<Longrightarrow> feeder_path ord (Filling us as, m, q) z"
proof (induction us arbitrary: q)
  case (Cons u us)
  show ?case by (rule feeder_path_step [OF refl]) (use Cons in simp)
qed (auto intro: feeder_path_step)

lemma notifying_path:
  "feeder_path ord (Notifying as, m, q)
     (FeederIdle, m, fold (\<lambda>a. EnqueueByAsset (ord a) (mm_store m) a) as q)"
proof (induction as arbitrary: q)
  case (Cons a as)
  show ?case
    by (rule feeder_path_step [OF refl], simp, rule filling_path)
      (use Cons [of "EnqueueByAsset (ord a) (mm_store m) a q"] in \<open>simp add: EnqueueByAsset_def [of "ord a"]\<close>)
qed (auto intro: feeder_path_step)

lemma comparing_path:
  assumes "fold price_step aps (mm_store m, changed) = (s, changed')"
  shows "\<exists>m'. mm_store m' = s \<and> feeder_path ord (Comparing aps changed, m, q)
    (FeederIdle, m', fold (\<lambda>a. EnqueueByAsset (ord a) s a) changed' q)"
  using assms
proof (induction aps arbitrary: m changed)
  case Nil
  then show ?case using feeder_path_step [OF feeder_section.simps(2) notifying_path] by auto
next
  case (Cons ap aps)
  obtain a p where ap: "ap = (a, p)" by (cases ap)
  show ?case
  proof (cases "GetAssetPrice (mm_store m) a = Some p")
    case True
    then obtain m' where m': "mm_store m' = s"
      "feeder_path ord (Comparing aps changed, m, q) (FeederIdle, m', fold (\<lambda>a. EnqueueByAsset (ord a) s a) changed' q)"
      using Cons.IH [of m changed] Cons.prems by (auto simp: ap price_step_def)
    have "feeder_section ord (Comparing (ap # aps) changed) m q = (Comparing aps changed, m, q)"
      by (simp add: ap True)
    from feeder_path_step [OF this m'(2)] show ?thesis using m'(1) by blast
  next
    case False
    let ?m = "in_section (SetAssetPrice a p) m"
    have "fold price_step aps (mm_store ?m, changed @ [a]) = (s, changed')"
      using Cons.prems False by (simp add: ap price_step_def)
    then obtain m' where m': "mm_store m' = s"
      "feeder_path ord (Comparing aps (changed @ [a]), ?m, q) (FeederIdle, m', fold (\<lambda>a. EnqueueByAsset (ord a) s a) changed' q)"
      using Cons.IH by blast
    have "feeder_section ord (Comparing (ap # aps) changed) m q = (Storing a p aps changed, m, q)"
      by (simp add: ap False)
    from feeder_path_step [OF this feeder_path_step [OF feeder_section.simps(4) m'(2)]] show ?thesis using m'(1) by blast
  qed
qed

lemma feeder_sections_are_heartbeat:
  assumes "fetchPrices abi port feeder = Some newPrices"
    and "fetchAndStorePrices ord abi port feeder (mm_store m) q = (ok, s, q')"
  shows "\<exists>m'. mm_store m' = s \<and>
    feeder_path ord (Comparing (zip (targetAssets feeder) newPrices) [], m, q) (FeederIdle, m', q')"
  using comparing_path [of "zip (targetAssets feeder) newPrices" m "[]"] assms
  by (fastforce simp: fetchAndStorePrices_def store_prices_def split: prod.splits)

section \<open>The log engine\<close>

text \<open>What the engine remembers of the logs it has seen.\<close>

record cursor =
  cu_tx :: string
  cu_block :: u64
  cu_index :: u64

text \<open>\<open>Flushing us k\<close> hands the dirty users \<open>us\<close> to the queue and goes on with \<open>k\<close>.\<close>

datatype engine_pc =
    Waiting
  | Latest
  | Syncing u64
  | Historic "rpc_log list" u64
  | HistoricLog log_pc rpc_log "rpc_log list" u64
  | HandOver u64
  | Live
  | Received rpc_log
  | Check rpc_log
  | LiveLog log_pc rpc_log
  | LogEnd
  | Flushing "string list" engine_pc
  | Stopped
  | Ended

definition cursor_duplicate :: "cursor \<Rightarrow> u64 \<Rightarrow> u64 \<Rightarrow> bool" where
  "cursor_duplicate c logBlock logIndex \<longleftrightarrow>
     logBlock < cu_block c \<or> logBlock = cu_block c \<and> logIndex \<le> cu_index c"

definition flush_then :: "string list \<Rightarrow> log_view \<Rightarrow> engine_pc \<Rightarrow> engine_pc" where
  "flush_then ordF v k = Flushing (filter (\<lambda>u. u \<in> lv_dirty v) ordF) k"

text \<open>
  One section. \<open>ordF\<close> is the visiting order of the dirty users, \<open>bufferEmpty\<close> whether no log waits. Waiting, asking
  the node and receiving are steps of the system below.
\<close>

fun engine_section ::
    "keccak \<Rightarrow> string list \<Rightarrow> (string \<Rightarrow> string list) \<Rightarrow> bool \<Rightarrow> engine_pc \<Rightarrow> cursor \<Rightarrow> log_view \<Rightarrow>
     engine_pc \<times> cursor \<times> log_view" where
  "engine_section kc ordF ord bufferEmpty (Historic [] bWs) c v = (flush_then ordF v (HandOver bWs), c, v)"
| "engine_section kc ordF ord bufferEmpty (Historic (l # ls) bWs) c v =
     (if log_TransactionHash l \<noteq> cu_tx c
      then (flush_then ordF v (HistoricLog (begin_log kc l) l ls bWs), c\<lparr>cu_tx := log_TransactionHash l\<rparr>, v)
      else (HistoricLog (begin_log kc l) l ls bWs, c, v))"
| "engine_section kc ordF ord bufferEmpty (HistoricLog pc l ls bWs) c v =
     (if pc = LogDone then (Historic ls bWs, c\<lparr>cu_block := log_block l, cu_index := log_idx l\<rparr>, v)
      else case log_section ord pc v of (pc', v') \<Rightarrow> (HistoricLog pc' l ls bWs, c, v'))"
| "engine_section kc ordF ord bufferEmpty (HandOver bWs) c v =
     (Live, if cu_block c < bWs then c\<lparr>cu_block := bWs, cu_index := 0\<rparr> else c, v)"
| "engine_section kc ordF ord bufferEmpty (Received l) c v =
     (if log_TransactionHash l \<noteq> cu_tx c
      then (flush_then ordF v (Check l), c\<lparr>cu_tx := log_TransactionHash l\<rparr>, lv_section (SetCurrentBlock (log_block l)) v)
      else (Check l, c, lv_section (SetCurrentBlock (log_block l)) v))"
| "engine_section kc ordF ord bufferEmpty (Check l) c v =
     (if cursor_duplicate c (log_block l) (log_idx l) then LogEnd else LiveLog (begin_log kc l) l, c, v)"
| "engine_section kc ordF ord bufferEmpty (LiveLog pc l) c v =
     (if pc = LogDone then (LogEnd, c\<lparr>cu_block := log_block l, cu_index := log_idx l\<rparr>, v)
      else case log_section ord pc v of (pc', v') \<Rightarrow> (LiveLog pc' l, c, v'))"
| "engine_section kc ordF ord bufferEmpty LogEnd c v = (if bufferEmpty then flush_then ordF v Live else Live, c, v)"
| "engine_section kc ordF ord bufferEmpty (Flushing [] k) c v = (k, c, v\<lparr>lv_dirty := {}\<rparr>)"
| "engine_section kc ordF ord bufferEmpty (Flushing (u # us) k) c v =
     (Flushing us k, c, v\<lparr>lv_queue := Enqueue u (lv_queue v)\<rparr>)"
| "engine_section kc ordF ord bufferEmpty pc c v = (pc, c, v)"

section \<open>The log engine alone takes the steps of Replay\<close>

definition replay_of :: "cursor \<Rightarrow> log_view \<Rightarrow> replay" where
  "replay_of c v = \<lparr>rp_store = lv_store v, rp_queue = lv_queue v, dirtyUsers = lv_dirty v,
     currentTxHash = cu_tx c, lastProcessedBlock = cu_block c, lastProcessedLogIndex = cu_index c\<rparr>"

text \<open>Sections of the engine with nobody in between.\<close>

definition engine_path ::
    "keccak \<Rightarrow> string list \<Rightarrow> (string \<Rightarrow> string list) \<Rightarrow> bool \<Rightarrow> engine_pc \<times> cursor \<times> log_view \<Rightarrow>
     engine_pc \<times> cursor \<times> log_view \<Rightarrow> bool" where
  "engine_path kc ordF ord e = (\<lambda>x y. case x of (pc, c, v) \<Rightarrow> y = engine_section kc ordF ord e pc c v)\<^sup>*\<^sup>*"

lemma path_refl [simp]: "engine_path kc ordF ord e x x"
  by (simp add: engine_path_def)

lemma path_step:
  "engine_section kc ordF ord e pc c v = y \<Longrightarrow> engine_path kc ordF ord e y z \<Longrightarrow> engine_path kc ordF ord e (pc, c, v) z"
  unfolding engine_path_def by (rule converse_rtranclp_into_rtranclp) auto

lemma path_trans [trans]:
  "engine_path kc ordF ord e x y \<Longrightarrow> engine_path kc ordF ord e y z \<Longrightarrow> engine_path kc ordF ord e x z"
  unfolding engine_path_def by (rule rtranclp_trans)

lemma flush_path:
  "engine_path kc ordF ord e (Flushing us k, c, v) (k, c, v\<lparr>lv_queue := fold Enqueue us (lv_queue v), lv_dirty := {}\<rparr>)"
proof (induction us arbitrary: v)
  case Nil
  show ?case by (rule path_step [OF refl]) simp
next
  case (Cons u us)
  show ?case by (rule path_step [OF refl]) (use Cons [of "v\<lparr>lv_queue := Enqueue u (lv_queue v)\<rparr>"] in simp)
qed

definition flushed :: "string list \<Rightarrow> log_view \<Rightarrow> log_view" where
  "flushed ordF v = v\<lparr>lv_queue := fold Enqueue (filter (\<lambda>u. u \<in> lv_dirty v) ordF) (lv_queue v), lv_dirty := {}\<rparr>"

lemma flush_then_section [simp]: "flush_then ordF (lv_section f v) k = flush_then ordF v k"
  by (simp add: flush_then_def)

lemma flush_then_path: "engine_path kc ordF ord e (flush_then ordF v k, c, v) (k, c, flushed ordF v)"
  using flush_path [of kc ordF ord e "filter (\<lambda>u. u \<in> lv_dirty v) ordF" k c v]
  by (simp add: flush_then_def flushed_def)

lemma flushed_replay: "replay_of c (flushed ordF v) = flushDirtyUsers ordF (replay_of c v)"
  by (simp add: replay_of_def flushed_def flushDirtyUsers_def)

text \<open>A new transaction flushes first.\<close>

definition newer :: "string list \<Rightarrow> rpc_log \<Rightarrow> cursor \<Rightarrow> log_view \<Rightarrow> cursor \<times> log_view" where
  "newer ordF l c v = (if log_TransactionHash l \<noteq> cu_tx c
     then (c\<lparr>cu_tx := log_TransactionHash l\<rparr>, flushed ordF v) else (c, v))"

lemma newer_path:
  "engine_path kc ordF ord e (if log_TransactionHash l \<noteq> cu_tx c
       then (flush_then ordF v k, c\<lparr>cu_tx := log_TransactionHash l\<rparr>, v) else (k, c, v)) (k, newer ordF l c v)"
  using flush_then_path [of kc ordF ord e v k "c\<lparr>cu_tx := log_TransactionHash l\<rparr>"] by (simp add: newer_def)

lemma newer_replay: "newer ordF l c v = (c', v') \<Longrightarrow> replay_of c' v' = new_tx_flush ordF l (replay_of c v)"
  using flushed_replay [of c ordF v]
  by (auto simp: newer_def new_tx_flush_def replay_of_def flushed_def flushDirtyUsers_def split: if_splits)

lemma inner_path:
  assumes "\<And>pc v pc' v'. pc \<noteq> LogDone \<Longrightarrow> log_section ord pc v = (pc', v') \<Longrightarrow>
      engine_section kc ordF ord e (outer pc) c v = (outer pc', c, v')"
    and "run_log n ord pc v = (LogDone, v')"
  shows "engine_path kc ordF ord e (outer pc, c, v) (outer LogDone, c, v')"
  using assms(2)
proof (induction n arbitrary: pc v)
  case (Suc n)
  obtain pc1 v1 where s: "log_section ord pc v = (pc1, v1)" by fastforce
  then have r: "run_log n ord pc1 v1 = (LogDone, v')" using Suc.prems by simp
  show ?case
  proof (cases "pc = LogDone")
    case True
    then show ?thesis using Suc.prems by simp
  next
    case False
    show ?thesis by (rule path_step [OF assms(1) [OF False s] Suc.IH [OF r]])
  qed
qed simp

lemma log_path:
  assumes "run_log n ord pc v = (LogDone, v')"
  shows "engine_path kc ordF ord e (LiveLog pc l, c, v) (LiveLog LogDone l, c, v')"
    and "engine_path kc ordF ord e (HistoricLog pc l ls bWs, c, v) (HistoricLog LogDone l ls bWs, c, v')"
  by (rule inner_path [where outer = "\<lambda>pc. LiveLog pc l", OF _ assms], simp)
    (rule inner_path [where outer = "\<lambda>pc. HistoricLog pc l ls bWs", OF _ assms], simp)

definition cursor_of :: "replay \<Rightarrow> string \<times> u64 \<times> u64" where
  "cursor_of st = (currentTxHash st, lastProcessedBlock st, lastProcessedLogIndex st)"

lemma cursor_of_marked: "marks_changes st st' \<Longrightarrow> cursor_of st' = cursor_of st"
  by (simp add: marks_changes_def cursor_of_def)

lemma cursor_of_index: "cursor_of (handleReserveDataUpdated ord l st) = cursor_of st"
  by (simp add: handleReserveDataUpdated_def cursor_of_def Let_def)

lemma processLog_cursor: "cursor_of (processLog kc ord l st) = cursor_of st"
  using handlers_mark [THEN cursor_of_marked] cursor_of_index
  by (simp add: processLog_def Let_def handleCollateralEnabled_def handleCollateralDisabled_def)

lemma begin_log_runs:
  "\<exists>n v'. run_log n ord (begin_log kc l) v = (LogDone, v') \<and> replay_of c v' = processLog kc ord l (replay_of c v)"
proof -
  have "agrees (replay_of c v) v" by (simp add: agrees_def replay_of_def)
  then obtain n v' where n: "run_log n ord (begin_log kc l) v = (LogDone, v')" and a: "agrees (processLog kc ord l (replay_of c v)) v'"
    using process_alone unfolding runs_to_def by metis
  have "replay_of c v' = processLog kc ord l (replay_of c v)"
    using a processLog_cursor [of kc ord l "replay_of c v"]
    by (intro replay.equality) (simp_all add: agrees_def cursor_of_def, simp_all add: replay_of_def)
  then show ?thesis using n by blast
qed

lemma historic_path:
  "\<exists>c' v'. engine_path kc ordF ord e (Historic (l # ls) bWs, c, v) (Historic ls bWs, c', v') \<and>
     replay_of c' v' = historic_log kc ordF ord l (replay_of c v)"
proof -
  obtain c1 v1 where n: "newer ordF l c v = (c1, v1)" by fastforce
  obtain k v2 where r: "run_log k ord (begin_log kc l) v1 = (LogDone, v2)" "replay_of c1 v2 = processLog kc ord l (replay_of c1 v1)"
    using begin_log_runs by blast
  let ?c = "c1\<lparr>cu_block := log_block l, cu_index := log_idx l\<rparr>"
  have "engine_path kc ordF ord e (Historic (l # ls) bWs, c, v) (HistoricLog (begin_log kc l) l ls bWs, c1, v1)"
    by (rule path_step [OF engine_section.simps(2)]) (use newer_path [of kc ordF ord e l c v] n in simp)
  also note log_path(2) [OF r(1)]
  also have "engine_path kc ordF ord e (HistoricLog LogDone l ls bWs, c1, v2) (Historic ls bWs, ?c, v2)"
    by (rule path_step [OF engine_section.simps(3)]) simp
  finally have p: "engine_path kc ordF ord e (Historic (l # ls) bWs, c, v) (Historic ls bWs, ?c, v2)" .
  have "replay_of ?c v2 = mark_processed (log_block l) (log_idx l) (replay_of c1 v2)"
    by (simp add: replay_of_def mark_processed_def)
  then have "replay_of ?c v2 = historic_log kc ordF ord l (replay_of c v)"
    by (simp add: historic_log_def r(2) newer_replay [OF n])
  then show ?thesis using p by blast
qed

text \<open>
  C10: the log engine in sections is the log engine in one step per log. Without interference its sections carry
  a log of the history and one of the live stream to the end, and the hand-over in between, with exactly the
  store, queue, dirty users and cursor that \<open>historic_log\<close>, \<open>catch_up\<close> and \<open>live_log\<close> say.
\<close>

theorem engine_sections_are_log_steps:
  shows "(\<exists>c' v'. engine_path kc ordF ord e (Historic (l # ls) bWs, c, v) (Historic ls bWs, c', v') \<and>
      replay_of c' v' = historic_log kc ordF ord l (replay_of c v)) \<and>
    (\<exists>c' v'. engine_path kc ordF ord e (Historic [] bWs, c, v) (Live, c', v') \<and>
      replay_of c' v' = catch_up kc [] ordF bWs (replay_of c v)) \<and>
    (\<exists>c' v'. engine_path kc ordF ord e (Received l, c, v) (Live, c', v') \<and>
      replay_of c' v' = live_log kc ordF ord ordF e l (replay_of c v))"
proof (intro conjI historic_path)
  let ?c = "if cu_block c < bWs then c\<lparr>cu_block := bWs, cu_index := 0\<rparr> else c"
  have "engine_path kc ordF ord e (Historic [] bWs, c, v) (HandOver bWs, c, flushed ordF v)"
    by (rule path_step [OF engine_section.simps(1)]) (rule flush_then_path)
  also have "engine_path kc ordF ord e (HandOver bWs, c, flushed ordF v) (Live, ?c, flushed ordF v)"
    by (rule path_step [OF engine_section.simps(4)]) simp
  finally have "engine_path kc ordF ord e (Historic [] bWs, c, v) (Live, ?c, flushed ordF v)" .
  moreover have "replay_of ?c (flushed ordF v) = catch_up kc [] ordF bWs (replay_of c v)"
    using flushed_replay [of c ordF v, symmetric] by (simp add: catch_up_def Let_def replay_of_def mark_processed_def)
  ultimately show "\<exists>c' v'. engine_path kc ordF ord e (Historic [] bWs, c, v) (Live, c', v') \<and>
      replay_of c' v' = catch_up kc [] ordF bWs (replay_of c v)" by blast
next
  let ?v = "lv_section (SetCurrentBlock (log_block l)) v"
  obtain c1 v1 where n: "newer ordF l c ?v = (c1, v1)" by fastforce
  have start: "engine_path kc ordF ord e (Received l, c, v) (Check l, c1, v1)"
    by (rule path_step [OF engine_section.simps(5)])
      (use newer_path [of kc ordF ord e l c ?v "Check l"] n in \<open>cases "log_TransactionHash l = cu_tx c"; simp\<close>)
  have r1: "replay_of c1 v1 = new_tx_flush ordF l (on_store (SetCurrentBlock (log_block l)) (replay_of c v))"
    using newer_replay [OF n] by (simp add: replay_of_def on_store_def)
  have dup: "cursor_duplicate c1 (log_block l) (log_idx l) = isDuplicate (replay_of c1 v1) (log_block l) (log_idx l)"
    by (auto simp: cursor_duplicate_def isDuplicate_def replay_of_def)
  have "\<exists>c2 v2. engine_path kc ordF ord e (Check l, c1, v1) (LogEnd, c2, v2) \<and>
      replay_of c2 v2 = live_core kc ordF ord l (replay_of c v)"
  proof (cases "cursor_duplicate c1 (log_block l) (log_idx l)")
    case True
    have "engine_path kc ordF ord e (Check l, c1, v1) (LogEnd, c1, v1)"
      by (rule path_step [OF engine_section.simps(6)]) (simp add: True)
    moreover have "replay_of c1 v1 = live_core kc ordF ord l (replay_of c v)"
      using True dup r1 by (simp add: live_core_def Let_def)
    ultimately show ?thesis by blast
  next
    case False
    obtain k v2 where r: "run_log k ord (begin_log kc l) v1 = (LogDone, v2)" "replay_of c1 v2 = processLog kc ord l (replay_of c1 v1)"
      using begin_log_runs by blast
    let ?c = "c1\<lparr>cu_block := log_block l, cu_index := log_idx l\<rparr>"
    have "engine_path kc ordF ord e (Check l, c1, v1) (LiveLog (begin_log kc l) l, c1, v1)"
      by (rule path_step [OF engine_section.simps(6)]) (simp add: False)
    also note log_path(1) [OF r(1)]
    also have "engine_path kc ordF ord e (LiveLog LogDone l, c1, v2) (LogEnd, ?c, v2)"
      by (rule path_step [OF engine_section.simps(7)]) simp
    finally have "engine_path kc ordF ord e (Check l, c1, v1) (LogEnd, ?c, v2)" .
    moreover have "replay_of ?c v2 = mark_processed (log_block l) (log_idx l) (replay_of c1 v2)"
      by (simp add: replay_of_def mark_processed_def)
    then have "replay_of ?c v2 = live_core kc ordF ord l (replay_of c v)"
      using False dup r1 r(2) by (simp add: live_core_def Let_def)
    ultimately show ?thesis by blast
  qed
  then obtain c2 v2 where core: "engine_path kc ordF ord e (Check l, c1, v1) (LogEnd, c2, v2)"
    "replay_of c2 v2 = live_core kc ordF ord l (replay_of c v)" by blast
  have "engine_path kc ordF ord e (LogEnd, c2, v2) (Live, c2, if e then flushed ordF v2 else v2)"
    by (rule path_step [OF engine_section.simps(8)]) (simp add: flush_then_path)
  then have "engine_path kc ordF ord e (Received l, c, v) (Live, c2, if e then flushed ordF v2 else v2)"
    using path_trans [OF path_trans [OF start core(1)]] by blast
  moreover have "replay_of c2 (if e then flushed ordF v2 else v2) = live_log kc ordF ord ordF e l (replay_of c v)"
    using core(2) flushed_replay [of c2 ordF v2] by (simp add: live_log_def Let_def)
  ultimately show "\<exists>c' v'. engine_path kc ordF ord e (Received l, c, v) (Live, c', v') \<and>
      replay_of c' v' = live_log kc ordF ord ordF e l (replay_of c v)" by blast
qed

section \<open>The system\<close>

definition logBufferSize :: nat where "logBufferSize = 20000"

text \<open>
  \<open>go_up\<close>: the WebSocket reader runs. \<open>go_ready\<close>: the first heartbeat, which \<open>main\<close> waits for, is over.
  \<open>go_done\<close>: \<open>main\<close> got a signal and cancelled the context; then the goroutines leave where they look at it,
  a worker by leaving the list, the watchdog and the feeder by their flags.
\<close>

record system =
  go_memory :: memory
  go_queue :: "string list"
  go_rpc :: rpc_client
  go_sent :: "signed_tx list"
  go_workers :: "worker_pc list"
  go_targets :: "string list"
  go_feeder :: feeder_pc
  go_ready :: bool
  go_engine :: engine_pc
  go_cursor :: cursor
  go_dirty :: "string set"
  go_buffer :: "rpc_log list"
  go_up :: bool
  go_dumps :: "store_snapshot list"
  go_done :: bool
  go_watching :: bool
  go_feeding :: bool

abbreviation go_store :: "system \<Rightarrow> state_store" where "go_store g \<equiv> mm_store (go_memory g)"

definition go_view :: "system \<Rightarrow> log_view" where
  "go_view g = \<lparr>lv_memory = go_memory g, lv_queue = go_queue g, lv_dirty = go_dirty g\<rparr>"

definition with_view :: "log_view \<Rightarrow> system \<Rightarrow> system" where
  "with_view v g = g\<lparr>go_memory := lv_memory v, go_queue := lv_queue v, go_dirty := lv_dirty v\<rparr>"

text \<open>After \<open>main\<close> has started the workers.\<close>

definition launched :: "nat \<Rightarrow> bot \<Rightarrow> system" where
  "launched workerCount b =
     \<lparr>go_memory = memory_of (bot_store b), go_queue = [], go_rpc = bt_rpc b, go_sent = [],
      go_workers = replicate workerCount Idle, go_targets = [], go_feeder = FeederIdle, go_ready = False,
      go_engine = Waiting, go_cursor = \<lparr>cu_tx = [], cu_block = 0, cu_index = 0\<rparr>, go_dirty = {},
      go_buffer = [], go_up = False, go_dumps = [],
      go_done = False, go_watching = True, go_feeding = True\<rparr>"

text \<open>
  A heartbeat starts with a request to the node; without an answer it is over. The reader of the WebSocket
  sends what it decodes to the buffer, which blocks while it is full. A snapshot is written under the lock.
\<close>

definition oracle_tick :: "wiring \<Rightarrow> eth_port \<Rightarrow> system \<Rightarrow> system" where
  "oracle_tick w port g =
     (case fetchPrices (w_oracle w) port (w_feeder w) of
        None \<Rightarrow> g\<lparr>go_ready := True\<rparr>
      | Some newPrices \<Rightarrow> g\<lparr>go_feeder := Comparing (zip (targetAssets (w_feeder w)) newPrices) []\<rparr>)"

definition reader_section :: "rpc_log \<Rightarrow> rpc_log list \<Rightarrow> rpc_log list" where
  "reader_section l buffer = (if log_BlockNumber l \<noteq> [] then buffer @ [l] else buffer)"

definition snapshot_tick :: "(string \<Rightarrow> string list) \<Rightarrow> system \<Rightarrow> system" where
  "snapshot_tick ordS g = g\<lparr>go_dumps := go_dumps g @ [dump_snapshot ordS (go_store g)]\<rparr>"

lemma oracle_tick_simps [simp]:
  "go_memory (oracle_tick w port g) = go_memory g" "go_queue (oracle_tick w port g) = go_queue g"
  "go_dirty (oracle_tick w port g) = go_dirty g" "go_sent (oracle_tick w port g) = go_sent g"
  "go_workers (oracle_tick w port g) = go_workers g" "go_targets (oracle_tick w port g) = go_targets g"
  "go_engine (oracle_tick w port g) = go_engine g" "go_cursor (oracle_tick w port g) = go_cursor g"
  "go_buffer (oracle_tick w port g) = go_buffer g" "go_up (oracle_tick w port g) = go_up g"
  "go_dumps (oracle_tick w port g) = go_dumps g" "go_rpc (oracle_tick w port g) = go_rpc g"
  "go_done (oracle_tick w port g) = go_done g" "go_watching (oracle_tick w port g) = go_watching g"
  "go_feeding (oracle_tick w port g) = go_feeding g"
  by (simp_all add: oracle_tick_def split: option.split)

lemma snapshot_tick_simps [simp]:
  "go_dumps (snapshot_tick ordS g) = go_dumps g @ [dump_snapshot ordS (go_store g)]"
  "go_memory (snapshot_tick ordS g) = go_memory g" "go_queue (snapshot_tick ordS g) = go_queue g"
  "go_dirty (snapshot_tick ordS g) = go_dirty g" "go_sent (snapshot_tick ordS g) = go_sent g"
  "go_workers (snapshot_tick ordS g) = go_workers g" "go_targets (snapshot_tick ordS g) = go_targets g"
  "go_engine (snapshot_tick ordS g) = go_engine g" "go_cursor (snapshot_tick ordS g) = go_cursor g"
  "go_buffer (snapshot_tick ordS g) = go_buffer g" "go_up (snapshot_tick ordS g) = go_up g"
  "go_feeder (snapshot_tick ordS g) = go_feeder g" "go_rpc (snapshot_tick ordS g) = go_rpc g"
  "go_done (snapshot_tick ordS g) = go_done g" "go_watching (snapshot_tick ordS g) = go_watching g"
  "go_feeding (snapshot_tick ordS g) = go_feeding g"
  by (simp_all add: snapshot_tick_def)

text \<open>
  What an observer of the channels and of the set of dirty users sees. \<open>E\<close> holds the answers the RPC client may give to a worker.
\<close>

datatype event = Takes string | Reads rpc_log | Receives rpc_log | Marks string | Offers string | Silent

text \<open>The engine marks a user dirty when it has changed the position, and offers it to the queue when it flushes.\<close>

fun log_event :: "log_pc \<Rightarrow> event" where
  "log_event (PutUserMode u catId) = Marks u"
| "log_event (WriteReserves u got) = Marks u"
| "log_event pc = Silent"

fun engine_event :: "engine_pc \<Rightarrow> event" where
  "engine_event (HistoricLog pc l ls bWs) = log_event pc"
| "engine_event (LiveLog pc l) = log_event pc"
| "engine_event (Flushing (u # us) k) = Offers u"
| "engine_event pc = Silent"

lemma engine_event_other [simp]:
  "engine_event pc \<noteq> Takes u" "engine_event pc \<noteq> Reads l" "engine_event pc \<noteq> Receives l"
proof -
  have "log_event pc' \<notin> {Takes u, Reads l, Receives l}" for pc' by (cases pc' rule: log_event.cases) auto
  then show "engine_event pc \<noteq> Takes u" "engine_event pc \<noteq> Reads l" "engine_event pc \<noteq> Receives l"
    by (cases pc rule: engine_event.cases; auto)+
qed

inductive step :: "chain_env set \<Rightarrow> wiring \<Rightarrow> event \<Rightarrow> system \<Rightarrow> system \<Rightarrow> bool" for E w where
  go_take: "i < length (go_workers g) \<Longrightarrow> go_workers g ! i = Idle \<Longrightarrow> go_queue g = u # q \<Longrightarrow>
    step E w (Takes u) g (g\<lparr>go_queue := q, go_workers := (go_workers g)[i := Look u]\<rparr>)"
| go_work: "i < length (go_workers g) \<Longrightarrow> env \<in> E \<Longrightarrow>
    worker_section ords env (w_txenv w) (w_executor w) now (go_workers g ! i) (go_memory g) (go_rpc g) = Inr (pc, m, sent, r) \<Longrightarrow>
    step E w Silent g (g\<lparr>go_memory := m, go_rpc := r, go_sent := go_sent g @ sent, go_workers := (go_workers g)[i := pc]\<rparr>)"
| go_tick: "go_watching g \<Longrightarrow> go_targets g = [] \<Longrightarrow> step E w Silent g (g\<lparr>go_targets := watchdog_targets now (go_store g)\<rparr>)"
| go_recheck: "go_targets g = u # us \<Longrightarrow> step E w Silent g (g\<lparr>go_targets := us, go_queue := Enqueue u (go_queue g)\<rparr>)"
| go_beat: "go_feeding g \<Longrightarrow> go_feeder g = FeederIdle \<Longrightarrow> step E w Silent g (oracle_tick w port g)"
| go_price: "go_feeder g \<noteq> FeederIdle \<Longrightarrow> feeder_section ord (go_feeder g) (go_memory g) (go_queue g) = (pc, m, q) \<Longrightarrow>
    step E w Silent g (g\<lparr>go_feeder := pc, go_memory := m, go_queue := q, go_ready := (go_ready g \<or> pc = FeederIdle)\<rparr>)"
| go_subscribe: "go_engine g = Waiting \<Longrightarrow> go_ready g \<Longrightarrow> step E w Silent g (g\<lparr>go_engine := Latest, go_up := True\<rparr>)"
| go_latest: "go_engine g = Latest \<Longrightarrow> fetchLatestBlock answer = Some bWs \<Longrightarrow>
    step E w Silent g (g\<lparr>go_engine := Syncing bWs\<rparr>)"
| go_history: "go_engine g = Syncing bWs \<Longrightarrow>
    fetchHistoricLogs getLogs (anchorBlock (go_store g) + 1) bWs = Some (Some logs) \<Longrightarrow>
    step E w Silent g (g\<lparr>go_engine := Historic (sort_logs logs) bWs\<rparr>)"
| go_error: "go_engine g \<in> {Waiting, Latest, Syncing bWs} \<Longrightarrow> step E w Silent g (g\<lparr>go_engine := Stopped, go_up := False\<rparr>)"
| go_engine: "enumerates ordF (go_dirty g) \<Longrightarrow> (\<And>a. enumerates (ord a) (subscribers (go_store g) a)) \<Longrightarrow>
    engine_section (w_keccak w) ordF ord (go_buffer g = []) (go_engine g) (go_cursor g) (go_view g) = (pc, c, v) \<Longrightarrow>
    step E w (engine_event (go_engine g)) g (with_view v (g\<lparr>go_engine := pc, go_cursor := c\<rparr>))"
| go_receive: "go_engine g = Live \<Longrightarrow> go_buffer g = l # ls \<Longrightarrow>
    step E w (Receives l) g (g\<lparr>go_engine := Received l, go_buffer := ls\<rparr>)"
| go_read: "go_up g \<Longrightarrow> log_BlockNumber l \<noteq> [] \<Longrightarrow> length (go_buffer g) < logBufferSize \<Longrightarrow>
    step E w (Reads l) g (g\<lparr>go_buffer := reader_section l (go_buffer g)\<rparr>)"
| go_down: "step E w Silent g (g\<lparr>go_up := False\<rparr>)"
| go_dump: "step E w Silent g (snapshot_tick ordS g)"
| go_request: "rpcURLs r = rpcURLs (go_rpc g) \<Longrightarrow> step E w Silent g (g\<lparr>go_rpc := r\<rparr>)"
| go_signal: "go_ready g \<Longrightarrow> step E w Silent g (g\<lparr>go_done := True\<rparr>)"
| go_leave: "go_done g \<Longrightarrow> i < length (go_workers g) \<Longrightarrow> go_workers g ! i = Idle \<Longrightarrow>
    step E w Silent g (g\<lparr>go_workers := take i (go_workers g) @ drop (Suc i) (go_workers g)\<rparr>)"
| go_unwatch: "go_done g \<Longrightarrow> go_targets g = [] \<Longrightarrow> step E w Silent g (g\<lparr>go_watching := False\<rparr>)"
| go_unfeed: "go_done g \<Longrightarrow> go_feeder g = FeederIdle \<Longrightarrow> step E w Silent g (g\<lparr>go_feeding := False\<rparr>)"
| go_end: "go_done g \<Longrightarrow> go_engine g = Live \<Longrightarrow> step E w Silent g (g\<lparr>go_engine := Ended, go_up := False\<rparr>)"

inductive run :: "chain_env set \<Rightarrow> wiring \<Rightarrow> system \<Rightarrow> event list \<Rightarrow> system \<Rightarrow> bool" for E w where
  run_stop: "run E w g [] g"
| run_more: "run E w g es g1 \<Longrightarrow> step E w e g1 g2 \<Longrightarrow> run E w g (es @ [e]) g2"

inductive_cases stepE: "step E w e g g'"

section \<open>The store in all interleavings\<close>

context store_relation begin

lemma R_feeder_section: "feeder_section ord pc m q = (pc', m', q') \<Longrightarrow> R (mm_store m) (mm_store m')"
  by (cases "(ord, pc, m, q)" rule: feeder_section.cases) (auto simp: R_sections)

lemma R_engine_section:
  assumes "engine_section kc ordF ord bufferEmpty pc c v = (pc', c', v')" and "\<And>l. pc \<noteq> Received l"
  shows "R (lv_store v) (lv_store v')"
  using assms
  by (cases "(kc, ordF, ord, bufferEmpty, pc, c, v)" rule: engine_section.cases)
    (auto simp: R_refl dest: R_log_section split: if_splits prod.splits)

end

lemma view_of_system [simp]:
  "lv_memory (go_view g) = go_memory g" "lv_queue (go_view g) = go_queue g" "lv_dirty (go_view g) = go_dirty g"
  by (simp_all add: go_view_def)

lemma with_view_simps [simp]:
  "go_memory (with_view v g) = lv_memory v" "go_queue (with_view v g) = lv_queue v" "go_dirty (with_view v g) = lv_dirty v"
  "go_sent (with_view v g) = go_sent g" "go_workers (with_view v g) = go_workers g" "go_targets (with_view v g) = go_targets g"
  "go_feeder (with_view v g) = go_feeder g" "go_engine (with_view v g) = go_engine g" "go_cursor (with_view v g) = go_cursor g"
  "go_buffer (with_view v g) = go_buffer g" "go_up (with_view v g) = go_up g" "go_dumps (with_view v g) = go_dumps g"
  "go_rpc (with_view v g) = go_rpc g" "go_ready (with_view v g) = go_ready g" "go_done (with_view v g) = go_done g"
  "go_watching (with_view v g) = go_watching g" "go_feeding (with_view v g) = go_feeding g"
  by (simp_all add: with_view_def)

lemma engine_section_path:
  "engine_section kc ordF ord bufferEmpty pc c v = (pc', c', v') \<Longrightarrow> sections (lv_store v) (lv_store v')"
  by (cases "\<exists>l. pc = Received l") (auto simp: sections_store path.R_engine_section split: if_splits)

lemma step_sections: "step E w e g g' \<Longrightarrow> sections (go_store g) (go_store g')"
  by (erule stepE)
    (auto dest: path.R_worker_section path.R_feeder_section engine_section_path)

lemma run_sections: "run E w g es g' \<Longrightarrow> sections (go_store g) (go_store g')"
  by (induction rule: run.induct) (auto intro: step_sections sections_trans)

section \<open>The channels in all interleavings\<close>

fun served_by :: "event list \<Rightarrow> string list" where
  "served_by [] = []"
| "served_by (Takes u # es) = u # served_by es"
| "served_by (_ # es) = served_by es"

fun logs_read :: "event list \<Rightarrow> rpc_log list" where
  "logs_read [] = []"
| "logs_read (Reads l # es) = l # logs_read es"
| "logs_read (_ # es) = logs_read es"

fun logs_received :: "event list \<Rightarrow> rpc_log list" where
  "logs_received [] = []"
| "logs_received (Receives l # es) = l # logs_received es"
| "logs_received (_ # es) = logs_received es"

lemma channel_events [simp]:
  "served_by (es @ es') = served_by es @ served_by es'" "logs_read (es @ es') = logs_read es @ logs_read es'"
  "logs_received (es @ es') = logs_received es @ logs_received es'"
  by (induction es rule: served_by.induct; simp)+

lemma channel_events_engine [simp]:
  "served_by [engine_event pc] = []" "logs_read [engine_event pc] = []" "logs_received [engine_event pc] = []"
  by (cases "engine_event pc"; use engine_event_other [of pc] in auto)+

lemma grown_Enqueue [simp]: "grown q (Enqueue u q)"
  by (auto simp: grown_def Enqueue_def)

lemma feeder_queue: "feeder_section ord pc m q = (pc', m', q') \<Longrightarrow> grown q q'"
  by (cases "(ord, pc, m, q)" rule: feeder_section.cases) auto

lemma engine_queue:
  "engine_section kc ordF ord bufferEmpty pc c v = (pc', c', v') \<Longrightarrow> grown (lv_queue v) (lv_queue v')"
  by (cases "(kc, ordF, ord, bufferEmpty, pc, c, v)" rule: engine_section.cases)
    (auto dest: log_section_queue split: if_splits prod.splits)

lemma step_queue:
  "step E w e g g' \<Longrightarrow> (\<exists>u. e = Takes u \<and> go_queue g = u # go_queue g') \<or> ((\<forall>u. e \<noteq> Takes u) \<and> grown (go_queue g) (go_queue g'))"
  by (erule stepE) (auto dest: feeder_queue engine_queue)

lemma queue_in_runs:
  "run E w g es g' \<Longrightarrow> (\<exists>added. go_queue g @ added = served_by es @ go_queue g') \<and>
     (length (go_queue g) \<le> taskQueueSize \<longrightarrow> length (go_queue g') \<le> taskQueueSize)"
proof (induction rule: run.induct)
  case (run_more g es g1 e g2)
  obtain more where more: "go_queue g @ more = served_by es @ go_queue g1" using run_more.IH by blast
  from step_queue [OF run_more.hyps(2)] show ?case
  proof
    assume "\<exists>u. e = Takes u \<and> go_queue g1 = u # go_queue g2"
    then show ?thesis using more run_more.IH by auto
  next
    assume e: "(\<forall>u. e \<noteq> Takes u) \<and> grown (go_queue g1) (go_queue g2)"
    then obtain added where "go_queue g2 = go_queue g1 @ added"
      "length (go_queue g1) \<le> taskQueueSize \<longrightarrow> length (go_queue g2) \<le> taskQueueSize" by (auto simp: grown_def)
    moreover have "served_by [e] = []" using e by (cases e) auto
    ultimately have "go_queue g @ more @ added = served_by (es @ [e]) @ go_queue g2" using more
      by (metis append_assoc append_Nil2 channel_events(1))
    then show ?thesis using run_more.IH \<open>_ \<longrightarrow> length (go_queue g2) \<le> _\<close> by blast
  qed
qed simp

lemma step_buffer:
  "step E w e g g' \<Longrightarrow> go_buffer g @ logs_read [e] = logs_received [e] @ go_buffer g' \<and>
     (length (go_buffer g) \<le> logBufferSize \<longrightarrow> length (go_buffer g') \<le> logBufferSize)"
  by (erule stepE) (auto simp: reader_section_def)

lemma buffer_in_runs:
  "run E w g es g' \<Longrightarrow> go_buffer g @ logs_read es = logs_received es @ go_buffer g' \<and>
     (length (go_buffer g) \<le> logBufferSize \<longrightarrow> length (go_buffer g') \<le> logBufferSize)"
proof (induction rule: run.induct)
  case (run_more g es g1 e g2)
  then show ?case using step_buffer [OF run_more.hyps(2)] by (metis append_assoc channel_events(2,3))
qed simp

section \<open>Broadcasts in all interleavings\<close>

lemma send_done:
  assumes "\<And>i url msg. \<exists>e. EstimateGas (node_at txenv i url) True msg = Inl e \<and> \<not> is_revert e"
    and "SendLiquidation txenv True ex rec r = (err, tx, r')"
  shows "tx = None"
proof (cases "packArbitrage txenv (liquidation_params txenv ex rec)")
  case (Some calldata)
  then show ?thesis using assms(2) send_loop_done [OF assms(1), of ex calldata maxRPCRetries 1 r]
    by (auto simp: SendLiquidation_def)
qed (use assms(2) in \<open>simp add: SendLiquidation_def\<close>)

lemma section_sends_nothing:
  assumes "\<And>i url msg. \<exists>e. EstimateGas (node_at txenv i url) True msg = Inl e \<and> \<not> is_revert e"
    and "worker_section ords env txenv ex now pc m r = Inr (pc', m', sent, r')"
  shows "sent = []"
proof (cases pc)
  case (Send u acct rec)
  obtain err tx r1 where l: "SendLiquidation txenv True ex rec r = (err, tx, r1)" by (metis prod_cases3)
  then have "tx = None" by (rule send_done [OF assms(1)])
  then show ?thesis using assms(2) Send l by (auto split: option.splits)
qed (use assms(2) in \<open>auto simp: goto_def bind_outcome_Inr_iff\<close>)

lemma runs_send_nothing:
  assumes "\<And>i url msg. \<exists>e. EstimateGas (node_at (w_txenv w) i url) True msg = Inl e \<and> \<not> is_revert e"
    and "run E w g es g'" and "go_sent g = []"
  shows "go_sent g' = []"
  using assms(2,3)
proof (induction rule: run.induct)
  case (run_more g es g1 e g2)
  from run_more.hyps(2) show ?case
    by (rule stepE) (use run_more in \<open>auto dest: section_sends_nothing [OF assms(1)]\<close>)
qed

section \<open>A task and a heartbeat of Bot are runs\<close>

lemma run_trans: "run E w g es g1 \<Longrightarrow> run E w g1 es' g2 \<Longrightarrow> run E w g (es @ es') g2"
proof (rotate_tac, induction rule: run.induct)
  case (run_more g1 es' g2 e g3)
  then show ?case using run.run_more [of E w g "es @ es'" g2 e g3] by simp
qed simp

lemma run_one: "step E w e g g' \<Longrightarrow> run E w g [e] g'"
  using run_more [OF run_stop] by fastforce

lemma run_then: "step E w e g g1 \<Longrightarrow> run E w g1 es g2 \<Longrightarrow> run E w g (e # es) g2"
  using run_trans [OF run_one] by fastforce

lemma worker_alone_runs:
  assumes "run_worker n ords env (w_txenv w) (w_executor w) now pc m r = Inr (pc', m', sent, r')"
    and "env \<in> E" and "i < length (go_workers g)" and "go_workers g ! i = pc" and "go_memory g = m" and "go_rpc g = r"
  shows "run E w g (replicate n Silent)
    (g\<lparr>go_memory := m', go_rpc := r', go_sent := go_sent g @ sent, go_workers := (go_workers g)[i := pc']\<rparr>)"
  using assms
proof (induction n arbitrary: pc m r sent g)
  case 0
  then have "(go_workers g)[i := pc'] = go_workers g" by (auto simp: list_update_same_conv)
  then have "g\<lparr>go_memory := m', go_rpc := r', go_sent := go_sent g @ sent, go_workers := (go_workers g)[i := pc']\<rparr> = g"
    by (intro system.equality) (use 0 in simp_all)
  then show ?case using run_stop by simp
next
  case (Suc n)
  obtain pc1 m1 sent1 r1 where s: "worker_section ords env (w_txenv w) (w_executor w) now pc m r = Inr (pc1, m1, sent1, r1)"
    using Suc.prems(1) by (auto simp: bind_outcome_Inr_iff)
  then obtain sent2 where n: "run_worker n ords env (w_txenv w) (w_executor w) now pc1 m1 r1 = Inr (pc', m', sent2, r')" "sent = sent1 @ sent2"
    using Suc.prems(1) by (auto simp: bind_outcome_Inr_iff)
  let ?g = "g\<lparr>go_memory := m1, go_rpc := r1, go_sent := go_sent g @ sent1, go_workers := (go_workers g)[i := pc1]\<rparr>"
  have "step E w Silent g ?g" by (rule go_work) (use Suc.prems s in simp_all)
  moreover have "run E w ?g (replicate n Silent) (?g\<lparr>go_memory := m', go_rpc := r', go_sent := go_sent ?g @ sent2,
      go_workers := (go_workers ?g)[i := pc']\<rparr>)"
    by (rule Suc.IH [OF n(1)]) (use Suc.prems(2,3) in simp_all)
  ultimately show ?case using run_then n(2) by fastforce
qed

lemma task_runs:
  assumes "worker_step ords env (w_txenv w) (w_executor w) now u (go_store g) (go_rpc g) = Inr (s, sent, r)"
    and "env \<in> E" and "i < length (go_workers g)" and "go_workers g ! i = Idle" and "go_queue g = u # q"
  shows "\<exists>m. mm_store m = s \<and> run E w g (Takes u # replicate 19 Silent)
    (g\<lparr>go_queue := q, go_memory := m, go_rpc := r, go_sent := go_sent g @ sent\<rparr>)"
proof -
  have "seen (run_worker 19 ords env (w_txenv w) (w_executor w) now (Look u) (go_memory g) (go_rpc g)) = Inr (Idle, s, sent, r)"
    using task_alone [of ords env "w_txenv w" "w_executor w" now u "go_memory g" "go_rpc g"] assms(1) by simp
  then obtain m where m: "mm_store m = s"
    "run_worker 19 ords env (w_txenv w) (w_executor w) now (Look u) (go_memory g) (go_rpc g) = Inr (Idle, m, sent, r)"
    by (auto simp: seen_def bind_outcome_Inr_iff simp del: run_worker.simps)
  let ?g = "g\<lparr>go_queue := q, go_workers := (go_workers g)[i := Look u]\<rparr>"
  have "step E w (Takes u) g ?g" by (rule go_take) (use assms in simp_all)
  moreover have "run E w ?g (replicate 19 Silent)
      (?g\<lparr>go_memory := m, go_rpc := r, go_sent := go_sent ?g @ sent, go_workers := (go_workers ?g)[i := Idle]\<rparr>)"
    by (rule worker_alone_runs [OF m(2)]) (use assms(2,3) in simp_all)
  moreover have "(go_workers ?g)[i := Idle] = go_workers g" using list_update_id [of "go_workers g" i] assms(4) by simp
  ultimately show ?thesis using m(1) run_then by fastforce
qed

lemma feeder_alone_runs:
  assumes "feeder_path ord (pc, m, q) (FeederIdle, m', q')"
    and "go_feeder g = pc" and "go_memory g = m" and "go_queue g = q" and "pc \<noteq> FeederIdle"
  shows "\<exists>es. served_by es = [] \<and>
    run E w g es (g\<lparr>go_feeder := FeederIdle, go_memory := m', go_queue := q', go_ready := True\<rparr>)"
proof -
  let ?R = "\<lambda>x y. case x of (pc, m, q) \<Rightarrow> y = feeder_section ord pc m q"
  have idle: "y = x" if "?R\<^sup>*\<^sup>* x y" "fst x = FeederIdle" for x y
    using that by (induction rule: rtranclp_induct) (auto split: prod.splits)
  have "?R\<^sup>*\<^sup>* (pc, m, q) (FeederIdle, m', q')" using assms(1) by (simp add: feeder_path_def)
  then show ?thesis using assms(2-5)
  proof (induction "(pc, m, q)" arbitrary: pc m q g rule: converse_rtranclp_induct)
    case (step y)
    obtain pc1 m1 q1 where y: "y = (pc1, m1, q1)" by (cases y)
    then have f: "feeder_section ord pc m q = (pc1, m1, q1)" using step.hyps(1) by simp
    let ?g = "g\<lparr>go_feeder := pc1, go_memory := m1, go_queue := q1, go_ready := (go_ready g \<or> pc1 = FeederIdle)\<rparr>"
    have s: "step E w Silent g ?g" by (rule go_price) (use step.prems f in simp_all)
    show ?case
    proof (cases "pc1 = FeederIdle")
      case True
      then have "m' = m1" "q' = q1" using idle [OF step.hyps(2)] y by simp_all
      then show ?thesis using True run_one [OF s] by (intro exI [of _ "[Silent]"]) simp
    next
      case False
      then obtain es where "served_by es = []"
        "run E w ?g es (?g\<lparr>go_feeder := FeederIdle, go_memory := m', go_queue := q', go_ready := True\<rparr>)"
        using step.hyps(3) [of pc1 m1 q1 ?g] y by auto
      then show ?thesis using run_then [OF s] by (intro exI [of _ "Silent # es"]) auto
    qed
  qed simp
qed

lemma heartbeat_runs:
  assumes "fetchPrices (w_oracle w) port (w_feeder w) = Some newPrices"
    and "fetchAndStorePrices ord (w_oracle w) port (w_feeder w) (go_store g) (go_queue g) = (ok, s, q)"
    and "go_feeder g = FeederIdle" and "go_feeding g"
  shows "\<exists>es m. served_by es = [] \<and> mm_store m = s \<and> run E w g es (g\<lparr>go_memory := m, go_queue := q, go_ready := True\<rparr>)"
proof -
  let ?pc = "Comparing (zip (targetAssets (w_feeder w)) newPrices) []"
  obtain m where m: "mm_store m = s" "feeder_path ord (?pc, go_memory g, go_queue g) (FeederIdle, m, q)"
    using feeder_sections_are_heartbeat [OF assms(1,2)] by blast
  have s: "step E w Silent g (g\<lparr>go_feeder := ?pc\<rparr>)" using go_beat [OF assms(4,3), of E w port] assms(1) by (simp add: oracle_tick_def)
  obtain es where "served_by es = []" "run E w (g\<lparr>go_feeder := ?pc\<rparr>) es
      (g\<lparr>go_feeder := ?pc\<rparr>\<lparr>go_feeder := FeederIdle, go_memory := m, go_queue := q, go_ready := True\<rparr>)"
    using feeder_alone_runs [OF m(2), of "g\<lparr>go_feeder := ?pc\<rparr>"] by auto
  moreover have "g\<lparr>go_feeder := ?pc\<rparr>\<lparr>go_feeder := FeederIdle, go_memory := m, go_queue := q, go_ready := True\<rparr> =
      g\<lparr>go_memory := m, go_queue := q, go_ready := True\<rparr>" using assms(3) by simp
  ultimately show ?thesis using run_then [OF s] m(1) by (intro exI [of _ "Silent # es"] exI [of _ m]) auto
qed

section \<open>Properties of all interleavings\<close>

lemma launched_simps [simp]:
  "go_store (launched n b) = bot_store b" "go_queue (launched n b) = []" "go_buffer (launched n b) = []"
  "go_sent (launched n b) = []" "go_dumps (launched n b) = []" "go_engine (launched n b) = Waiting"
  "go_workers (launched n b) = replicate n Idle" "go_targets (launched n b) = []" "go_feeder (launched n b) = FeederIdle"
  "go_watching (launched n b)" "go_feeding (launched n b)" "\<not> go_done (launched n b)"
  by (simp_all add: launched_def)

lemma started_reachable:
  assumes "main_start x env = Inr (Some (w, b))" and "run E w (launched n b) es g"
  shows "bot_reachable (go_store g)"
proof -
  obtain benv ords assets s r where r: "Run benv ords assets NewStateStore = Inr (None, s)" and b: "b = launch s r"
    using main_startE [OF assms(1)] by metis
  have "bot_reachable (bot_store b)" using launched_reachable [OF r br_stop] unfolding b .
  then show ?thesis using sections_reachable [OF run_sections [OF assms(2)]] by simp
qed

text \<open>A dump in which table and heap belong together.\<close>

definition dump_ok :: "store_snapshot \<Rightarrow> bool" where
  "dump_ok d \<longleftrightarrow> (\<forall>i < length (ss_RiskHeap d). let item = ss_RiskHeap d ! i in
     Index item = int i \<and> ss_HeapLookup d (ri_UserAddress item) = Some item \<and>
     (i > 0 \<longrightarrow> HealthFactor (ss_RiskHeap d ! ((i - 1) div 2)) \<le> HealthFactor item)) \<and>
   (\<forall>u item. ss_HeapLookup d u = Some item \<longrightarrow> item \<in> set (ss_RiskHeap d))"

lemma dump_of_book:
  assumes "heap_book s"
  shows "dump_ok (dump_snapshot ordS s)"
proof -
  let ?h = "riskHeap s"
  have i: "Index (rh_mem ?h (rh_items ?h ! i)) = int i" if "i < length (rh_items ?h)" for i
    using heap_bookD(1) [OF assms] that by (simp add: rh_inv_def)
  have l: "heapLookup s (ri_UserAddress (rh_mem ?h (rh_items ?h ! i))) = Some (rh_items ?h ! i)"
    if "i < length (rh_items ?h)" for i
    using heap_bookD(3) [OF assms] that by simp
  have o: "HealthFactor (rh_mem ?h (rh_items ?h ! ((i - 1) div 2))) \<le> HealthFactor (rh_mem ?h (rh_items ?h ! i))"
    if "0 < i" "i < length (rh_items ?h)" for i
    using heap_bookD(2) [OF assms] that by (simp add: heap_upto_def par_def hf_of_def)
  show ?thesis
    unfolding dump_ok_def dump_snapshot_def
    using i l o heap_bookD(3) [OF assms] by (auto simp: Let_def) fastforce
qed

lemma dumps_in_runs:
  assumes "run E w g es g'" and "heap_book (go_store g)" and "\<forall>d \<in> set (go_dumps g). dump_ok d"
  shows "\<forall>d \<in> set (go_dumps g'). dump_ok d"
  using assms
proof (induction rule: run.induct)
  case (run_more g es g1 e g2)
  have "heap_book (go_store g1)"
  proof -
    have "sections s t \<Longrightarrow> heap_book s \<Longrightarrow> heap_book t" for s t
      unfolding sections_def by (induction rule: rtranclp_induct) (auto intro: locked_section_book)
    then show ?thesis using run_sections [OF run_more.hyps(1)] run_more.prems by blast
  qed
  then show ?case using run_more dump_of_book by (auto elim!: stepE)
qed simp

text \<open>
  C7: a started bot stays sound in every interleaving. Whatever \<open>main\<close> started from its environment file, with any number of workers, however
  the sections of workers, watchdog, price feeder, log engine, stream reader and snapshots interleave and whatever
  the network answers, the risk heap and its table stay consistent, \<open>updateHeap\<close> never panics, the queue stays
  within 50000 users and the buffer within 20000 logs, and every snapshot written shows a consistent heap.
\<close>

theorem every_interleaving_safe:
  assumes "main_process x loadEnv mkdirAll envFile = Inr (Some (w, b))" and "run E w (launched n b) es g"
  shows "heap_book (go_store g) \<and> (\<forall>u hf. \<exists>t. updateHeap u hf (go_store g) = Inr t) \<and>
    length (go_queue g) \<le> 50000 \<and> length (go_buffer g) \<le> 20000 \<and> (\<forall>d \<in> set (go_dumps g). dump_ok d)"
proof -
  obtain env where m: "main_start x env = Inr (Some (w, b))" using assms(1) by (rule main_process_starts)
  have h: "heap_book (go_store g)" using bot_reachable_book started_reachable [OF m assms(2)] .
  have h0: "heap_book (bot_store b)" using bot_reachable_book started_reachable [OF m run_stop] by simp
  have "length (go_queue g) \<le> 50000" "length (go_buffer g) \<le> 20000"
    using queue_in_runs [OF assms(2)] buffer_in_runs [OF assms(2)] by (simp_all add: taskQueueSize_def logBufferSize_def)
  moreover have "\<forall>d \<in> set (go_dumps g). dump_ok d" by (rule dumps_in_runs [OF assms(2)]) (simp_all add: h0)
  ultimately show ?thesis using h updateHeap_book [OF h] by blast
qed

text \<open>
  C29: no interleaving broadcasts a transaction. If node calls with a finished context fail, and not as a revert,
  then whatever the goroutines do, the list of transactions sent stays empty: the worker passes on the context
  it has just cancelled.
\<close>

theorem no_interleaving_broadcasts:
  assumes "\<And>i url msg. \<exists>e. EstimateGas (node_at (w_txenv w) i url) True msg = Inl e \<and> \<not> is_revert e"
    and "run E w (launched n b) es g"
  shows "go_sent g = []"
  using runs_send_nothing [OF assms] by simp

text \<open>
  C31: both channels keep their order and lose nothing that entered them. In every run the users the workers took
  followed by those that wait are the users that were accepted into the queue, in this order, and the logs the
  engine received followed by those that wait are exactly the logs the reader read from the stream.
\<close>

theorem channels_first_come_first_served:
  assumes "run E w g es g'"
  shows "(\<exists>added. go_queue g @ added = served_by es @ go_queue g') \<and>
    go_buffer g @ logs_read es = logs_received es @ go_buffer g'"
  using queue_in_runs [OF assms] buffer_in_runs [OF assms] by blast

section \<open>Witnesses\<close>

theorem every_interleaving_safe_witness:
  "\<exists>w b g. main_process toy_outside (\<lambda>_. Some Config.toy_env) (\<lambda>_. True) ''.env'' = Inr (Some (w, b)) \<and>
     run UNIV w (launched 2 b) [Silent] g \<and> go_dumps g \<noteq> [] \<and> (\<forall>d \<in> set (go_dumps g). dump_ok d)"
proof -
  obtain w b where m: "main_start toy_outside Config.toy_env = Inr (Some (w, b))" using toy_started by blast
  then obtain cfg where "LoadConfig (x_IsHexAddress toy_outside) (x_HexToAddress toy_outside) Config.toy_env = Some cfg"
    using main_startE by metis
  then have p: "main_process toy_outside (\<lambda>_. Some Config.toy_env) (\<lambda>_. True) ''.env'' = Inr (Some (w, b))"
    using m by (simp add: main_process_def setupLogger_def)
  let ?g = "launched 2 b"
  let ?h = "snapshot_tick (\<lambda>_. []) ?g"
  have r: "run UNIV w ?g [Silent] ?h" by (rule run_one [OF go_dump])
  have "go_dumps ?h \<noteq> []" by simp
  then show ?thesis using p r every_interleaving_safe [OF p r] by blast
qed

text \<open>A worker of two takes the task of the example user and carries it to the end.\<close>

definition toy_system :: "state_store \<Rightarrow> string list \<Rightarrow> system" where
  "toy_system s q = (launched 2 (launch s toy_client))\<lparr>go_memory := memory_of s, go_queue := q\<rparr>"

lemma toy_system_simps [simp]:
  "go_store (toy_system s q) = s" "go_queue (toy_system s q) = q" "go_rpc (toy_system s q) = toy_client"
  "go_workers (toy_system s q) = [Idle, Idle]" "go_sent (toy_system s q) = []" "go_buffer (toy_system s q) = []"
  "go_dirty (toy_system s q) = {}" "go_feeder (toy_system s q) = FeederIdle" "go_engine (toy_system s q) = Waiting"
  by (simp_all add: toy_system_def launched_def launch_def NewLogReplayEngine_def numeral_2_eq_2)

theorem channels_first_come_first_served_witness:
  "\<exists>es g. run UNIV toy_wiring (toy_system (HealthFactor.toy_store 1000000000 900000000) [''u'', ''v'']) es g \<and>
     served_by es = [''u''] \<and> (\<exists>added. [''u'', ''v''] @ added = [''u''] @ go_queue g)"
proof -
  let ?s = "HealthFactor.toy_store 1000000000 900000000"
  obtain t r' where t: "worker_step (\<lambda>i. if i = 2 then [] else [''a'']) (toy_chain_env 900000000000000000) toy_tx_env
    toy_executor 100 ''u'' ?s toy_client = Inr (t, [], r')" using toy_worker by blast
  let ?g = "toy_system ?s [''u'', ''v'']"
  have "worker_step (\<lambda>i. if i = 2 then [] else [''a'']) (toy_chain_env 900000000000000000) (w_txenv toy_wiring)
      (w_executor toy_wiring) 100 ''u'' (go_store ?g) (go_rpc ?g) = Inr (t, [], r')" using t by simp
  from task_runs [OF this UNIV_I, of 0 "[''v'']"] obtain g where
    g: "run UNIV toy_wiring ?g (Takes ''u'' # replicate 19 Silent) g" by auto
  have n: "served_by (replicate k Silent) = []" for k by (induction k) simp_all
  have "\<exists>added. [''u'', ''v''] @ added = served_by (Takes ''u'' # replicate 19 Silent) @ go_queue g"
    using channels_first_come_first_served [OF g] by (simp del: replicate.simps)
  then show ?thesis using g n [of 19]
    by (intro exI [of _ "Takes ''u'' # replicate 19 Silent"] exI [of _ g]) (simp del: replicate.simps)
qed

end
