(* ===== verification/ReplayLedger.thy ===== *)
theory ReplayLedger
  imports Ledger ReplaySync
begin

text \<open>
  What a log means, independently of the handlers: the events of the pool, their effect on the ledger
  view of the store, and the proof that \<open>processLog\<close> has this effect.
\<close>

section \<open>The ledger: what a log means\<close>

text \<open>The events of the pool with the data the program reads from them.\<close>

datatype pool_event =
    IndexUpdated string int int u64
  | Supplied string string int
  | Withdrawn string string int
  | Borrowed string string int
  | Repaid string string int
  | Liquidated string string string int int
  | CollateralSet bool string string
  | EModeSet string u8

definition topic_addr :: "rpc_log \<Rightarrow> nat \<Rightarrow> string" where
  "topic_addr l i = ParseHexAddress (log_Topics l ! i)"

definition data_int :: "rpc_log \<Rightarrow> nat \<Rightarrow> nat \<Rightarrow> int" where
  "data_int l i j = ParseHexBigInt (slice (TrimPrefix (log_Data l) ''0x'') i j)"

definition has_fields :: "rpc_log \<Rightarrow> nat \<Rightarrow> nat \<Rightarrow> bool" where
  "has_fields l topics chars \<longleftrightarrow> topics \<le> length (log_Topics l) \<and> chars \<le> length (TrimPrefix (log_Data l) ''0x'')"

text \<open>\<open>None\<close> is a log without an effect: removed, unknown, truncated or of a stable-rate loan.\<close>

definition event_of :: "keccak \<Rightarrow> rpc_log \<Rightarrow> pool_event option" where
  "event_of kc l =
     (if log_Removed l \<or> log_Topics l = [] then None
      else let sig = hd (log_Topics l); when = (\<lambda>c e. if c then Some e else None) in
        if sig = TopicReserveDataUpdated kc then
          when (has_fields l 2 320) (IndexUpdated (topic_addr l 1) (data_int l 192 256) (data_int l 256 320) (log_block l))
        else if sig = TopicSupply kc then
          when (has_fields l 3 128) (Supplied (topic_addr l 1) (topic_addr l 2) (data_int l 64 128))
        else if sig = TopicWithdraw kc then
          when (has_fields l 4 64) (Withdrawn (topic_addr l 1) (topic_addr l 2) (data_int l 0 64))
        else if sig = TopicBorrow kc then
          when (has_fields l 3 192 \<and> big_Int64 (data_int l 128 192) = 2)
            (Borrowed (topic_addr l 1) (topic_addr l 2) (data_int l 64 128))
        else if sig = TopicRepay kc then
          when (has_fields l 3 64) (Repaid (topic_addr l 1) (topic_addr l 2) (data_int l 0 64))
        else if sig = TopicLiquidationCall kc then
          when (has_fields l 4 128)
            (Liquidated (topic_addr l 1) (topic_addr l 2) (topic_addr l 3) (data_int l 0 64) (data_int l 64 128))
        else if sig = TopicCollateralEnabled kc then
          when (has_fields l 3 0) (CollateralSet True (topic_addr l 1) (topic_addr l 2))
        else if sig = TopicCollateralDisabled kc then
          when (has_fields l 3 0) (CollateralSet False (topic_addr l 1) (topic_addr l 2))
        else if sig = TopicUserEModeSet kc then
          when (has_fields l 2 0) (EModeSet (topic_addr l 1)
            (ucast (big_Uint64 (ParseHexBigInt (TrimPrefix (log_Data l) ''0x'')))))
        else None)"

definition with_index ::
    "(global_index \<Rightarrow> int) \<Rightarrow> string \<Rightarrow> (int \<Rightarrow> ledger \<Rightarrow> ledger) \<Rightarrow> ledger \<Rightarrow> ledger" where
  "with_index sel a f L = (case lg_index L a of None \<Rightarrow> L | Some i \<Rightarrow> if sel i = 0 then L else f (sel i) L)"

definition apply_event :: "pool_event \<Rightarrow> ledger \<Rightarrow> ledger" where
  "apply_event e L = (case e of
     IndexUpdated a li vi b \<Rightarrow> L\<lparr>lg_index := (lg_index L)(a \<mapsto>
       \<lparr>gi_AssetAddress = a, LiquidityIndex = li, VariableBorrowIndex = vi, LastUpdateBlock = b\<rparr>)\<rparr>
   | Supplied a u x \<Rightarrow> with_index LiquidityIndex a
       (\<lambda>i L. L\<lparr>lg_supplied := at_entry u a (\<lambda>y. y + RayDiv x i) (lg_supplied L)\<rparr>) L
   | Withdrawn a u x \<Rightarrow> with_index LiquidityIndex a
       (\<lambda>i L. L\<lparr>lg_supplied := at_entry u a (\<lambda>y. drop_dust (y - RayDiv x i)) (lg_supplied L)\<rparr>) L
   | Borrowed a u x \<Rightarrow> with_index VariableBorrowIndex a
       (\<lambda>i L. L\<lparr>lg_debt := at_entry u a (\<lambda>y. y + RayDiv x i) (lg_debt L)\<rparr>) L
   | Repaid a u x \<Rightarrow> with_index VariableBorrowIndex a
       (\<lambda>i L. L\<lparr>lg_debt := at_entry u a (\<lambda>y. drop_dust (y - RayDiv x i)) (lg_debt L)\<rparr>) L
   | Liquidated c d u x y \<Rightarrow>
       (case (lg_index L d, lg_index L c) of
          (Some di, Some ci) \<Rightarrow>
            L\<lparr>lg_debt := at_entry u d (\<lambda>z. drop_dust (z - RayDiv x (VariableBorrowIndex di))) (lg_debt L),
              lg_supplied := at_entry u c (\<lambda>z. drop_dust (z - RayDiv y (LiquidityIndex ci))) (lg_supplied L)\<rparr>
        | _ \<Rightarrow> L)
   | CollateralSet b a u \<Rightarrow> L\<lparr>lg_collateral := at_entry u a (\<lambda>_. b) (lg_collateral L)\<rparr>
   | EModeSet u c \<Rightarrow> L\<lparr>lg_emode := (lg_emode L)(u \<mapsto> c)\<rparr>)"

lemma drop_dust_0 [simp]: "drop_dust 0 = 0"
  by (simp add: drop_dust_def)

lemmas ledger_simps = topic_addr_def data_int_def has_fields_def ledger_index with_index_def apply_event_def
  ledger_write Let_def

abbreviation ledger :: "replay \<Rightarrow> ledger" where "ledger st \<equiv> ledger_of (rp_store st)"

definition maybe_apply :: "pool_event option \<Rightarrow> ledger \<Rightarrow> ledger" where
  "maybe_apply e L = (case e of None \<Rightarrow> L | Some ev \<Rightarrow> apply_event ev L)"

lemma maybe_simps [simp]: "maybe_apply None L = L" "maybe_apply (Some ev) L = apply_event ev L"
  by (simp_all add: maybe_apply_def)

lemma index_ledger:
  "ledger (handleReserveDataUpdated ord l st) =
     maybe_apply (if has_fields l 2 320 then Some (IndexUpdated (topic_addr l 1) (data_int l 192 256)
       (data_int l 256 320) (log_block l)) else None) (ledger st)"
  by (simp add: handleReserveDataUpdated_def ledger_simps not_less)

lemma supply_ledger:
  "ledger (handleSupply l st) = maybe_apply
     (if has_fields l 3 128 then Some (Supplied (topic_addr l 1) (topic_addr l 2) (data_int l 64 128)) else None) (ledger st)"
  using ledger_write(1) [where g = "\<lambda>y. y + x" for x]
  by (simp add: handleSupply_def ledger_simps not_less split: option.split)

lemma withdraw_ledger:
  "ledger (handleWithdraw l st) = maybe_apply
     (if has_fields l 4 64 then Some (Withdrawn (topic_addr l 1) (topic_addr l 2) (data_int l 0 64)) else None) (ledger st)"
  using ledger_write(1) [where g = "\<lambda>y. drop_dust (y - x)" for x]
  by (simp add: handleWithdraw_def ledger_simps not_less split: option.split)

lemma borrow_ledger:
  "ledger (handleBorrow l st) = maybe_apply
     (if has_fields l 3 192 \<and> big_Int64 (data_int l 128 192) = 2
      then Some (Borrowed (topic_addr l 1) (topic_addr l 2) (data_int l 64 128)) else None) (ledger st)"
  using ledger_write(2) [where g = "\<lambda>y. y + x" for x]
  by (simp add: handleBorrow_def ledger_simps not_less split: option.split)

lemma repay_ledger:
  "ledger (handleRepay l st) = maybe_apply
     (if has_fields l 3 64 then Some (Repaid (topic_addr l 1) (topic_addr l 2) (data_int l 0 64)) else None) (ledger st)"
  using ledger_write(2) [where g = "\<lambda>y. drop_dust (y - x)" for x]
  by (simp add: handleRepay_def ledger_simps not_less split: option.split)

lemma collateral_ledger:
  "ledger (set_collateral b l st) = maybe_apply
     (if has_fields l 3 0 then Some (CollateralSet b (topic_addr l 1) (topic_addr l 2)) else None) (ledger st)"
  by (simp add: set_collateral_def ledger_simps not_less)

lemma emode_ledger:
  "ledger (handleUserEModeSet l st) = maybe_apply
     (if has_fields l 2 0 then Some (EModeSet (topic_addr l 1)
        (ucast (big_Uint64 (ParseHexBigInt (TrimPrefix (log_Data l) ''0x''))))) else None) (ledger st)"
  by (simp add: handleUserEModeSet_def ledger_simps not_less)

text \<open>In the liquidation both entries are created before either is written.\<close>

lemma reserve_at_present:
  "reserve_at s (ToLower u) (ToLower a) \<noteq> None \<Longrightarrow> GetUserReserve u a s = s"
  by (auto simp: GetUserReserve_def Let_def reserve_at_def ensure_position_def position_of_def split: option.splits)

lemma liquidation_ledger:
  "ledger (handleLiquidationCall l st) = maybe_apply
     (if has_fields l 4 128 then Some (Liquidated (topic_addr l 1) (topic_addr l 2) (topic_addr l 3)
        (data_int l 0 64) (data_int l 64 128)) else None) (ledger st)"
proof -
  have w: "ledger_of (update_reserve u c (\<lambda>r. r\<lparr>ScaledATokenBalance := g (ScaledATokenBalance r)\<rparr>)
        (update_reserve u d (\<lambda>r. r\<lparr>ScaledVariableDebt := f (ScaledVariableDebt r)\<rparr>)
          (GetUserReserve u c (GetUserReserve u d s)))) =
      (ledger_of s)\<lparr>lg_debt := at_entry (ToLower u) (ToLower d) f (lg_debt (ledger_of s)),
        lg_supplied := at_entry (ToLower u) (ToLower c) g (lg_supplied (ledger_of s))\<rparr>" for u c d f g s
  proof -
    let ?t = "GetUserReserve u c (GetUserReserve u d s)"
    let ?w = "update_reserve u d (\<lambda>r. r\<lparr>ScaledVariableDebt := f (ScaledVariableDebt r)\<rparr>) ?t"
    have pc: "reserve_at ?w (ToLower u) (ToLower c) \<noteq> None" and pd: "reserve_at ?t (ToLower u) (ToLower d) \<noteq> None"
      by (auto simp: store_simps)
    have "ledger_of ?w = (ledger_of ?t)\<lparr>lg_debt := at_entry (ToLower u) (ToLower d) f (lg_debt (ledger_of ?t))\<rparr>"
      using ledger_write(2) [of u d f ?t] reserve_at_present [OF pd] by simp
    moreover have "ledger_of (update_reserve u c (\<lambda>r. r\<lparr>ScaledATokenBalance := g (ScaledATokenBalance r)\<rparr>) ?w) =
        (ledger_of ?w)\<lparr>lg_supplied := at_entry (ToLower u) (ToLower c) g (lg_supplied (ledger_of ?w))\<rparr>"
      using ledger_write(1) [of u c g ?w] reserve_at_present [OF pc] by simp
    ultimately show ?thesis by simp
  qed
  show ?thesis
    using w [where g = "\<lambda>z. drop_dust (z - y)" and f = "\<lambda>z. drop_dust (z - x)" for x y]
    by (simp add: handleLiquidationCall_def topic_addr_def data_int_def has_fields_def ledger_index
        apply_event_def Let_def not_less split: option.split)
qed

lemma processLog_ledger: "ledger (processLog kc ord l st) = maybe_apply (event_of kc l) (ledger st)"
  by (simp add: processLog_def event_of_def Let_def hd_conv_nth index_ledger supply_ledger withdraw_ledger
      borrow_ledger repay_ledger liquidation_ledger handleCollateralEnabled_def handleCollateralDisabled_def
      collateral_ledger emode_ledger)

text \<open>
  C4: replaying a log does to the store exactly what the log means. On the ledger view (scaled balances,
  debts, collateral flags, known E-Modes, indices of all users and assets) \<open>processLog\<close> is the event's
  ledger update, for every kind of log: it changes the one named entry and nothing else, and removed,
  unknown, truncated and stable-rate logs change nothing.
\<close>

theorem processLog_refines_ledger:
  "ledger_of (rp_store (processLog kc ord l st)) =
     (case event_of kc l of None \<Rightarrow> ledger_of (rp_store st) | Some ev \<Rightarrow> apply_event ev (ledger_of (rp_store st)))"
  using processLog_ledger [of kc ord l st] by (simp add: maybe_apply_def split: option.split)

section \<open>Runs on the ledger\<close>

lemma flush_ledger [simp]: "ledger (flushDirtyUsers ord st) = ledger st"
  by (simp add: flushDirtyUsers_def)

lemma new_tx_ledger [simp]: "ledger (new_tx_flush ord l st) = ledger st"
  by (simp add: new_tx_flush_def)

lemma mark_processed_ledger [simp]: "ledger (mark_processed b i st) = ledger st"
  by (simp add: mark_processed_def)

lemma historic_log_ledger: "ledger (historic_log kc oF oS l st) = maybe_apply (event_of kc l) (ledger st)"
  by (simp add: historic_log_def processLog_ledger)

lemma catch_up_ledger:
  "ledger (catch_up kc events ordF bWs st) = fold (\<lambda>(l, _, _). maybe_apply (event_of kc l)) events (ledger st)"
proof -
  have "ledger (fold (\<lambda>(l, oF, oS). historic_log kc oF oS l) events st) =
      fold (\<lambda>(l, _, _). maybe_apply (event_of kc l)) events (ledger st)" for events
    by (induction events arbitrary: st) (auto simp: historic_log_ledger)
  then show ?thesis by (simp add: catch_up_def Let_def)
qed

lemma SetCurrentBlock_ledger [simp]: "ledger_of (SetCurrentBlock b s) = ledger_of s"
  by (simp add: SetCurrentBlock_def ledger_of_def reserve_at_def)

lemma live_step_ledger:
  assumes "live_step kc e l st st'"
  shows "ledger st' = ledger st \<or> ledger st' = maybe_apply (event_of kc l) (ledger st)"
  using assms by (cases rule: live_step.cases) (auto simp: live_log_def live_core_def Let_def processLog_ledger)

text \<open>Balances, debts and indices that are not negative.\<close>

definition nonneg_ledger :: "ledger \<Rightarrow> bool" where
  "nonneg_ledger L \<longleftrightarrow> (\<forall>u a. 0 \<le> lg_supplied L u a \<and> 0 \<le> lg_debt L u a) \<and>
     (\<forall>a i. lg_index L a = Some i \<longrightarrow> 0 \<le> LiquidityIndex i \<and> 0 \<le> VariableBorrowIndex i)"

definition unsigned_data :: "rpc_log \<Rightarrow> bool" where
  "unsigned_data l \<longleftrightarrow> CHR ''-'' \<notin> set (log_Data l)"

lemma big_SetString_nonneg: "CHR ''-'' \<notin> set s \<Longrightarrow> big_SetString s b = Some x \<Longrightarrow> 0 \<le> x"
  by (cases s) (auto simp: big_SetString_def split: if_splits)

lemma ParseHexBigInt_nonneg: "CHR ''-'' \<notin> set s \<Longrightarrow> 0 \<le> ParseHexBigInt s"
  using big_SetString_nonneg [of _ 16]
  by (auto simp: ParseHexBigInt_def Let_def TrimPrefix_def dest: in_set_dropD split: option.split)

lemma data_int_nonneg: "unsigned_data l \<Longrightarrow> 0 \<le> data_int l i j"
  unfolding data_int_def unsigned_data_def
  by (intro ParseHexBigInt_nonneg) (auto simp: slice_def TrimPrefix_def dest!: in_set_takeD in_set_dropD)

lemma drop_dust_nonneg: "0 \<le> drop_dust x"
  by (simp add: drop_dust_def)

lemma at_entry_apply: "at_entry u a f m u' a' = (if u' = u \<and> a' = a then f (m u a) else m u' a')"
  by (simp add: at_entry_def)

lemma nonneg_supplied:
  "nonneg_ledger L \<Longrightarrow> (\<And>y. 0 \<le> y \<Longrightarrow> 0 \<le> f y) \<Longrightarrow> nonneg_ledger (L\<lparr>lg_supplied := at_entry u a f (lg_supplied L)\<rparr>)"
  by (simp add: nonneg_ledger_def at_entry_apply)

lemma nonneg_debt:
  "nonneg_ledger L \<Longrightarrow> (\<And>y. 0 \<le> y \<Longrightarrow> 0 \<le> f y) \<Longrightarrow> nonneg_ledger (L\<lparr>lg_debt := at_entry u a f (lg_debt L)\<rparr>)"
  by (simp add: nonneg_ledger_def at_entry_apply)

lemma with_index_nonneg:
  assumes "nonneg_ledger L" and "\<And>i. lg_index L a = Some i \<Longrightarrow> nonneg_ledger (f (sel i) L)"
  shows "nonneg_ledger (with_index sel a f L)"
  using assms by (simp add: with_index_def split: option.split)

fun event_amounts :: "pool_event \<Rightarrow> int list" where
  "event_amounts (IndexUpdated a li vi b) = [li, vi]"
| "event_amounts (Supplied a u x) = [x]"
| "event_amounts (Withdrawn a u x) = [x]"
| "event_amounts (Borrowed a u x) = [x]"
| "event_amounts (Repaid a u x) = [x]"
| "event_amounts (Liquidated c d u x y) = [x, y]"
| "event_amounts (CollateralSet b a u) = []"
| "event_amounts (EModeSet u c) = []"

lemma apply_event_nonneg:
  assumes "nonneg_ledger L" and "\<forall>x \<in> set (event_amounts e). 0 \<le> x"
  shows "nonneg_ledger (apply_event e L)"
proof (cases e)
  case (Liquidated c d u x y)
  then show ?thesis
    using assms nonneg_supplied [OF nonneg_debt [OF assms(1)]] drop_dust_nonneg
    by (auto simp: apply_event_def split: option.split)
next
  case (Supplied a u x)
  have "0 \<le> RayDiv x (LiquidityIndex i)" if "lg_index L a = Some i" for i
    using assms that Supplied by (intro RayDiv_nonneg) (auto simp: nonneg_ledger_def)
  then show ?thesis using Supplied assms(1)
    by (auto simp: apply_event_def intro!: with_index_nonneg nonneg_supplied)
next
  case (Borrowed a u x)
  have "0 \<le> RayDiv x (VariableBorrowIndex i)" if "lg_index L a = Some i" for i
    using assms that Borrowed by (intro RayDiv_nonneg) (auto simp: nonneg_ledger_def)
  then show ?thesis using Borrowed assms(1)
    by (auto simp: apply_event_def intro!: with_index_nonneg nonneg_debt)
next
  case (Withdrawn a u x)
  then show ?thesis using assms(1)
    by (auto simp: apply_event_def drop_dust_nonneg intro!: with_index_nonneg nonneg_supplied)
next
  case (Repaid a u x)
  then show ?thesis using assms(1)
    by (auto simp: apply_event_def drop_dust_nonneg intro!: with_index_nonneg nonneg_debt)
qed (use assms in \<open>auto simp: apply_event_def nonneg_ledger_def\<close>)

lemma event_of_amounts:
  assumes "unsigned_data l" and "event_of kc l = Some e"
  shows "\<forall>x \<in> set (event_amounts e). 0 \<le> x"
  using assms(2) data_int_nonneg [OF assms(1)]
  by (auto simp: event_of_def Let_def split: if_splits)

text \<open>
  C39: replaying never produces a negative balance. In every run of the live loop over logs whose data has
  no minus sign (a node sends hexadecimal digits), balances, debts and indices that were not negative
  stay so, however large the amounts withdrawn, repaid or liquidated are.
\<close>

theorem replay_keeps_nonneg:
  assumes "live_run kc st ls st'" and "nonneg_ledger (ledger_of (rp_store st))"
    and "\<forall>l \<in> fst ` set ls. unsigned_data l"
  shows "nonneg_ledger (ledger_of (rp_store st'))"
  using assms
proof (induction rule: live_run.induct)
  case (run_step st ls st1 e l st2)
  then have n: "nonneg_ledger (ledger st1)" and u: "unsigned_data l" by auto
  have "nonneg_ledger (maybe_apply (event_of kc l) (ledger st1))"
    using apply_event_nonneg [OF n] event_of_amounts [OF u, of kc] n by (cases "event_of kc l") auto
  then show ?case using live_step_ledger [OF run_step.hyps(2)] n by auto
qed simp

theorem replay_keeps_nonneg_witness:
  "nonneg_ledger (ledger_of (rp_store toy_after))"
proof -
  have s: "nonneg_ledger (ledger_of (rp_store toy_replay))"
    by (simp add: nonneg_ledger_def ledger_of_def toy_replay_def reserve_at_def NewStateStore_def RAY_def)
  have "unsigned_data toy_supply" by code_simp
  then show ?thesis using replay_keeps_nonneg [OF toy_run s] by simp
qed

section \<open>A verified user and its subscriptions\<close>

text \<open>An entry without a subscription: no later log can create the subscription.\<close>

definition unsubscribed_entry :: "string \<Rightarrow> string \<Rightarrow> state_store \<Rightarrow> bool" where
  "unsubscribed_entry u a s \<longleftrightarrow> reserve_at s u a \<noteq> None \<and> u \<notin> subs_raw s a"

lemma unsubscribed_ops:
  "unsubscribed_entry u a s \<Longrightarrow> unsubscribed_entry u a (GetUserReserve v b s)"
  "unsubscribed_entry u a s \<Longrightarrow> unsubscribed_entry u a (update_reserve v b f s)"
  "unsubscribed_entry u a s \<Longrightarrow> unsubscribed_entry u a (SetUserEMode v c s)"
  "unsubscribed_entry u a s \<Longrightarrow> unsubscribed_entry u a (SetGlobalIndex b i s)"
  "unsubscribed_entry u a s \<Longrightarrow> unsubscribed_entry u a (SetCurrentBlock n s)"
  by (auto simp: unsubscribed_entry_def store_simps)

lemma unsubscribed_handlers:
  assumes "unsubscribed_entry u a (rp_store st)"
  shows "unsubscribed_entry u a (rp_store (handleReserveDataUpdated ord l st))"
    and "unsubscribed_entry u a (rp_store (handleSupply l st))"
    and "unsubscribed_entry u a (rp_store (handleWithdraw l st))"
    and "unsubscribed_entry u a (rp_store (handleBorrow l st))"
    and "unsubscribed_entry u a (rp_store (handleRepay l st))"
    and "unsubscribed_entry u a (rp_store (handleLiquidationCall l st))"
    and "unsubscribed_entry u a (rp_store (set_collateral b l st))"
    and "unsubscribed_entry u a (rp_store (handleUserEModeSet l st))"
  using assms
  by (simp_all add: handleReserveDataUpdated_def handleSupply_def handleWithdraw_def handleBorrow_def handleRepay_def
      handleLiquidationCall_def set_collateral_def handleUserEModeSet_def Let_def unsubscribed_ops split: option.split)

lemma unsubscribed_process:
  "unsubscribed_entry u a (rp_store st) \<Longrightarrow> unsubscribed_entry u a (rp_store (processLog kc ord l st))"
  by (simp add: processLog_def Let_def unsubscribed_handlers handleCollateralEnabled_def handleCollateralDisabled_def)

lemma unsubscribed_step:
  assumes "live_step kc e l st st'" and "unsubscribed_entry u a (rp_store st)"
  shows "unsubscribed_entry u a (rp_store st')"
  using assms
  by (cases rule: live_step.cases)
    (auto simp: live_log_def live_core_def new_tx_flush_def flushDirtyUsers_def mark_processed_def Let_def
      unsubscribed_process unsubscribed_ops)

text \<open>
  a user the worker has verified on chain can stay unsubscribed for ever. The worker replaces the user's
  position by the chain's, which has an entry for every configured asset, but adds no subscription; from
  then on \<open>GetUserReserve\<close> finds the entry and does not subscribe either. Whatever logs follow, supplies
  and borrows of this user in this asset included, the user is never told of a change of its price.
\<close>

theorem verified_user_never_subscribed:
  assumes "Reserves p (ToLower a) \<noteq> None" and "u \<notin> subscribers (rp_store st) a"
    and "live_run kc (on_store (put_position u p) st) ls st'"
  shows "u \<notin> subscribers (rp_store st') a"
proof -
  have start: "unsubscribed_entry u (ToLower a) (rp_store (on_store (put_position u p) st))"
    using assms(1,2) by (simp add: unsubscribed_entry_def subscribers_raw put_position_def reserve_at_def subs_raw_def)
  have "live_run kc st0 ls st' \<Longrightarrow> unsubscribed_entry u b (rp_store st0) \<Longrightarrow> unsubscribed_entry u b (rp_store st')" for st0 b
    by (induction rule: live_run.induct) (auto intro: unsubscribed_step)
  then have "unsubscribed_entry u (ToLower a) (rp_store st')" using assms(3) start by blast
  then show ?thesis by (simp add: unsubscribed_entry_def subscribers_raw)
qed

theorem verified_user_never_subscribed_witness:
  "\<exists>st'. live_run toy_keccak (on_store (put_position ''0x0b'' \<lparr>UserAddress = ''0x0b'',
       Reserves = [''0x0a'' \<mapsto> zero_reserve ''0x0a''], EModeCategoryId = 0, EModeFetched = True\<rparr>) toy_replay)
     [(toy_supply, True)] st' \<and> ''0x0b'' \<notin> subscribers (rp_store st') ''0x0a''"
proof -
  let ?p = "\<lparr>UserAddress = ''0x0b'', Reserves = [''0x0a'' \<mapsto> zero_reserve ''0x0a''], EModeCategoryId = 0, EModeFetched = True\<rparr>"
  let ?st = "on_store (put_position ''0x0b'' ?p) toy_replay"
  have l: "ToLower ''0x0a'' = ''0x0a''" by code_simp
  have r: "Reserves ?p (ToLower ''0x0a'') \<noteq> None" by (simp add: l)
  have s: "''0x0b'' \<notin> subscribers (rp_store toy_replay) ''0x0a''" by (simp add: toy_subscribers)
  have "finite_state ?st"
    by (simp add: finite_state_def toy_replay_def subs_raw_def put_position_def NewStateStore_def)
  then obtain st' where "live_step toy_keccak True toy_supply ?st st'" using live_step_exists by blast
  then have run: "live_run toy_keccak ?st [(toy_supply, True)] st'" using run_step [OF run_start] by fastforce
  then show ?thesis using verified_user_never_subscribed [OF r s run] by blast
qed

end
