(* ===== verification/Freshness.thy ===== *)
theory Freshness
  imports Goroutines ReplayLedger
begin

text \<open>
  How old the positions are that workers put into the store. A worker asks the chain for the position at the
  block the store stood at when it computed the health factor, and puts the answer over whatever the log engine
  has made of the position meanwhile. The theorems say when this keeps the ledger right, and what goes wrong
  otherwise.
\<close>

section \<open>The block of a verification\<close>

text \<open>The engine has not reached the live stream. \<open>Stopped\<close> is an error before it.\<close>

fun before_live :: "engine_pc \<Rightarrow> bool" where
  "before_live Live = False"
| "before_live (Received l) = False"
| "before_live (Check l) = False"
| "before_live (LiveLog pc l) = False"
| "before_live LogEnd = False"
| "before_live Ended = False"
| "before_live (Flushing us k) = before_live k"
| "before_live pc = True"

text \<open>The block number a worker holds.\<close>

fun held_block :: "worker_pc \<Rightarrow> u64 option" where
  "held_block (Total rd u v v' f c b) = Some b"
| "held_block (ReadConfigs u snap) = Some (CalculatedAtBlock snap)"
| "held_block (AskPosition u snap s) = Some (CalculatedAtBlock snap)"
| "held_block pc = None"

definition at_anchor :: "system \<Rightarrow> bool" where
  "at_anchor g \<longleftrightarrow> currentBlock (go_store g) = anchorBlock (go_store g) \<and>
     (\<forall>i < length (go_workers g). \<forall>b. held_block (go_workers g ! i) = Some b \<longrightarrow> b = anchorBlock (go_store g))"

lemma hf_of_position_block: "hf_of_position ord s p f c b = Some snap \<Longrightarrow> CalculatedAtBlock snap = b"
  by (auto simp: hf_of_position_def Let_def split: option.splits if_splits)

lemma held_after_sum:
  "held_block (after_sum rd u v f x) = Some b \<Longrightarrow> \<exists>snap. x = Some snap \<and> CalculatedAtBlock snap = b"
  by (auto simp: after_sum_def judge_def split: option.splits if_splits)

lemma worker_block:
  assumes "worker_section ords env txenv ex now pc m r = Inr (pc', m', sent, r')" and "held_block pc' = Some b"
  shows "held_block pc = Some b \<or> b = currentBlock (mm_store m)"
proof (cases pc)
  case (Look u)
  then show ?thesis using assms(2) goto_pc [OF assms(1) [unfolded Look worker_section.simps]] by (simp split: option.splits)
next
  case (Copy rd u v f c)
  then show ?thesis using assms(2) goto_pc [OF assms(1) [unfolded Copy worker_section.simps]] by (simp split: option.splits)
next
  case (Height rd u v v' f c)
  then show ?thesis using assms(2) goto_pc [OF assms(1) [unfolded Height worker_section.simps]] by (simp add: GetCurrentBlock_def)
next
  case (Total rd u v v' f c b')
  let ?x = "case position_at m u v' of None \<Rightarrow> None
    | Some user \<Rightarrow> hf_of_position (ords (if rd = First then 0 else 1)) (mm_store m) user f c b'"
  have "pc' = after_sum rd u v f ?x" using goto_pc [OF assms(1) [unfolded Total worker_section.simps]] .
  then obtain snap where "?x = Some snap" "CalculatedAtBlock snap = b" using assms(2) held_after_sum by blast
  then obtain user where "hf_of_position (ords (if rd = First then 0 else 1)) (mm_store m) user f c b' = Some snap"
    by (cases "position_at m u v'") simp_all
  from hf_of_position_block [OF this] have "b' = b" using \<open>CalculatedAtBlock snap = b\<close> by simp
  then show ?thesis using Total by simp
next
  case (AskMode u v)
  obtain a where a: "pc' = (case a of None \<Rightarrow> File u None | Some catId \<Rightarrow> if catId > 0 then LookCategory u v catId else PutMode u v catId)" using bind_goto_pc [OF assms(1) [unfolded AskMode worker_section.simps]] by blast
  from assms(2) show ?thesis unfolding a by (simp split: option.splits if_splits)
next
  case (AskCategory u v c)
  obtain a where a: "pc' = (case a of None \<Rightarrow> File u None | Some catConfig \<Rightarrow> PutCategory u v c catConfig)" using bind_goto_pc [OF assms(1) [unfolded AskCategory worker_section.simps]] by blast
  from assms(2) show ?thesis unfolding a by (simp split: option.splits if_splits)
next
  case (AskPosition u snap s)
  obtain a where a: "pc' = (case a of None \<Rightarrow> Idle | Some (acct, pos) \<Rightarrow> Replace u acct pos)" using bind_goto_pc [OF assms(1) [unfolded AskPosition worker_section.simps]] by blast
  from assms(2) show ?thesis unfolding a by (simp split: option.splits if_splits prod.splits)
next
  case (Search u acct v)
  obtain a where a: "pc' = (case a of None \<Rightarrow> Cool u acct noProfitCooldown | Some rec \<Rightarrow> if ExpectedProfitUSD rec > 0 then Send u acct rec else Cool u acct noProfitCooldown)" using bind_goto_pc [OF assms(1) [unfolded Search worker_section.simps]] by blast
  from assms(2) show ?thesis unfolding a by (simp split: option.splits if_splits)
next
  case (Send u acct rec)
  then show ?thesis using assms by (auto split: prod.splits option.splits)
next
  case (File u hf)
  then show ?thesis using assms by (auto simp: goto_def bind_outcome_Inr_iff)
qed (use assms in \<open>auto simp: goto_def split: if_splits\<close>)

lemma engine_before_live:
  "engine_section kc ordF ord e pc c v = (pc', c', v') \<Longrightarrow> before_live pc' \<Longrightarrow> before_live pc"
  by (cases "(kc, ordF, ord, e, pc, c, v)" rule: engine_section.cases)
    (auto simp: flush_then_def split: if_splits prod.splits)

lemma step_before_live: "step E w e g g' \<Longrightarrow> before_live (go_engine g') \<Longrightarrow> before_live (go_engine g)"
  by (erule stepE) (auto dest: engine_before_live)

lemma nth_without:
  "i < length xs \<Longrightarrow> j < length xs - Suc 0 \<Longrightarrow> \<exists>k < length xs. (take i xs @ drop (Suc i) xs) ! j = xs ! k"
  by (rule exI [of _ "if j < i then j else Suc j"]) (auto simp: nth_append)

lemma at_anchor_step:
  assumes "step E w e g g'" and "at_anchor g" and "before_live (go_engine g')"
  shows "at_anchor g' \<and> anchorBlock (go_store g') = anchorBlock (go_store g)"
  using assms(1)
proof (cases rule: step.cases)
  case (go_take i u q)
  then show ?thesis using assms(2,3) by (auto simp: at_anchor_def nth_list_update)
next
  case (go_work i ords env now pc m sent r)
  have s: "same_blocks (go_store g) (mm_store m)" using blocks.R_worker_section [OF go_work(5)] .
  have "b = anchorBlock (go_store g)" if "held_block pc = Some b" for b
    using worker_block [OF go_work(5) that] go_work(3) assms(2) by (auto simp: at_anchor_def)
  then show ?thesis using go_work assms(2,3) s by (auto simp: at_anchor_def same_blocks_def nth_list_update)
next
  case (go_leave i)
  then show ?thesis using assms(2) nth_without [of i "go_workers g"] by (simp add: at_anchor_def) metis
next
  case (go_price ord pc m q)
  then show ?thesis using assms(2,3) blocks.R_feeder_section [OF go_price(4)] by (auto simp: at_anchor_def same_blocks_def)
next
  case (go_engine ordF ord pc c v)
  have "before_live (go_engine g)" using step_before_live [OF assms(1,3)] .
  then have "same_blocks (go_store g) (lv_store v)" using blocks.R_engine_section [OF go_engine(5)] by force
  then show ?thesis using go_engine(2) assms(2) by (auto simp: at_anchor_def same_blocks_def)
qed (use assms in \<open>auto simp: at_anchor_def\<close>)

lemma at_anchor_run:
  "run E w g es g' \<Longrightarrow> at_anchor g \<Longrightarrow> before_live (go_engine g') \<Longrightarrow>
   at_anchor g' \<and> anchorBlock (go_store g') = anchorBlock (go_store g)"
proof (induction rule: run.induct)
  case (run_more g es g1 e g2)
  then show ?case using at_anchor_step [OF run_more.hyps(2)] step_before_live [OF run_more.hyps(2)] by auto
qed simp

lemma bootstrap_blocks:
  assumes "Run env ords assets NewStateStore = Inr (None, s)"
  shows "currentBlock s = anchorBlock s"
proof -
  let ?P = "\<lambda>t :: state_store. currentBlock t = anchorBlock t"
  obtain b reserves users s3 where r: "store_emodes env ords b users (store_reserves ords reserves (SetAnchorBlock b NewStateStore)) = Inr (Some s3)"
    "s = fold load_user users s3" using assms by (rule RunD)
  have "?P (store_reserves ords reserves (SetAnchorBlock b NewStateStore))"
    by (rule store_reserves_preserves [where P = ?P])
      (simp_all add: SetAnchorBlock_def NewStateStore_def SetGlobalIndex_def SetAssetConfig_def)
  then have "?P s3"
    by (rule store_emodes_preserves [OF r(1), where P = ?P]) (simp add: SetEModeCategory_def)
  then show ?thesis unfolding r(2)
    by (rule load_users_preserves [where P = ?P])
      (auto simp: SetUserEMode_def UpsertUserReserve_def ensure_position_def put_reserve_def subscribe_def Let_def split: option.split)
qed

lemma started_at_anchor:
  assumes "main_start x env = Inr (Some (w, b))"
  shows "currentBlock (bot_store b) = anchorBlock (bot_store b)"
proof -
  obtain benv ords assets s r where r: "Run benv ords assets NewStateStore = Inr (None, s)" and b: "b = launch s r"
    using main_startE [OF assms(1)] by metis
  have "bot_store b = s" by (simp add: b launch_def NewLogReplayEngine_def bootstrap_heap [OF r])
  then show ?thesis using bootstrap_blocks [OF r] by simp
qed

text \<open>
  C28: while the history is replayed, workers put positions of the anchor block into the store. A started bot stands
  at its anchor block (\<open>started_at_anchor\<close>) and before the log engine follows the live stream nothing moves the
  height. So a worker that verifies a user then asks the chain for the position at the anchor; its next two
  sections put the answer over whatever the replay has made of the position so far, while the replay goes on
  behind those logs.
\<close>

theorem replay_verifies_at_anchor:
  fixes chain :: chain_env
  assumes "currentBlock (bot_store b) = anchorBlock (bot_store b)" and "run E w (launched n b) es g"
    and "before_live (go_engine g)" and "i < length (go_workers g)" and "go_workers g ! i = AskPosition u snap s"
    and "FetchUserPosition_at chain s u (anchorBlock (bot_store b)) = Inr (Some (acct, pos))" and "chain \<in> E"
  shows "CalculatedAtBlock snap = anchorBlock (bot_store b) \<and>
    (\<exists>g'. run E w g [Silent, Silent] g' \<and> userPositions (go_store g') u = Some pos \<and>
       go_engine g' = go_engine g \<and> go_cursor g' = go_cursor g)"
proof -
  have start: "at_anchor (launched n b)" using assms(1) by (simp add: at_anchor_def)
  have a: "at_anchor g" "anchorBlock (go_store g) = anchorBlock (bot_store b)"
    using at_anchor_run [OF assms(2) start assms(3)] by simp_all
  then have c: "CalculatedAtBlock snap = anchorBlock (bot_store b)" using assms(4,5) by (auto simp: at_anchor_def)
  let ?g1 = "g\<lparr>go_workers := (go_workers g)[i := Replace u acct pos]\<rparr>"
  have "step E w Silent g (g\<lparr>go_memory := go_memory g, go_rpc := go_rpc g, go_sent := go_sent g @ [],
      go_workers := (go_workers g)[i := Replace u acct pos]\<rparr>)"
    by (rule go_work [where env = chain]) (use assms(4-7) c in \<open>simp_all add: goto_def\<close>)
  then have s1: "step E w Silent g ?g1" by simp
  obtain pc where "worker_section ords chain (w_txenv w) (w_executor w) now (go_workers ?g1 ! i) (go_memory ?g1) (go_rpc ?g1) =
      Inr (pc, replace_position u pos (go_memory g), [], go_rpc g)" for ords now
    using assms(4) by (simp add: goto_def)
  then have s2: "step E w Silent ?g1 (?g1\<lparr>go_memory := replace_position u pos (go_memory g), go_rpc := go_rpc g,
      go_sent := go_sent ?g1 @ [], go_workers := (go_workers ?g1)[i := pc]\<rparr>)"
    by (intro go_work [where env = chain]) (use assms(4,7) in simp_all)
  let ?g2 = "?g1\<lparr>go_memory := replace_position u pos (go_memory g), go_rpc := go_rpc g,
      go_sent := go_sent ?g1 @ [], go_workers := (go_workers ?g1)[i := pc]\<rparr>"
  have "run E w g [Silent, Silent] ?g2" using run_more [OF run_more [OF run_stop s1] s2] by simp
  moreover have "userPositions (go_store ?g2) u = Some pos" "go_engine ?g2 = go_engine g" "go_cursor ?g2 = go_cursor g"
    by (simp_all add: put_position_def)
  ultimately show ?thesis using c by blast
qed

section \<open>When a verified position keeps the ledger right\<close>

text \<open>The user whose balances, flags or E-Mode an event changes.\<close>

fun event_user :: "pool_event \<Rightarrow> string option" where
  "event_user (IndexUpdated a li vi b) = None"
| "event_user (Supplied a u x) = Some u"
| "event_user (Withdrawn a u x) = Some u"
| "event_user (Borrowed a u x) = Some u"
| "event_user (Repaid a u x) = Some u"
| "event_user (Liquidated c d u x y) = Some u"
| "event_user (CollateralSet b a u) = Some u"
| "event_user (EModeSet u c) = Some u"

text \<open>Balance, debt and collateral flag of a user in an asset, in the ledger and in a position.\<close>

definition ledger_row :: "ledger \<Rightarrow> string \<Rightarrow> string \<Rightarrow> int \<times> int \<times> bool" where
  "ledger_row L u a = (lg_supplied L u a, lg_debt L u a, lg_collateral L u a)"

definition position_row :: "user_position \<Rightarrow> string \<Rightarrow> int \<times> int \<times> bool" where
  "position_row p a = (case Reserves p a of None \<Rightarrow> (0, 0, False)
     | Some r \<Rightarrow> (ScaledATokenBalance r, ScaledVariableDebt r, UsageAsCollateralEnabledOnUser r))"

definition same_row :: "string \<Rightarrow> ledger \<Rightarrow> ledger \<Rightarrow> bool" where
  "same_row u L M \<longleftrightarrow> ledger_row L u = ledger_row M u"

lemma put_position_row: "ledger_row (ledger_of (put_position u p s)) v = (if v = u then position_row p else ledger_row (ledger_of s) v)"
  by (auto simp: ledger_row_def position_row_def ledger_of_def put_position_def reserve_at_def fun_eq_iff split: option.split)

lemma same_row_refl [simp]: "same_row u L L"
  by (simp add: same_row_def)

lemma other_users_row: "event_user e \<noteq> Some u \<Longrightarrow> same_row u (apply_event e L) L"
  by (cases e) (auto simp: apply_event_def with_index_def same_row_def ledger_row_def at_entry_def fun_eq_iff split: option.split)

lemma quiet_logs_row:
  "\<forall>l \<in> set ls. \<forall>e. event_of kc l = Some e \<longrightarrow> event_user e \<noteq> Some u \<Longrightarrow>
   same_row u (fold (\<lambda>l. maybe_apply (event_of kc l)) ls L) L"
proof (induction ls arbitrary: L)
  case (Cons l ls)
  have "same_row u (maybe_apply (event_of kc l) L) L"
    using Cons.prems other_users_row by (cases "event_of kc l") auto
  moreover have "same_row u (fold (\<lambda>l. maybe_apply (event_of kc l)) ls M) M" for M using Cons by simp
  ultimately show ?case by (simp add: same_row_def)
qed simp

lemma put_position_ledger:
  assumes "position_row p = ledger_row (ledger_of s) u"
  shows "ledger_of (put_position u p s) = (ledger_of s)\<lparr>lg_emode := (lg_emode (ledger_of s))
    (u := if EModeFetched p then Some (EModeCategoryId p) else None)\<rparr>"
proof -
  have "ledger_row (ledger_of (put_position u p s)) v = ledger_row (ledger_of s) v" for v
    using put_position_row [of u p s v] assms by simp
  then have "lg_supplied (ledger_of (put_position u p s)) = lg_supplied (ledger_of s)"
    "lg_debt (ledger_of (put_position u p s)) = lg_debt (ledger_of s)"
    "lg_collateral (ledger_of (put_position u p s)) = lg_collateral (ledger_of s)"
    by (auto simp: ledger_row_def fun_eq_iff)
  moreover have "lg_emode (ledger_of (put_position u p s)) =
      (lg_emode (ledger_of s))(u := if EModeFetched p then Some (EModeCategoryId p) else None)"
    by (auto simp: ledger_of_def put_position_def fun_eq_iff)
  moreover have "lg_index (ledger_of (put_position u p s)) = lg_index (ledger_of s)"
    by (simp add: ledger_of_def put_position_def)
  ultimately show ?thesis by (intro ledger.equality) simp_all
qed

lemma replayed_ledger:
  "ledger (fold (\<lambda>l. processLog kc (ord l) l) ls st) = fold (\<lambda>l. maybe_apply (event_of kc l)) ls (ledger st)"
  by (induction ls arbitrary: st) (simp_all add: processLog_ledger)

text \<open>
  C16: a verified position is harmless if nothing happened to the user since its block. At some block the store
  agreed with the chain about user \<open>u\<close>: in every configured asset with the scaled balances of its two tokens and
  the collateral bit, and it knew nothing of other assets. Since then the engine has processed any logs that are
  not about \<open>u\<close>. A worker that fetches the position at that block and puts it into the store now changes no
  balance, debt, flag or index of anybody, only the user's E-Mode becomes the chain's.
\<close>

theorem quiet_verification_exact:
  assumes known: "\<And>a. ledger_row (ledger_of (rp_store st0)) u a = (case assetConfigs s a of None \<Rightarrow> (0, 0, False)
      | Some c \<Rightarrow> (bal (HexToAddr abi (ATokenAddress c)), bal (HexToAddr abi (VTokenAddress c)),
          bit conf (2 * unat (ReserveID c) + 1)))"
    and enum: "enumerates ord (dom (assetConfigs s))"
    and reads: "chain_reads abi exec (HexToAddr abi pool) (HexToAddr abi u) acct emode conf bal"
    and calls: "position_calls abi (HexToAddr abi pool) (HexToAddr abi u) (map meta_of (visit (assetConfigs s) ord)) = Inr calls"
    and answers: "answers abi port mc (if CalculatedAtBlock snap > 0 then hex_block (CalculatedAtBlock snap) else latest)
      calls (map exec calls)"
    and ids: "\<forall>c \<in> ran (assetConfigs s). unat (ReserveID c) < 2 ^ 15"
    and quiet: "\<forall>l \<in> set ls. \<forall>e. event_of kc l = Some e \<longrightarrow> event_user e \<noteq> Some u"
    and now_at: "mm_store m = rp_store (fold (\<lambda>l. processLog kc (ordS l) l) ls st0)"
    and fetched: "worker_section ords (chain_env_of abi port mc ord pool) txenv ex now (AskPosition u snap s) m0 r =
      Inr (pc, m1, [], r)"
    and stored: "worker_section ords' env' txenv ex now' pc m r' = Inr (pc', m', sent, r'')"
  shows "ledger_of (mm_store m') = (ledger_of (mm_store m))\<lparr>lg_emode := (lg_emode (ledger_of (mm_store m)))
    (u \<mapsto> ucast (big_Uint64 emode))\<rparr>"
proof -
  let ?pos = "\<lparr>UserAddress = ToLower u,
     Reserves = (\<lambda>a. map_option (\<lambda>c. \<lparr>AssetAddress = a, ScaledATokenBalance = bal (HexToAddr abi (ATokenAddress c)),
       ScaledVariableDebt = bal (HexToAddr abi (VTokenAddress c)),
       UsageAsCollateralEnabledOnUser = bit conf (2 * unat (ReserveID c) + 1)\<rparr>) (assetConfigs s a)),
     EModeCategoryId = ucast (big_Uint64 emode), EModeFetched = True\<rparr>"
  have pc: "pc = Replace u acct ?pos"
    using fetched fetched_position [OF enum reads calls answers ids] by (simp add: chain_env_of_def goto_def)
  have m': "mm_store m' = put_position u ?pos (mm_store m)" using stored unfolding pc by (auto simp: goto_def)
  have "ledger_row (ledger_of (mm_store m)) u = ledger_row (ledger_of (rp_store st0)) u"
    using quiet_logs_row [OF quiet] by (simp add: now_at replayed_ledger same_row_def)
  moreover have "position_row ?pos = ledger_row (ledger_of (rp_store st0)) u"
    by (simp add: fun_eq_iff position_row_def known split: option.split)
  ultimately have "position_row ?pos = ledger_row (ledger_of (mm_store m)) u" by simp
  from put_position_ledger [OF this] show ?thesis by (simp add: m')
qed

section \<open>When it does not\<close>

text \<open>The events that may cut an entry off at zero.\<close>

fun lowers :: "string \<Rightarrow> string \<Rightarrow> pool_event \<Rightarrow> bool" where
  "lowers u a (Withdrawn b v x) \<longleftrightarrow> v = u \<and> b = a"
| "lowers u a (Repaid b v x) \<longleftrightarrow> v = u \<and> b = a"
| "lowers u a (Liquidated c d v x y) \<longleftrightarrow> v = u \<and> (c = a \<or> d = a)"
| "lowers u a e \<longleftrightarrow> False"

lemma apply_event_error:
  assumes "lg_index L = lg_index T" and "\<not> lowers u a e"
  shows "lg_index (apply_event e L) = lg_index (apply_event e T)"
    and "lg_supplied (apply_event e T) u a - lg_supplied (apply_event e L) u a = lg_supplied T u a - lg_supplied L u a"
    and "lg_debt (apply_event e T) u a - lg_debt (apply_event e L) u a = lg_debt T u a - lg_debt L u a"
  using assms by (cases e; auto simp: apply_event_def with_index_def at_entry_def split: option.split)+

text \<open>
  C27: an error that a stored position brings in stays. Let the bot's balance and debt of a user in an asset
  differ from the chain's ledger \<open>T\<close>, because the position a worker stored lacked an applied log or already
  contained one that was still to be applied, while the indices are the chain's. However many logs follow, without a withdrawal, repayment or
  liquidation of the entry both differences stay exactly what they were: nothing in the replay repairs them.
\<close>

theorem balance_error_stays:
  fixes kc :: keccak and ord :: "rpc_log \<Rightarrow> string \<Rightarrow> string list" and st :: replay
  assumes "lg_index (ledger_of (rp_store st)) = lg_index T"
    and "\<forall>l \<in> set ls. \<forall>e. event_of kc l = Some e \<longrightarrow> \<not> lowers u a e"
  defines "st' \<equiv> fold (\<lambda>l. processLog kc (ord l) l) ls st"
    and "T' \<equiv> fold (\<lambda>l L. case event_of kc l of None \<Rightarrow> L | Some e \<Rightarrow> apply_event e L) ls T"
  shows "lg_supplied T' u a - lg_supplied (ledger_of (rp_store st')) u a = lg_supplied T u a - lg_supplied (ledger_of (rp_store st)) u a \<and>
    lg_debt T' u a - lg_debt (ledger_of (rp_store st')) u a = lg_debt T u a - lg_debt (ledger_of (rp_store st)) u a"
proof -
  have f: "(\<lambda>l L. case event_of kc l of None \<Rightarrow> L | Some e \<Rightarrow> apply_event e L) = (\<lambda>l. maybe_apply (event_of kc l))"
    by (simp add: maybe_apply_def fun_eq_iff)
  let ?f = "fold (\<lambda>l. maybe_apply (event_of kc l))"
  have "lg_supplied (?f ls T) u a - lg_supplied (?f ls L) u a = lg_supplied T u a - lg_supplied L u a \<and>
      lg_debt (?f ls T) u a - lg_debt (?f ls L) u a = lg_debt T u a - lg_debt L u a"
    if "lg_index L = lg_index T" "\<forall>l \<in> set ls. \<forall>e. event_of kc l = Some e \<longrightarrow> \<not> lowers u a e" for L T and ls
    using that
  proof (induction ls arbitrary: L T)
    case (Cons l ls)
    show ?case
    proof (cases "event_of kc l")
      case (Some e)
      then have "\<not> lowers u a e" using Cons.prems by simp
      note step = apply_event_error [OF Cons.prems(1) this]
      show ?thesis using Cons.IH [OF step(1)] Cons.prems(2) step(2,3) Some by simp
    qed (use Cons in simp)
  qed simp
  then show ?thesis using assms(1,2) unfolding st'_def T'_def f replayed_ledger by simp
qed

section \<open>A write into a replaced position\<close>

lemma engine_step:
  assumes "finite (go_dirty g)" and "\<And>b. finite (subscribers (go_store g) b)"
    and "\<And>ordF ord. engine_section (w_keccak w) ordF ord (go_buffer g = []) (go_engine g) (go_cursor g) (go_view g) = (pc, c, v)"
    and "engine_event (go_engine g) = e"
  shows "step E w e g (with_view v (g\<lparr>go_engine := pc, go_cursor := c\<rparr>))"
proof -
  obtain ordF where f: "enumerates ordF (go_dirty g)" using enumerates_exists [OF assms(1)] by blast
  obtain ord where o: "\<And>b. enumerates (ord b) (subscribers (go_store g) b)"
    using enumerates_exists [OF assms(2)] by metis
  show ?thesis using go_engine [OF f o assms(3)] assms(4) by simp
qed

lemma finite_subscribers:
  "(\<And>b. finite (subscribers s b)) \<Longrightarrow> finite (subscribers (put_position u p s) b)"
  "(\<And>b. finite (subscribers s b)) \<Longrightarrow> finite (subscribers (GetUserReserve u a s) b)"
proof -
  assume f: "\<And>b. finite (subscribers s b)"
  then show "finite (subscribers (put_position u p s) b)" by (simp add: subscribers_raw)
  show "finite (subscribers (GetUserReserve u a s) b)"
    using f [of b] by (auto simp: subscribers_raw store_simps)
qed

text \<open>
  C26: a log that races with a worker is lost. When a worker replaces a user's position between the moment the
  log engine got the pointer of a reserve and the moment it writes through it, the write goes to the object that
  was replaced: the store ends up as if the log had never been, and the cursor counts the log as processed.
\<close>

theorem racing_log_is_lost:
  assumes "go_engine g = LiveLog (Acquire u [] [(a, f)]) l"
    and "i < length (go_workers g)" and "go_workers g ! i = Replace (ToLower u) acct pos"
    and "finite (go_dirty g)" and "\<And>b. finite (subscribers (go_store g) b)" and "E \<noteq> {}"
  shows "\<exists>g'. run E w g [Silent, Silent, Marks u, Silent] g' \<and>
    go_store g' = put_position (ToLower u) pos (GetUserReserve u a (go_store g)) \<and>
    go_engine g' = LogEnd \<and> cursor_duplicate (go_cursor g') (log_block l) (log_idx l)"
proof -
  let ?u = "ToLower u"
  let ?w = "[(mm_version (go_memory g) ?u, a, f)]"
  define v1 where "v1 = lv_section (GetUserReserve u a) (go_view g)"
  define g1 where "g1 = with_view v1 (g\<lparr>go_engine := LiveLog (WriteReserves u ?w) l, go_cursor := go_cursor g\<rparr>)"
  have s1: "step E w Silent g g1" unfolding g1_def
    by (rule engine_step [OF assms(4,5)]) (simp_all add: assms(1) v1_def)
  have g1: "go_engine g1 = LiveLog (WriteReserves u ?w) l" "go_workers g1 = go_workers g" "go_dirty g1 = go_dirty g"
    "go_cursor g1 = go_cursor g" "go_memory g1 = in_section (GetUserReserve u a) (go_memory g)"
    by (simp_all add: g1_def v1_def)
  obtain pc where pc: "worker_section ords env (w_txenv w) (w_executor w) now (go_workers g1 ! i) (go_memory g1) (go_rpc g1) =
      Inr (pc, replace_position ?u pos (go_memory g1), [], go_rpc g1)" for ords env now
    using assms(3) g1 by (simp add: goto_def)
  define g2 where "g2 = g1\<lparr>go_memory := replace_position ?u pos (go_memory g1), go_rpc := go_rpc g1,
    go_sent := go_sent g1 @ [], go_workers := (go_workers g1)[i := pc]\<rparr>"
  obtain env where "env \<in> E" using assms(6) by blast
  then have s2: "step E w Silent g1 g2" unfolding g2_def using assms(2) g1 by (intro go_work [OF _ _ pc]) simp_all
  have g2: "go_engine g2 = LiveLog (WriteReserves u ?w) l" "go_dirty g2 = go_dirty g" "go_cursor g2 = go_cursor g"
    "go_store g2 = put_position ?u pos (GetUserReserve u a (go_store g))"
    "mm_version (go_memory g2) ?u = Suc (mm_version (go_memory g) ?u)"
    using g1 by (simp_all add: g2_def)
  have f2: "finite (go_dirty g2)" "\<And>b. finite (subscribers (go_store g2) b)"
    using assms(4,5) g2 finite_subscribers by simp_all
  define v3 where "v3 = mark_dirty u (go_view g2\<lparr>lv_memory := write_all u ?w (go_memory g2)\<rparr>)"
  define g3 where "g3 = with_view v3 (g2\<lparr>go_engine := LiveLog LogDone l, go_cursor := go_cursor g2\<rparr>)"
  have s3: "step E w (Marks u) g2 g3" unfolding g3_def
    by (rule engine_step [OF f2]) (simp_all add: g2 v3_def)
  have g3: "go_engine g3 = LiveLog LogDone l" "go_dirty g3 = insert u (go_dirty g)" "go_cursor g3 = go_cursor g"
    "go_store g3 = go_store g2"
    using g2 by (simp_all add: g3_def v3_def write_all_def write_store)
  have f3: "finite (go_dirty g3)" "\<And>b. finite (subscribers (go_store g3) b)"
    using assms(4) f2(2) g3 by simp_all
  define g4 where "g4 = with_view (go_view g3) (g3\<lparr>go_engine := LogEnd,
    go_cursor := (go_cursor g3)\<lparr>cu_block := log_block l, cu_index := log_idx l\<rparr>\<rparr>)"
  have s4: "step E w Silent g3 g4" unfolding g4_def
    by (rule engine_step [OF f3]) (simp_all add: g3)
  have "run E w g [Silent, Silent, Marks u, Silent] g4"
    using run_more [OF run_more [OF run_more [OF run_more [OF run_stop s1] s2] s3] s4] by simp
  moreover have "go_store g4 = put_position ?u pos (GetUserReserve u a (go_store g))" "go_engine g4 = LogEnd"
    "cursor_duplicate (go_cursor g4) (log_block l) (log_idx l)"
    using g3 g2 by (simp_all add: g4_def cursor_duplicate_def)
  ultimately show ?thesis by blast
qed

section \<open>Witnesses\<close>

lemma asks_position:
  assumes "userPositions (mm_store m) u = Some p" and "EModeFetched p"
    and "computeHFMath (ords 0) (mm_store m) u True (EModeCategoryId p) = Some snap"
    and "\<not> TotalDebtBase snap < minDebtThreshold" and "snap_HealthFactor snap < HFLiquidationThreshold"
  shows "run_worker 5 ords env txenv ex now (Look u) m r = Inr (AskPosition u snap (mm_store m), m, [], r)"
  using assms by (simp add: eval_nat_numeral goto_def computeHFMath_position after_sum_def judge_def)

theorem replay_verifies_at_anchor_witness:
  "\<exists>es g snap s g'. run UNIV toy_wiring (launched 2 (toy_bot (subscribe ''a'' ''u'' (HealthFactor.toy_store 1000000000 900000000)) [])) es g \<and>
     before_live (go_engine g) \<and> go_workers g ! 0 = AskPosition ''u'' snap s \<and> CalculatedAtBlock snap = 0 \<and>
     run UNIV toy_wiring g [Silent, Silent] g' \<and> userPositions (go_store g') ''u'' = Some (new_position ''u'')"
proof -
  let ?s = "subscribe ''a'' ''u'' (HealthFactor.toy_store 1000000000 900000000)"
  let ?b = "toy_bot ?s []" and ?o = "NewOracleFeeder ''0xO'' [''a'']"
  let ?g = "launched 2 ?b"
  let ?f = "fetchAndStorePrices (\<lambda>_. [''u'']) toy_oracle toy_oracle_port ?o ?s []"
  let ?snap = "\<lambda>t. computeHFMath [''a''] t ''u'' True 0"
  have l: "bot_store ?b = ?s" "w_oracle toy_wiring = toy_oracle" "w_feeder toy_wiring = ?o" by simp_all
  have p: "fetchPrices toy_oracle toy_oracle_port ?o = Some [7]" by code_simp
  let ?t = "SetAssetPrice ''a'' 7 ?s"
  have "GetAssetPrice ?s ''a'' = Some 2" by code_simp
  then have sp: "store_prices [''a''] [7] ?s = (?t, [''a''])" by (simp add: store_prices_def price_step_def)
  have e: "EnqueueByAsset [''u''] ?t ''a'' [] = [''u'']" by code_simp
  have tg: "targetAssets ?o = [''a'']" by (simp add: NewOracleFeeder_def)
  have "?f = (True, ?t, [''u''])" by (simp add: fetchAndStorePrices_def p tg sp e)
  then obtain ok t where f: "?f = (ok, t, [''u''])" and t: "t = ?t" by blast
  let ?pos = "toy_position 1000000000 900000000"
  have pos: "userPositions t ''u'' = Some ?pos" "EModeFetched ?pos" "EModeCategoryId ?pos = 0"
    by (simp_all add: t SetAssetPrice_def subscribe_def toy_position_def HealthFactor.toy_store_def)
  have c: "case ?snap ?t of None \<Rightarrow> False | Some sn \<Rightarrow>
      \<not> TotalDebtBase sn < minDebtThreshold \<and> snap_HealthFactor sn < HFLiquidationThreshold" by code_simp
  then obtain snap where snap: "?snap t = Some snap" "\<not> TotalDebtBase snap < minDebtThreshold"
    "snap_HealthFactor snap < HFLiquidationThreshold" unfolding t by (auto split: option.splits)
  obtain es m where m: "mm_store m = t" and r1: "run UNIV toy_wiring ?g es (?g\<lparr>go_memory := m, go_queue := [''u''], go_ready := True\<rparr>)"
    using heartbeat_runs [of toy_wiring toy_oracle_port "[7]" "\<lambda>_. [''u'']" ?g ok t "[''u'']" UNIV] p f l by auto
  let ?g1 = "?g\<lparr>go_memory := m, go_queue := [''u''], go_ready := True\<rparr>"
  let ?g2 = "?g1\<lparr>go_queue := [], go_workers := [Look ''u'', Idle]\<rparr>"
  have "step UNIV toy_wiring (Takes ''u'') ?g1 (?g1\<lparr>go_queue := [], go_workers := (go_workers ?g1)[0 := Look ''u'']\<rparr>)"
    by (rule go_take) (simp_all add: numeral_2_eq_2)
  then have r2: "step UNIV toy_wiring (Takes ''u'') ?g1 ?g2" by (simp add: numeral_2_eq_2)
  let ?g3 = "?g2\<lparr>go_memory := m, go_rpc := go_rpc ?g2, go_sent := go_sent ?g2 @ [],
    go_workers := (go_workers ?g2)[0 := AskPosition ''u'' snap t]\<rparr>"
  have "run_worker 5 (\<lambda>_. [''a'']) (toy_chain_env 0) (w_txenv toy_wiring) (w_executor toy_wiring) 100 (Look ''u'') m (go_rpc ?g2) =
      Inr (AskPosition ''u'' snap t, m, [], go_rpc ?g2)"
    using asks_position [of m "''u''" ?pos "\<lambda>_. [''a'']" snap] pos snap m by simp
  then have r3: "run UNIV toy_wiring ?g2 (replicate 5 Silent) ?g3" by (rule worker_alone_runs) simp_all
  have run: "run UNIV toy_wiring ?g (es @ Takes ''u'' # replicate 5 Silent) ?g3"
    using run_trans [OF r1 run_then [OF r2 r3]] .
  have w: "before_live (go_engine ?g3)" "0 < length (go_workers ?g3)" "go_workers ?g3 ! 0 = AskPosition ''u'' snap t"
    "currentBlock (bot_store ?b) = anchorBlock (bot_store ?b)"
    by (simp_all add: subscribe_def HealthFactor.toy_store_def NewStateStore_def)
  have "FetchUserPosition_at (toy_chain_env 0) t ''u'' (anchorBlock (bot_store ?b)) =
      Inr (Some (\<lparr>acct_TotalCollateralBase = 0, acct_TotalDebtBase = 0, acct_HealthFactor = 0\<rparr>, new_position ''u''))"
    by (simp add: toy_chain_env_def)
  from replay_verifies_at_anchor [OF w(4) run w(1,2,3) this UNIV_I]
  obtain g' where "CalculatedAtBlock snap = anchorBlock (bot_store ?b)" "run UNIV toy_wiring ?g3 [Silent, Silent] g'"
    "userPositions (go_store g') ''u'' = Some (new_position ''u'')" by blast
  moreover have "anchorBlock (bot_store ?b) = 0" by (simp add: subscribe_def HealthFactor.toy_store_def NewStateStore_def)
  ultimately show ?thesis using run w by metis
qed

lemma toy_supply_event: "event_of toy_keccak toy_supply = Some (Supplied ''0x0a'' ''0x0b'' 500)"
  by code_simp

definition toy_known :: replay where
  "toy_known = toy_replay\<lparr>rp_store := (rp_store toy_replay)\<lparr>userPositions := [''user'' \<mapsto>
     \<lparr>UserAddress = ''user'', Reserves = [''a'' \<mapsto> \<lparr>AssetAddress = ''a'', ScaledATokenBalance = 3, ScaledVariableDebt = 5,
        UsageAsCollateralEnabledOnUser = True\<rparr>], EModeCategoryId = 0, EModeFetched = False\<rparr>]\<rparr>\<rparr>"

theorem quiet_verification_exact_witness:
  "\<exists>m pc m' pc' sent r. mm_store m = rp_store (processLog toy_keccak (\<lambda>_. []) toy_supply toy_known) \<and>
     worker_section (\<lambda>_. []) (toy_chain_env 0) toy_tx_env toy_executor 100 pc m toy_client = Inr (pc', m', sent, r) \<and>
     lg_supplied (ledger_of (mm_store m')) ''0x0b'' ''0x0a'' = 500 \<and> lg_supplied (ledger_of (mm_store m')) ''user'' ''a'' = 3 \<and>
     lg_emode (ledger_of (mm_store m)) ''user'' = None \<and> lg_emode (ledger_of (mm_store m')) ''user'' = Some 1"
proof -
  let ?calls = "[strict_call 4 [2], strict_call 4 [1], strict_call 4 [3], strict_call 3 [4], strict_call 5 [4]]"
  let ?abi = "toy_answering (map toy_exec ?calls)" and ?s = "ChainData.toy_store"
  let ?acct = "\<lparr>acct_TotalCollateralBase = 100, acct_TotalDebtBase = 50, acct_HealthFactor = WAD\<rparr>"
  let ?bal = "\<lambda>t :: address. uint (ucast t :: u8)"
  let ?snap = "\<lparr>snap_HealthFactor = 0, RawCollateralBase = 0, TotalCollateralBase = 0, TotalDebtBase = 0, CalculatedAtBlock = 0\<rparr>"
  let ?st = "fold (\<lambda>l. processLog toy_keccak (\<lambda>_. []) l) [toy_supply] toy_known"
  let ?m = "memory_of (rp_store ?st)"
  have b: "?bal (HexToAddr ?abi ''tok'') = 3" "?bal (HexToAddr ?abi ''token'') = 5"
    by (simp_all add: toy_answering_def toy_abi_def)
  have k: "ledger_row (ledger_of (rp_store toy_known)) ''user'' a = (case assetConfigs ?s a of None \<Rightarrow> (0, 0, False)
      | Some c \<Rightarrow> (?bal (HexToAddr ?abi (ATokenAddress c)), ?bal (HexToAddr ?abi (VTokenAddress c)),
          bit (2 :: int) (2 * unat (ReserveID c) + 1)))" for a
    using b by (simp add: ledger_row_def ledger_of_def reserve_at_def toy_known_def ChainData.toy_store_def toy_config_def NewStateStore_def)
  have o: "enumerates [''a''] (dom (assetConfigs ?s))" by (simp add: ChainData.toy_store_def enumerates_def)
  have r: "chain_reads ?abi toy_exec (HexToAddr ?abi ''pool'') (HexToAddr ?abi ''user'') ?acct 1 2 ?bal"
    by (simp add: chain_reads_def toy_answering_def toy_abi_def toy_exec_def strict_call_def head_answer_def unpackSafeBytes_def)
  have c: "position_calls ?abi (HexToAddr ?abi ''pool'') (HexToAddr ?abi ''user'')
      (map meta_of (visit (assetConfigs ?s) [''a''])) = Inr ?calls" by code_simp
  have a: "answers ?abi ChainData.toy_port 0 (if CalculatedAtBlock ?snap > 0 then hex_block (CalculatedAtBlock ?snap) else latest)
      ?calls (map toy_exec ?calls)" by code_simp
  have i: "\<forall>c \<in> ran (assetConfigs ?s). unat (ReserveID c) < 2 ^ 15" by (simp add: ChainData.toy_store_def toy_config_def)
  have q: "\<forall>l \<in> set [toy_supply]. \<forall>e. event_of toy_keccak l = Some e \<longrightarrow> event_user e \<noteq> Some ''user''"
    by (simp add: toy_supply_event)
  let ?env = "chain_env_of ?abi ChainData.toy_port 0 [''a''] ''pool''"
  obtain pos where "FetchUserPosition_at ?env ?s ''user'' (CalculatedAtBlock ?snap) = Inr (Some (?acct, pos))"
    using fetched_position [OF o r c a i] by (simp add: chain_env_of_def)
  then have f: "worker_section (\<lambda>_. []) ?env toy_tx_env toy_executor 100 (AskPosition ''user'' ?snap ?s) ?m toy_client =
      Inr (Replace ''user'' ?acct pos, ?m, [], toy_client)" by (simp add: goto_def)
  obtain pc' m' where w: "worker_section (\<lambda>_. []) (toy_chain_env 0) toy_tx_env toy_executor 100 (Replace ''user'' ?acct pos) ?m toy_client =
      Inr (pc', m', [], toy_client)" by (simp add: goto_def)
  have x: "ledger_of (mm_store m') = (ledger_of (mm_store ?m))\<lparr>lg_emode := (lg_emode (ledger_of (mm_store ?m)))
      (''user'' \<mapsto> ucast (big_Uint64 1))\<rparr>"
    by (rule quiet_verification_exact [where ordS = "\<lambda>_ _. []", OF k o r c a i q _ f w]) simp
  have st: "ledger_of (mm_store ?m) = apply_event (Supplied ''0x0a'' ''0x0b'' 500) (ledger_of (rp_store toy_known))"
    by (simp add: processLog_ledger toy_supply_event)
  have "lg_supplied (ledger_of (mm_store ?m)) ''0x0b'' ''0x0a'' = 500"
    "lg_supplied (ledger_of (mm_store ?m)) ''user'' ''a'' = 3" "lg_emode (ledger_of (mm_store ?m)) ''user'' = None"
    unfolding st by code_simp+
  moreover have "ucast (big_Uint64 1) = (1 :: u8)" by code_simp
  ultimately have "lg_supplied (ledger_of (mm_store m')) ''0x0b'' ''0x0a'' = 500 \<and> lg_supplied (ledger_of (mm_store m')) ''user'' ''a'' = 3 \<and>
      lg_emode (ledger_of (mm_store ?m)) ''user'' = None \<and> lg_emode (ledger_of (mm_store m')) ''user'' = Some 1"
    by (simp only: x) simp
  moreover have "mm_store ?m = rp_store (processLog toy_keccak (\<lambda>_. []) toy_supply toy_known)" by simp
  ultimately show ?thesis using w by blast
qed

theorem balance_error_stays_witness:
  "let L = ledger_of (rp_store toy_replay); T = L\<lparr>lg_supplied := at_entry ''0x0b'' ''0x0a'' (\<lambda>x. x + 7) (lg_supplied L)\<rparr>;
       T' = apply_event (Supplied ''0x0a'' ''0x0b'' 500) T;
       L' = ledger_of (rp_store (processLog toy_keccak (\<lambda>_. []) toy_supply toy_replay)) in
   lg_supplied T' ''0x0b'' ''0x0a'' - lg_supplied L' ''0x0b'' ''0x0a'' = 7"
proof -
  let ?L = "ledger_of (rp_store toy_replay)"
  let ?T = "?L\<lparr>lg_supplied := at_entry ''0x0b'' ''0x0a'' (\<lambda>x. x + 7) (lg_supplied ?L)\<rparr>"
  have i: "lg_index ?L = lg_index ?T" by simp
  have q: "\<forall>l \<in> set [toy_supply]. \<forall>e. event_of toy_keccak l = Some e \<longrightarrow> \<not> lowers ''0x0b'' ''0x0a'' e"
    by (simp add: toy_supply_event)
  have "lg_supplied ?T ''0x0b'' ''0x0a'' - lg_supplied ?L ''0x0b'' ''0x0a'' = 7" by (simp add: at_entry_def)
  then show ?thesis using balance_error_stays [OF i q, of "\<lambda>_ _. []"] by (simp add: toy_supply_event Let_def)
qed

theorem racing_log_is_lost_witness:
  "let g = (toy_system NewStateStore [])\<lparr>go_engine := LiveLog (Acquire ''u'' [] [(''a'', set_flag True)]) toy_supply,
       go_workers := [Replace ''u'' \<lparr>acct_TotalCollateralBase = 0, acct_TotalDebtBase = 0, acct_HealthFactor = 0\<rparr> (new_position ''u'')]\<rparr> in
   \<exists>g'. run UNIV toy_wiring g [Silent, Silent, Marks ''u'', Silent] g' \<and> userPositions (go_store g') ''u'' = Some (new_position ''u'') \<and>
     go_engine g' = LogEnd \<and> cursor_duplicate (go_cursor g') (log_block toy_supply) (log_idx toy_supply)"
proof -
  let ?acct = "\<lparr>acct_TotalCollateralBase = 0, acct_TotalDebtBase = 0, acct_HealthFactor = 0\<rparr>"
  let ?g = "(toy_system NewStateStore [])\<lparr>go_engine := LiveLog (Acquire ''u'' [] [(''a'', set_flag True)]) toy_supply,
    go_workers := [Replace ''u'' ?acct (new_position ''u'')]\<rparr>"
  have l: "ToLower ''u'' = ''u''" by code_simp
  have "\<exists>g'. run UNIV toy_wiring ?g [Silent, Silent, Marks ''u'', Silent] g' \<and>
      go_store g' = put_position (ToLower ''u'') (new_position ''u'') (GetUserReserve ''u'' ''a'' (go_store ?g)) \<and>
      go_engine g' = LogEnd \<and> cursor_duplicate (go_cursor g') (log_block toy_supply) (log_idx toy_supply)"
    by (rule racing_log_is_lost [where f = "set_flag True" and acct = ?acct and i = 0])
      (simp_all add: l subscribers_def NewStateStore_def)
  then show ?thesis by (auto simp: Let_def l put_position_def)
qed

end
