(* ===== verification/TouchedUsers.thy ===== *)
theory TouchedUsers
  imports Freshness
begin

text \<open>
  No user is forgotten. Every position the log engine changes is marked, every marked user is offered to the task
  queue before the engine rests, in whatever way the other goroutines come in between.
\<close>

section \<open>What the engine owes\<close>

text \<open>The users marked since they were last offered to the queue.\<close>

fun owed_after :: "event \<Rightarrow> string set \<Rightarrow> string set" where
  "owed_after (Marks u) S = insert u S"
| "owed_after (Offers u) S = S - {u}"
| "owed_after e S = S"

definition owed :: "event list \<Rightarrow> string set" where
  "owed es = fold owed_after es {}"

lemma owed_snoc [simp]: "owed [] = {}" "owed (es @ [e]) = owed_after e (owed es)"
  by (simp_all add: owed_def)

lemma owed_until_offered:
  assumes "owed (es1 @ Marks u # es2) = {}"
  shows "Offers u \<in> set es2"
proof (rule ccontr)
  assume n: "Offers u \<notin> set es2"
  have "u \<in> fold owed_after es2 S" if "u \<in> S" "Offers u \<notin> set es2" for S
    using that
  proof (induction es2 arbitrary: S)
    case (Cons e es)
    then show ?case by (cases "(e, S)" rule: owed_after.cases) auto
  qed simp
  then have "u \<in> owed (es1 @ Marks u # es2)" using n by (simp add: owed_def)
  then show False using assms by simp
qed

definition keeps_account :: "string set \<Rightarrow> system \<Rightarrow> bool" where
  "keeps_account S g \<longleftrightarrow> S \<subseteq> go_dirty g \<and> (\<forall>us k. go_engine g = Flushing us k \<longrightarrow> S \<subseteq> set us) \<and>
     (go_engine g = Live \<longrightarrow> go_dirty g = {} \<or> go_buffer g \<noteq> []) \<and> (\<forall>b. go_engine g = HandOver b \<longrightarrow> go_dirty g = {})"

text \<open>One section of the engine.\<close>

lemma log_marks:
  assumes "log_section ord pc v = (pc', v')"
  shows "lv_dirty v' = owed_after (log_event pc) (lv_dirty v) \<and> (\<forall>u. log_event pc \<noteq> Offers u)"
  using assms
  by (cases "(ord, pc, v)" rule: log_section.cases)
    (auto simp: mark_dirty_def lv_section_def Let_def split: option.splits if_splits)

lemma log_event_keeps: "S \<subseteq> D \<Longrightarrow> (\<forall>u. log_event pc \<noteq> Offers u) \<Longrightarrow> owed_after (log_event pc) S \<subseteq> owed_after (log_event pc) D"
  by (cases "log_event pc") auto

lemma engine_account:
  assumes "engine_section kc ordF ord (go_buffer g = []) (go_engine g) (go_cursor g) (go_view g) = (pc, c, v)"
    and "enumerates ordF (go_dirty g)" and "keeps_account S g"
  shows "keeps_account (owed_after (engine_event (go_engine g)) S) (with_view v (g\<lparr>go_engine := pc, go_cursor := c\<rparr>))"
proof -
  have f: "set ordF = go_dirty g" using assms(2) by (simp add: enumerates_def)
  show ?thesis
    using assms(1,3)
    by (cases "(kc, ordF, ord, go_buffer g = [], go_engine g, go_cursor g, go_view g)" rule: engine_section.cases)
      (use f in \<open>auto simp: keeps_account_def flush_then_def log_marks log_event_keeps lv_section_def split: if_splits prod.splits\<close>)
qed

lemma step_account:
  assumes "step E w e g g'" and "keeps_account S g"
  shows "keeps_account (owed_after e S) g'"
  using assms(1)
proof (cases rule: step.cases)
  case (go_engine ordF ord pc c v)
  show ?thesis unfolding go_engine(1,2) by (rule engine_account [OF go_engine(5,3) assms(2)])
qed (use assms(2) in \<open>auto simp: keeps_account_def reader_section_def\<close>)

lemma run_account:
  "run E w g es g' \<Longrightarrow> keeps_account {} g \<Longrightarrow> keeps_account (owed es) g'"
  by (induction rule: run.induct) (auto intro: step_account)

section \<open>What a user's position is to the ledger\<close>

definition known_of :: "state_store \<Rightarrow> string \<Rightarrow> (string \<Rightarrow> int \<times> int \<times> bool) \<times> u8 option" where
  "known_of s x = (ledger_row (ledger_of s) x, lg_emode (ledger_of s) x)"

lemma known_of_positions: "userPositions t = userPositions s \<Longrightarrow> known_of t x = known_of s x"
  by (simp add: known_of_def ledger_row_def fun_eq_iff) (simp add: ledger_of_def reserve_at_def)

lemma known_of_write: "ToLower u \<noteq> x \<Longrightarrow> known_of (update_reserve u a f s) x = known_of s x"
  by (simp add: known_of_def emode_frame ledger_row_def fun_eq_iff) (simp add: ledger_of_def store_simps)

lemma known_of_sections [simp]:
  "known_of (GetUserReserve u a s) x = known_of s x" "known_of (SetGlobalIndex a i s) x = known_of s x"
  "known_of (SetAssetPrice a p s) x = known_of s x" "known_of (SetCurrentBlock b s) x = known_of s x"
  "known_of (put_category c cat s) x = known_of s x" "known_of (set_next_check v t s) x = known_of s x"
  "ToLower u \<noteq> x \<Longrightarrow> known_of (SetUserEMode u c s) x = known_of s x"
  by (simp_all add: known_of_def ledger_row_def fun_eq_iff)
    (simp_all add: ledger_of_def reserve_at_def SetAssetPrice_def SetCurrentBlock_def put_category_def)

lemma write_all_known: "ToLower u \<noteq> x \<Longrightarrow> known_of (mm_store (write_all u got m)) x = known_of (mm_store m) x"
proof (induction got arbitrary: m)
  case (Cons h got)
  obtain v a f where h: "h = (v, a, f)" by (cases h)
  have "known_of (mm_store (write_reserve (ToLower u) v (ToLower a) f m)) x = known_of (mm_store m) x"
    using Cons.prems by (simp add: write_store known_of_write)
  then show ?case using Cons h by (simp add: write_all_def)
qed (simp add: write_all_def)

lemma log_known:
  assumes "log_section ord pc v = (pc', v')" and "\<And>u. log_event pc = Marks u \<Longrightarrow> ToLower u \<noteq> x"
  shows "known_of (lv_store v') x = known_of (lv_store v) x"
  using assms
  by (cases "(ord, pc, v)" rule: log_section.cases)
    (auto simp: mark_dirty_def Let_def write_all_known split: option.splits if_splits)

lemma engine_known:
  assumes "engine_section kc ordF ord be pc c v = (pc', c', v')" and "\<And>u. engine_event pc = Marks u \<Longrightarrow> ToLower u \<noteq> x"
  shows "known_of (lv_store v') x = known_of (lv_store v) x"
  using assms
  by (cases "(kc, ordF, ord, be, pc, c, v)" rule: engine_section.cases)
    (auto simp: log_known flush_then_def split: if_splits prod.splits)

lemma feeder_known:
  "feeder_section ord pc m q = (pc', m', q') \<Longrightarrow> known_of (mm_store m') x = known_of (mm_store m) x"
  by (cases "(ord, pc, m, q)" rule: feeder_section.cases) (auto split: if_splits)

text \<open>A worker that does not move does nothing.\<close>

lemma worker_stays:
  assumes "worker_section ords env txenv ex now pc m r = Inr (pc, m', sent, r')"
  shows "m' = m"
proof (cases pc)
  case (Total rd u v v' f c b)
  then show ?thesis using assms by (auto simp: goto_def)
qed (use assms in \<open>auto simp: goto_def bind_outcome_Inr_iff split: option.splits if_splits prod.splits\<close>)

lemma step_known:
  assumes "step E w e g g'" and "go_workers g' = go_workers g" and "known_of (go_store g') x \<noteq> known_of (go_store g) x"
  shows "\<exists>u. e = Marks u \<and> ToLower u = x"
  using assms(1)
proof (cases rule: step.cases)
  case (go_engine ordF ord pc c v)
  show ?thesis
  proof (rule ccontr)
    assume "\<not> ?thesis"
    then have "\<And>u. engine_event (go_engine g) = Marks u \<Longrightarrow> ToLower u \<noteq> x" using go_engine(1) by blast
    from engine_known [OF go_engine(5) this] show False using assms(3) go_engine(2) by simp
  qed
next
  case (go_work i env ords now pc m sent r)
  then have "pc = go_workers g ! i" using assms(2) by (simp add: list_update_same_conv)
  then have "m = go_memory g" using worker_stays go_work(5) by simp
  then show ?thesis using go_work(2) assms(3) by simp
next
  case (go_price ord pc m q)
  then show ?thesis using feeder_known [OF go_price(4)] assms(3) by simp
qed (use assms(2,3) in auto)

lemma run_split: "run E w g es g' \<Longrightarrow> es = es1 @ es2 \<Longrightarrow> \<exists>h. run E w g es1 h \<and> run E w h es2 g'"
proof (induction arbitrary: es2 rule: run.induct)
  case (run_stop g)
  then have "es1 = []" "es2 = []" by simp_all
  then show ?case by (simp add: run.run_stop exI [of _ g])
next
  case (run_more g es g1 e g2)
  show ?case
  proof (cases es2 rule: rev_cases)
    case Nil
    then have "run E w g es1 g2" using run.run_more [OF run_more.hyps] run_more.prems by simp
    moreover have "run E w g2 es2 g2" by (simp add: Nil run.run_stop)
    ultimately show ?thesis by (rule exI [of _ g2, OF conjI])
  next
    case (snoc es3 e')
    then have "es = es1 @ es3" "e' = e" using run_more.prems by simp_all
    from run_more.IH [OF this(1)] obtain h where h: "run E w g es1 h" "run E w h es3 g1" by blast
    from run.run_more [OF h(2) run_more.hyps(2)] show ?thesis using h(1) snoc \<open>e' = e\<close> by blast
  qed
qed

lemma run_Cons:
  assumes "run E w g (e # es) g'"
  obtains h where "step E w e g h" and "run E w h es g'"
proof -
  obtain h where h: "run E w g [e] h" "run E w h es g'" using run_split [OF assms, of "[e]" es] by auto
  from h(1) show ?thesis
  proof (cases rule: run.cases)
    case (run_more es0 g1 e0)
    then have "es0 = []" "e0 = e" by simp_all
    moreover have "g1 = g" using run_more(2) \<open>es0 = []\<close> by (cases rule: run.cases) simp_all
    ultimately show ?thesis using run_more(3) that h(2) by blast
  qed
qed

lemma offered_step:
  assumes "step E w (Offers u) g g'"
  shows "go_queue g' = Enqueue u (go_queue g)"
  using assms
proof (cases rule: step.cases)
  case (go_engine ordF ord pc c v)
  have "log_event pc \<noteq> Offers u" for pc by (cases pc rule: log_event.cases) auto
  then obtain us k where "go_engine g = Flushing (u # us) k"
    using go_engine(1) by (cases "go_engine g" rule: engine_event.cases) auto
  then show ?thesis using go_engine(2,5) by auto
qed

text \<open>
  C8: no change of the log engine goes unnoticed. Take any run that starts without dirty users, as a started bot
  does, and any step of it that is not a worker's and changes what the store knows of a user, balances,
  debts, flags or E-Mode. By the time the engine has emptied its buffer and waits again, it has offered this
  user to the task queue, after the change: the user was put into the queue or the queue was full.
\<close>

theorem changed_position_is_offered:
  assumes "run E w g0 es1 g1" and "go_dirty g0 = {}" and "step E w e g1 g2" and "run E w g2 es2 g"
    and "go_workers g2 = go_workers g1" and "known_of (go_store g2) x \<noteq> known_of (go_store g1) x"
    and "go_engine g = Live" and "go_buffer g = []"
  shows "\<exists>u es3 es4 h h'. ToLower u = x \<and> es2 = es3 @ Offers u # es4 \<and> run E w g2 es3 h \<and>
    step E w (Offers u) h h' \<and> run E w h' es4 g \<and> (u \<in> set (go_queue h') \<or> 50000 \<le> length (go_queue h'))"
proof -
  obtain u where u: "e = Marks u" "ToLower u = x" using step_known [OF assms(3,5,6)] by blast
  have "run E w g0 (es1 @ [e]) g2" using run_more [OF assms(1,3)] .
  then have "run E w g0 (es1 @ Marks u # es2) g" using run_trans [OF _ assms(4)] u(1) by fastforce
  then have k: "keeps_account (owed (es1 @ Marks u # es2)) g"
    by (rule run_account) (simp add: keeps_account_def assms(2))
  then have "owed (es1 @ Marks u # es2) = {}" using assms(7,8) by (auto simp: keeps_account_def)
  from owed_until_offered [OF this] obtain es3 es4 where es: "es2 = es3 @ Offers u # es4" by (meson split_list)
  obtain h where h: "run E w g2 es3 h" "run E w h (Offers u # es4) g" using run_split [OF assms(4) es] by blast
  obtain h' where h': "step E w (Offers u) h h'" "run E w h' es4 g" using h(2) by (rule run_Cons)
  have "u \<in> set (go_queue h') \<or> 50000 \<le> length (go_queue h')"
    unfolding offered_step [OF h'(1)] by (auto simp: Enqueue_def taskQueueSize_def)
  then show ?thesis using u(2) es h(1) h' by blast
qed

section \<open>Witness\<close>

lemma lone_engine_step:
  assumes "enumerates ordF (go_dirty g)" and "assetSubscribers (go_store g) = Map.empty"
    and "engine_section (w_keccak w) ordF (\<lambda>_. []) (go_buffer g = []) (go_engine g) (go_cursor g) (go_view g) = (pc, c, v)"
    and "engine_event (go_engine g) = e"
  shows "step E w e g (with_view v (g\<lparr>go_engine := pc, go_cursor := c\<rparr>))"
proof -
  have "enumerates [] (subscribers (go_store g) b)" for b using assms(2) by (simp add: subscribers_def enumerates_def)
  from go_engine [OF assms(1) this assms(3)] show ?thesis using assms(4) by simp
qed

lemma lone_engine_steps:
  assumes "assetSubscribers (go_store g) = Map.empty" and "go_buffer g = []" and "go_dirty g = {u}"
    and "go_engine g = LiveLog LogDone l"
  shows "\<exists>h. run E w g [Silent, Silent, Offers u, Silent] h \<and> go_engine h = Live \<and> go_buffer h = []"
proof -
  let ?c = "(go_cursor g)\<lparr>cu_block := log_block l, cu_index := log_idx l\<rparr>"
  define g3 where "g3 = with_view (go_view g) (g\<lparr>go_engine := LogEnd, go_cursor := ?c\<rparr>)"
  define g4 where "g4 = with_view (go_view g3) (g3\<lparr>go_engine := Flushing [u] Live, go_cursor := ?c\<rparr>)"
  define v5 where "v5 = (go_view g4)\<lparr>lv_queue := Enqueue u (go_queue g4)\<rparr>"
  define g5 where "g5 = with_view v5 (g4\<lparr>go_engine := Flushing [] Live, go_cursor := ?c\<rparr>)"
  define v6 where "v6 = (go_view g5)\<lparr>lv_dirty := {}\<rparr>"
  define g6 where "g6 = with_view v6 (g5\<lparr>go_engine := Live, go_cursor := ?c\<rparr>)"
  note gs = g3_def g4_def v5_def g5_def v6_def g6_def
  have e: "enumerates [u] {u}" by (simp add: enumerates_def)
  have "step E w Silent g g3" unfolding g3_def
    by (rule lone_engine_step [where ordF = "[u]"]) (simp_all add: assms e)
  moreover have "step E w Silent g3 g4" unfolding g4_def
    by (rule lone_engine_step [where ordF = "[u]"]) (simp_all add: assms e g3_def flush_then_def)
  moreover have "step E w (Offers u) g4 g5" unfolding g5_def
    by (rule lone_engine_step [where ordF = "[u]"]) (simp_all add: assms e g3_def g4_def v5_def)
  moreover have "step E w Silent g5 g6" unfolding g6_def
    by (rule lone_engine_step [where ordF = "[u]"]) (simp_all add: assms e g3_def g4_def v5_def g5_def v6_def)
  moreover have "go_engine g6 = Live" "go_buffer g6 = []" by (simp_all add: gs assms(2))
  ultimately show ?thesis using run_then [OF _ run_then [OF _ run_then [OF _ run_one]]] by blast
qed

theorem changed_position_is_offered_witness:
  "\<exists>g1 g2 g es. go_dirty g1 = {} \<and> step UNIV toy_wiring (Marks ''u'') g1 g2 \<and> run UNIV toy_wiring g2 es g \<and>
     known_of (go_store g1) ''u'' = (\<lambda>_. (0, 0, False), None) \<and> known_of (go_store g2) ''u'' = (\<lambda>_. (0, 0, False), Some 1) \<and>
     (\<exists>u es3 es4. ToLower u = ''u'' \<and> es = es3 @ Offers u # es4)"
proof -
  let ?w = toy_wiring
  define g1 where "g1 = (toy_system NewStateStore [])\<lparr>go_engine := LiveLog (PutUserMode ''u'' 1) toy_supply\<rparr>"
  define v2 where "v2 = mark_dirty ''u'' (lv_section (SetUserEMode ''u'' 1) (go_view g1))"
  define g2 where "g2 = with_view v2 (g1\<lparr>go_engine := LiveLog LogDone toy_supply, go_cursor := go_cursor g1\<rparr>)"
  have l: "ToLower ''u'' = ''u''" by code_simp
  have d1: "go_dirty g1 = {}" "assetSubscribers (go_store g1) = Map.empty" "go_store g1 = NewStateStore"
    by (simp_all add: g1_def) (simp add: NewStateStore_def)
  have s1: "step UNIV ?w (Marks ''u'') g1 g2" unfolding g2_def
    by (rule lone_engine_step [where ordF = "[]"]) (use d1 in \<open>simp_all add: g1_def v2_def enumerates_def\<close>)
  have d2: "go_dirty g2 = {''u''}" "go_buffer g2 = []" "go_engine g2 = LiveLog LogDone toy_supply"
    "go_workers g2 = go_workers g1" "go_store g2 = SetUserEMode ''u'' 1 NewStateStore"
    by (simp_all add: g2_def v2_def g1_def mark_dirty_def lv_section_def)
  have "assetSubscribers (go_store g2) = Map.empty"
    by (simp add: d2 SetUserEMode_def ensure_position_def NewStateStore_def Let_def)
  from lone_engine_steps [OF this d2(2,1,3)] obtain g where
    g: "run UNIV ?w g2 [Silent, Silent, Offers ''u'', Silent] g" "go_engine g = Live" "go_buffer g = []" by blast
  have k1: "known_of (go_store g1) ''u'' = (\<lambda>_. (0, 0, False), None)"
    by (simp add: d1 known_of_def ledger_row_def ledger_of_def reserve_at_def NewStateStore_def fun_eq_iff)
  have k2: "known_of (go_store g2) ''u'' = (\<lambda>_. (0, 0, False), Some 1)"
    using k1 by (simp add: d1 d2 known_of_def l ledger_row_def fun_eq_iff)
  have "known_of (go_store g2) ''u'' \<noteq> known_of (go_store g1) ''u''" using k1 k2 by simp
  from changed_position_is_offered [OF run_stop d1(1) s1 g(1) d2(4) this g(2,3)]
  show ?thesis using d1(1) s1 g(1) k1 k2 by blast
qed

end
