(* ===== verification/Undisturbed.thy ===== *)
theory Undisturbed
  imports TouchedUsers
begin

text \<open>
  What the store knows of a user while every goroutine runs. The log engine works in sections and others come in
  between, so the store is at most times in the middle of a log. What is left to do is read off the program
  counter of the engine (\<open>pending\<close>), and the steps of all other goroutines leave it as it is, unless a worker
  replaces the position of the user. So an undisturbed user has, whenever the engine rests, the snapshot's
  balances with every log applied to them in order.
\<close>

section \<open>What is known of a user, and what a log in progress still does\<close>

type_synonym user_facts = "(string \<Rightarrow> user_reserve) \<times> u8 option \<times> (string \<rightharpoonup> global_index)"

definition row_of :: "state_store \<Rightarrow> string \<Rightarrow> string \<Rightarrow> user_reserve" where
  "row_of s x a = (case reserve_at s x a of None \<Rightarrow> zero_reserve a | Some r \<Rightarrow> r)"

definition facts :: "state_store \<Rightarrow> string \<Rightarrow> user_facts" where
  "facts s x = (row_of s x, lg_emode (ledger_of s) x, globalIndices s)"

definition changed :: "string \<Rightarrow> string \<Rightarrow> (string \<times> change) list \<Rightarrow> (string \<Rightarrow> user_reserve) \<Rightarrow> string \<Rightarrow> user_reserve" where
  "changed x u cs R = (if ToLower u = x then fold (\<lambda>(a, f) R. R(ToLower a := f (R (ToLower a)))) cs R else R)"

text \<open>The effect on the facts about \<open>x\<close> of the sections that are still to come.\<close>

fun pending :: "string \<Rightarrow> log_pc \<Rightarrow> user_facts \<Rightarrow> user_facts" where
  "pending x (PutIndex a i) (R, M, I) = (R, M, I(ToLower a \<mapsto> i))"
| "pending x (PutUserMode u c) (R, M, I) = (R, if ToLower u = x then Some c else M, I)"
| "pending x (ReadIndex sel a u f) (R, M, I) = (case I (ToLower a) of None \<Rightarrow> (R, M, I)
     | Some i \<Rightarrow> if sel i = 0 then (R, M, I) else (changed x u [(a, f (sel i))] R, M, I))"
| "pending x (ReadDebtIndex d c u p q) (R, M, I) = (case (I (ToLower d), I (ToLower c)) of
       (Some di, Some ci) \<Rightarrow> (changed x u [(d, sub_debt p (VariableBorrowIndex di)), (c, sub_balance q (LiquidityIndex ci))] R, M, I)
     | _ \<Rightarrow> (R, M, I))"
| "pending x (ReadCollateralIndex debtIdx d c u p q) (R, M, I) = (case (debtIdx, I (ToLower c)) of
       (Some di, Some ci) \<Rightarrow> (changed x u [(d, sub_debt p (VariableBorrowIndex di)), (c, sub_balance q (LiquidityIndex ci))] R, M, I)
     | _ \<Rightarrow> (R, M, I))"
| "pending x (Acquire u got rest) (R, M, I) = (changed x u (map snd got @ rest) R, M, I)"
| "pending x (WriteReserves u got) (R, M, I) = (changed x u (map snd got) R, M, I)"
| "pending x pc F = F"

text \<open>The pointers a log holds to reserves of \<open>x\<close> are those of the current position.\<close>

definition ptrs_ok :: "string \<Rightarrow> string \<Rightarrow> (nat \<times> string \<times> change) list \<Rightarrow> memory \<Rightarrow> bool" where
  "ptrs_ok x u got m \<longleftrightarrow> (ToLower u = x \<longrightarrow>
     (\<forall>(v, a, f) \<in> set got. v = mm_version m x \<and> reserve_at (mm_store m) x (ToLower a) \<noteq> None))"

fun valid_ptrs :: "string \<Rightarrow> log_pc \<Rightarrow> memory \<Rightarrow> bool" where
  "valid_ptrs x (Acquire u got rest) m \<longleftrightarrow> ptrs_ok x u got m"
| "valid_ptrs x (WriteReserves u got) m \<longleftrightarrow> ptrs_ok x u got m"
| "valid_ptrs x pc m \<longleftrightarrow> True"

lemma row_frames [simp]:
  "row_of (GetUserReserve u a s) x = row_of s x" "row_of (SetGlobalIndex a i s) x = row_of s x"
  "row_of (SetUserEMode u c s) x = row_of s x" "row_of (SetCurrentBlock b s) x = row_of s x"
  by (auto simp: row_of_def fun_eq_iff store_simps zero_reserve_def split: option.splits)

lemma other_frames [simp]:
  "globalIndices (GetUserReserve u a s) = globalIndices s" "globalIndices (SetUserEMode u c s) = globalIndices s"
  "globalIndices (SetGlobalIndex a i s) = (globalIndices s)(ToLower a \<mapsto> i)"
  "globalIndices (SetCurrentBlock b s) = globalIndices s"
  by (simp_all add: index_frame SetGlobalIndex_def SetCurrentBlock_def)

lemma facts_sections [simp]: "facts (GetUserReserve u a s) x = facts s x" "facts (SetCurrentBlock b s) x = facts s x"
  by (simp_all add: facts_def)

lemma write_facts:
  assumes "v = mm_version m (ToLower u)" and "reserve_at (mm_store m) (ToLower u) (ToLower a) \<noteq> None"
  shows "facts (mm_store (write_reserve (ToLower u) v (ToLower a) f m)) (ToLower u) =
    ((row_of (mm_store m) (ToLower u))(ToLower a := f (row_of (mm_store m) (ToLower u) (ToLower a))),
      lg_emode (ledger_of (mm_store m)) (ToLower u), globalIndices (mm_store m))"
  using assms by (auto simp: facts_def row_of_def fun_eq_iff store_simps emode_frame index_frame write_store split: option.splits)

lemma write_facts_other:
  assumes "ToLower u \<noteq> x"
  shows "facts (mm_store (write_reserve (ToLower u) v a f m)) x = facts (mm_store m) x"
  using assms by (auto simp: facts_def row_of_def fun_eq_iff store_simps emode_frame index_frame write_store)

lemma write_keeps_reserves:
  "reserve_at (mm_store m) x b \<noteq> None \<Longrightarrow> reserve_at (mm_store (write_reserve u v a f m)) x b \<noteq> None"
  by (auto simp: write_store store_simps)

lemma write_all_facts:
  "ptrs_ok x u got m \<Longrightarrow> facts (mm_store (write_all u got m)) x =
     (case facts (mm_store m) x of (R, M, I) \<Rightarrow> (changed x u (map snd got) R, M, I))"
proof (induction got arbitrary: m)
  case Nil
  then show ?case by (simp add: write_all_def changed_def split: prod.split)
next
  case (Cons h got)
  obtain v a f where h: "h = (v, a, f)" by (cases h)
  let ?m = "write_reserve (ToLower u) v (ToLower a) f m"
  have p: "ptrs_ok x u got ?m"
    using Cons.prems write_keeps_reserves by (fastforce simp: ptrs_ok_def)
  have w: "write_all u (h # got) m = write_all u got ?m" by (simp add: write_all_def h)
  show ?case
  proof (cases "ToLower u = x")
    case True
    then have "v = mm_version m (ToLower u)" "reserve_at (mm_store m) (ToLower u) (ToLower a) \<noteq> None"
      using Cons.prems by (auto simp: ptrs_ok_def h)
    from write_facts [OF this, of f] show ?thesis
      using True unfolding w Cons.IH [OF p] by (auto simp: facts_def changed_def h)
  next
    case False
    then show ?thesis unfolding w Cons.IH [OF p] write_facts_other [OF False] by (simp add: changed_def split: prod.split)
  qed
qed

text \<open>A section of the log engine turns what is pending into fact.\<close>

lemma mark_dirty_facts [simp]: "facts (lv_store (mark_dirty u v)) x = facts (lv_store v) x"
  by simp

lemma get_creates: "reserve_at (GetUserReserve u a s) (ToLower u) (ToLower a) \<noteq> None"
  by (simp add: store_simps)

lemma get_keeps: "reserve_at s x b \<noteq> None \<Longrightarrow> reserve_at (GetUserReserve u a s) x b \<noteq> None"
  by (auto simp: store_simps)

lemma ptrs_acquired:
  assumes "ptrs_ok x u got m"
  shows "ptrs_ok x u (got @ [(mm_version m (ToLower u), a, f)]) (in_section (GetUserReserve u a) m)"
  using assms get_creates get_keeps by (fastforce simp: ptrs_ok_def)

lemma log_pending:
  assumes "log_section ord pc v = (pc', v')" and "valid_ptrs x pc (lv_memory v)"
  shows "pending x pc' (facts (lv_store v') x) = pending x pc (facts (lv_store v) x) \<and> valid_ptrs x pc' (lv_memory v') \<and>
    mm_version (lv_memory v') = mm_version (lv_memory v)"
proof (cases "(ord, pc, v)" rule: log_section.cases)
  case (11 ord u got a f rest v)
  then show ?thesis using assms ptrs_acquired [of x u got "lv_memory v" a f]
    by (cases "facts (lv_store v) x") (auto simp: Let_def)
next
  case (12 ord u got v)
  have "mm_version (write_all u got m) = mm_version m" for m
    by (induction got arbitrary: m) (auto simp: write_all_def)
  then show ?thesis using 12 assms write_all_facts [of x u got "lv_memory v"] by (auto split: prod.split)
qed (use assms in \<open>auto simp: facts_def GetGlobalIndex_def ptrs_ok_def split: option.splits if_splits\<close>)

section \<open>What the logs make of a user\<close>

definition logs_on :: "keccak \<Rightarrow> rpc_log list \<Rightarrow> ledger \<Rightarrow> ledger" where
  "logs_on kc = fold (\<lambda>l. maybe_apply (event_of kc l))"

text \<open>The E-Mode counts only if \<open>b\<close>: one that is not known yet may be stored by a worker at any time.\<close>

type_synonym user_view = "(string \<Rightarrow> int \<times> int \<times> bool) \<times> u8 option \<times> (string \<rightharpoonup> global_index)"

definition view :: "bool \<Rightarrow> string \<Rightarrow> ledger \<Rightarrow> user_view" where
  "view b x L = (ledger_row L x, if b then lg_emode L x else None, lg_index L)"

definition shown :: "bool \<Rightarrow> user_facts \<Rightarrow> user_view" where
  "shown b F = (case F of (R, M, I) \<Rightarrow>
     (\<lambda>a. (ScaledATokenBalance (R a), ScaledVariableDebt (R a), UsageAsCollateralEnabledOnUser (R a)), if b then M else None, I))"

lemma shown_facts: "shown b (facts s x) = view b x (ledger_of s)"
  by (auto simp: shown_def facts_def view_def ledger_row_def ledger_of_def row_of_def zero_reserve_def fun_eq_iff split: option.split)

lemma view_eq:
  "view b x L = view b x M \<longleftrightarrow> lg_supplied L x = lg_supplied M x \<and> lg_debt L x = lg_debt M x \<and>
     lg_collateral L x = lg_collateral M x \<and> (b \<longrightarrow> lg_emode L x = lg_emode M x) \<and> lg_index L = lg_index M"
  by (auto simp: view_def ledger_row_def fun_eq_iff)

lemma view_event:
  assumes "view b x L = view b x M"
  shows "view b x (apply_event e L) = view b x (apply_event e M)"
proof -
  have e: "at_entry u a f m x = (if u = x then (m x)(a := f (m x a)) else m x)" for u a and f :: "'z \<Rightarrow> 'z" and m
    by (simp add: at_entry_def)
  show ?thesis
    using assms unfolding view_eq
    by (cases e) (simp_all add: apply_event_def with_index_def e split: option.split)
qed

lemma view_maybe:
  assumes "view b x L = view b x M"
  shows "view b x (maybe_apply e L) = view b x (maybe_apply e M)"
  by (cases e) (simp_all add: assms view_event [OF assms])

lemma logs_on_snoc [simp]: "logs_on kc (ls @ [l]) L = maybe_apply (event_of kc l) (logs_on kc ls L)" "logs_on kc [] L = L"
  by (simp_all add: logs_on_def)

lemma pending_mode:
  "(b \<Longrightarrow> M = M') \<Longrightarrow> shown b (pending x pc (R, M, I)) = shown b (pending x pc (R, M', I))"
  by (cases pc) (auto simp: shown_def split: option.split)

lemma begin_valid [simp]: "valid_ptrs x (begin_log kc l) m"
  by (simp add: begin_log_def begin_index_def begin_supply_def begin_withdraw_def begin_borrow_def begin_repay_def
      begin_liquidation_def begin_collateral_def begin_emode_def ptrs_ok_def Let_def)

text \<open>At its beginning a log has pending what it means.\<close>

lemma begin_pending: "shown b (pending x (begin_log kc l) (facts s x)) = view b x (maybe_apply (event_of kc l) (ledger_of s))"
proof -
  let ?c = "\<lparr>cu_tx = [], cu_block = 0, cu_index = 0\<rparr>" and ?v = "\<lparr>lv_memory = memory_of s, lv_queue = [], lv_dirty = {}\<rparr>"
  obtain n v' where n: "run_log n (\<lambda>_. []) (begin_log kc l) ?v = (LogDone, v')"
    and r: "replay_of ?c v' = processLog kc (\<lambda>_. []) l (replay_of ?c ?v)" using begin_log_runs by blast
  have run: "pending x pc' (facts (lv_store v') x) = pending x pc (facts (lv_store v) x)"
    if "run_log n ord pc v = (pc', v')" "valid_ptrs x pc (lv_memory v)" for n ord pc v pc' v'
    using that
  proof (induction n arbitrary: pc v)
    case (Suc n)
    obtain pc1 v1 where s: "log_section ord pc v = (pc1, v1)" by fastforce
    from log_pending [OF s Suc.prems(2)] Suc.IH [of pc1 v1] Suc.prems(1) s show ?case by simp
  qed simp
  have "pending x (begin_log kc l) (facts s x) = facts (lv_store v') x" using run [OF n] by simp
  moreover have "ledger_of (lv_store v') = maybe_apply (event_of kc l) (ledger_of s)"
    using processLog_ledger [of kc "\<lambda>_. []" l "replay_of ?c ?v"] unfolding r [symmetric] by (simp add: replay_of_def)
  ultimately show ?thesis by (simp add: shown_facts)
qed

section \<open>The logs the stream still takes\<close>

definition old_at :: "u64 \<times> u64 \<Rightarrow> rpc_log \<Rightarrow> bool" where
  "old_at p l \<longleftrightarrow> log_block l < fst p \<or> log_block l = fst p \<and> log_idx l \<le> snd p"

fun accepted :: "u64 \<times> u64 \<Rightarrow> rpc_log list \<Rightarrow> rpc_log list" where
  "accepted p [] = []"
| "accepted p (l # ls) = (if old_at p l then accepted p ls else l # accepted (log_block l, log_idx l) ls)"

definition place_after :: "u64 \<times> u64 \<Rightarrow> rpc_log list \<Rightarrow> u64 \<times> u64" where
  "place_after p ls = (if ls = [] then p else (log_block (last ls), log_idx (last ls)))"

text \<open>Where the engine stands after a history \<open>ls\<close> that was read up to block \<open>bWs\<close>.\<close>

definition handed_over :: "u64 \<Rightarrow> rpc_log list \<Rightarrow> u64 \<times> u64" where
  "handed_over bWs ls = (let p = place_after (0, 0) ls in if fst p < bWs then (bWs, 0) else p)"

definition place :: "cursor \<Rightarrow> u64 \<times> u64" where
  "place c = (cu_block c, cu_index c)"

lemma place_after_simps [simp]: "place_after p [] = p" "place_after p (ls @ [l]) = (log_block l, log_idx l)"
  by (simp_all add: place_after_def)

lemma place_after_Cons: "place_after p (l # ls) = place_after (log_block l, log_idx l) ls"
  by (simp add: place_after_def)

lemma accepted_snoc:
  "accepted p (ls @ [l]) = accepted p ls @ (if old_at (place_after p (accepted p ls)) l then [] else [l])"
  by (induction ls arbitrary: p) (simp_all add: place_after_Cons)

lemma place_simps [simp]: "place (c\<lparr>cu_tx := t\<rparr>) = place c" "place (c\<lparr>cu_block := b, cu_index := i\<rparr>) = (b, i)"
  by (simp_all add: place_def)

section \<open>The engine's account of a user\<close>

text \<open>
  \<open>L\<close> is the ledger of the start, \<open>hist\<close> the history up to \<open>bWs\<close>, \<open>rs\<close> the logs received from the stream since.
\<close>

definition caught_up :: "keccak \<Rightarrow> bool \<Rightarrow> string \<Rightarrow> ledger \<Rightarrow> rpc_log list \<Rightarrow> u64 \<Rightarrow> rpc_log list \<Rightarrow> cursor \<Rightarrow> user_facts \<Rightarrow> bool" where
  "caught_up kc b x L hist bWs rs c F \<longleftrightarrow>
     place c = place_after (handed_over bWs hist) (accepted (handed_over bWs hist) rs) \<and>
     shown b F = view b x (logs_on kc (hist @ accepted (handed_over bWs hist) rs) L)"

fun stands ::
    "keccak \<Rightarrow> bool \<Rightarrow> string \<Rightarrow> ledger \<Rightarrow> rpc_log list \<Rightarrow> u64 \<Rightarrow> rpc_log list \<Rightarrow> cursor \<Rightarrow> user_facts \<Rightarrow> engine_pc \<Rightarrow> bool" where
  "stands kc b x L hist bWs rs c F (Historic ls bW) \<longleftrightarrow> bW = bWs \<and> rs = [] \<and>
     (\<exists>ds. hist = ds @ ls \<and> place c = place_after (0, 0) ds \<and> shown b F = view b x (logs_on kc ds L))"
| "stands kc b x L hist bWs rs c F (HistoricLog pc l ls bW) \<longleftrightarrow> bW = bWs \<and> rs = [] \<and>
     (\<exists>ds. hist = ds @ l # ls \<and> shown b (pending x pc F) = view b x (logs_on kc (ds @ [l]) L))"
| "stands kc b x L hist bWs rs c F (HandOver bW) \<longleftrightarrow> bW = bWs \<and> rs = [] \<and>
     place c = place_after (0, 0) hist \<and> shown b F = view b x (logs_on kc hist L)"
| "stands kc b x L hist bWs rs c F Live \<longleftrightarrow> caught_up kc b x L hist bWs rs c F"
| "stands kc b x L hist bWs rs c F LogEnd \<longleftrightarrow> caught_up kc b x L hist bWs rs c F"
| "stands kc b x L hist bWs rs c F (Received l) \<longleftrightarrow> (\<exists>qs. rs = qs @ [l] \<and> caught_up kc b x L hist bWs qs c F)"
| "stands kc b x L hist bWs rs c F (Check l) \<longleftrightarrow> (\<exists>qs. rs = qs @ [l] \<and> caught_up kc b x L hist bWs qs c F)"
| "stands kc b x L hist bWs rs c F (LiveLog pc l) \<longleftrightarrow>
     (\<exists>as. accepted (handed_over bWs hist) rs = as @ [l] \<and> shown b (pending x pc F) = view b x (logs_on kc (hist @ as @ [l]) L))"
| "stands kc b x L hist bWs rs c F (Flushing us k) \<longleftrightarrow> stands kc b x L hist bWs rs c F k"
| "stands kc b x L hist bWs rs c F Ended \<longleftrightarrow> True"
| "stands kc b x L hist bWs rs c F pc \<longleftrightarrow> rs = [] \<and> place c = (0, 0) \<and> shown b F = view b x L"

fun engine_ptrs :: "string \<Rightarrow> engine_pc \<Rightarrow> memory \<Rightarrow> bool" where
  "engine_ptrs x (HistoricLog pc l ls b) m \<longleftrightarrow> valid_ptrs x pc m"
| "engine_ptrs x (LiveLog pc l) m \<longleftrightarrow> valid_ptrs x pc m"
| "engine_ptrs x (Flushing us k) m \<longleftrightarrow> engine_ptrs x k m"
| "engine_ptrs x pc m \<longleftrightarrow> True"

lemma begun:
  "shown b (facts s x) = view b x L \<Longrightarrow> shown b (pending x (begin_log kc l) (facts s x)) = view b x (maybe_apply (event_of kc l) L)"
  unfolding begin_pending shown_facts by (rule view_maybe)

lemma engine_stands:
  assumes "engine_section kc ordF ord be pc c v = (pc', c', v')"
    and "stands kc b x L hist bWs rs c (facts (lv_store v) x) pc" and "engine_ptrs x pc (lv_memory v)"
  shows "stands kc b x L hist bWs rs c' (facts (lv_store v') x) pc' \<and> engine_ptrs x pc' (lv_memory v') \<and>
    mm_version (lv_memory v') = mm_version (lv_memory v)"
proof (cases "(kc, ordF, ord, be, pc, c, v)" rule: engine_section.cases)
  case (2 _ _ _ _ l ls bW _ _)
  then show ?thesis using assms begun by (auto simp: flush_then_def split: if_splits)
next
  case (3 _ _ _ _ lp l ls bW _ _)
  show ?thesis
  proof (cases "lp = LogDone")
    case True
    then show ?thesis using 3 assms by (auto intro: exI [where x = "_ @ [l]"])
  next
    case False
    obtain lp' v1 where s: "log_section ord lp v = (lp', v1)" by fastforce
    then show ?thesis using 3 assms False log_pending [OF s, of x] by auto
  qed
next
  case (6 _ _ _ _ l _ _)
  then have pc: "pc = Check l" by simp
  then have e: "(if cursor_duplicate c (log_block l) (log_idx l) then LogEnd else LiveLog (begin_log kc l) l) = pc'" "c' = c" "v' = v"
    using assms(1) by auto
  let ?h = "handed_over bWs hist"
  have d: "cursor_duplicate c (log_block l) (log_idx l) \<longleftrightarrow> old_at (place c) l"
    by (simp add: cursor_duplicate_def old_at_def place_def)
  obtain qs where qs: "rs = qs @ [l]" "place c = place_after ?h (accepted ?h qs)"
    "shown b (facts (lv_store v) x) = view b x (logs_on kc (hist @ accepted ?h qs) L)"
    using assms(2) unfolding pc by (auto simp: caught_up_def)
  show ?thesis
  proof (cases "old_at (place c) l")
    case True
    then have "accepted ?h rs = accepted ?h qs" by (simp add: qs(1,2) accepted_snoc)
    moreover have "pc' = LogEnd" using e(1) True d by simp
    ultimately show ?thesis using qs(2,3) e(2,3) by (simp add: caught_up_def)
  next
    case False
    then have a: "accepted ?h rs = accepted ?h qs @ [l]" by (simp add: qs(1,2) accepted_snoc)
    have "hist @ accepted ?h qs @ [l] = (hist @ accepted ?h qs) @ [l]" by simp
    then have "shown b (pending x (begin_log kc l) (facts (lv_store v) x)) =
        view b x (logs_on kc (hist @ accepted ?h qs @ [l]) L)"
      using begun [OF qs(3)] by (simp only: logs_on_snoc)
    moreover have "pc' = LiveLog (begin_log kc l) l" using e(1) False d by simp
    ultimately show ?thesis using a e(2,3) by simp
  qed
next
  case (7 _ _ _ _ lp l _ _)
  show ?thesis
  proof (cases "lp = LogDone")
    case True
    then show ?thesis using 7 assms by (auto simp: caught_up_def)
  next
    case False
    obtain lp' v1 where s: "log_section ord lp v = (lp', v1)" by fastforce
    then show ?thesis using 7 assms False log_pending [OF s, of x] by auto
  qed
next
  case (4 _ _ _ _ bW _ _)
  then have pc: "pc = HandOver bW" by simp
  then have e: "pc' = Live" "c' = (if cu_block c < bW then c\<lparr>cu_block := bW, cu_index := 0\<rparr> else c)" "v' = v"
    using assms(1) by auto
  have s: "bW = bWs" "rs = []" "place c = place_after (0, 0) hist" "shown b (facts (lv_store v) x) = view b x (logs_on kc hist L)"
    using assms(2) unfolding pc by simp_all
  have "place c' = handed_over bWs hist"
    unfolding handed_over_def Let_def s(3) [symmetric] e(2) s(1) by (simp add: place_def)
  then show ?thesis using e s by (simp add: caught_up_def)
qed (use assms in \<open>auto simp: flush_then_def caught_up_def split: if_splits\<close>)

section \<open>The other goroutines\<close>

text \<open>What they may change without an effect on the account of \<open>x\<close>.\<close>

definition same_user :: "bool \<Rightarrow> string \<Rightarrow> memory \<Rightarrow> memory \<Rightarrow> bool" where
  "same_user b x m m' \<longleftrightarrow> (\<forall>a. reserve_at (mm_store m') x a = reserve_at (mm_store m) x a) \<and>
     (b \<longrightarrow> lg_emode (ledger_of (mm_store m')) x = lg_emode (ledger_of (mm_store m)) x) \<and>
     globalIndices (mm_store m') = globalIndices (mm_store m) \<and> mm_version m' x = mm_version m x"

lemma same_user_refl [simp]: "same_user b x m m"
  by (simp add: same_user_def)

lemma same_user_ptrs: "same_user b x m m' \<Longrightarrow> engine_ptrs x pc m \<Longrightarrow> engine_ptrs x pc m'"
proof (induction pc)
  case (HistoricLog lp l ls bW)
  then show ?case by (cases lp) (auto simp: same_user_def ptrs_ok_def)
next
  case (LiveLog lp l)
  then show ?case by (cases lp) (auto simp: same_user_def ptrs_ok_def)
qed simp_all

lemma same_user_shown:
  assumes "same_user b x m m'"
  shows "shown b (pending x lp (facts (mm_store m') x)) = shown b (pending x lp (facts (mm_store m) x))"
proof -
  have r: "row_of (mm_store m') x = row_of (mm_store m) x" "globalIndices (mm_store m') = globalIndices (mm_store m)"
    using assms by (auto simp: same_user_def row_of_def)
  show ?thesis unfolding facts_def r using assms by (intro pending_mode) (simp add: same_user_def)
qed

lemma same_user_stands:
  assumes "same_user b x m m'"
  shows "stands kc b x L hist bWs rs c (facts (mm_store m') x) pc = stands kc b x L hist bWs rs c (facts (mm_store m) x) pc"
  using same_user_shown [OF assms, of LogDone] same_user_shown [OF assms]
  by (induction pc) (simp_all add: caught_up_def)

text \<open>Workers that may store an E-Mode for \<open>x\<close>: they saw the position before its E-Mode was known.\<close>

fun asks_mode :: "string \<Rightarrow> worker_pc \<Rightarrow> bool" where
  "asks_mode x (Copy rd u v f c) \<longleftrightarrow> u = x \<and> rd = First \<and> \<not> f"
| "asks_mode x (Height rd u v v' f c) \<longleftrightarrow> u = x \<and> rd = First \<and> \<not> f"
| "asks_mode x (Total rd u v v' f c b) \<longleftrightarrow> u = x \<and> rd = First \<and> \<not> f"
| "asks_mode x (AskMode u v) \<longleftrightarrow> u = x"
| "asks_mode x (LookCategory u v c) \<longleftrightarrow> u = x"
| "asks_mode x (AskCategory u v c) \<longleftrightarrow> u = x"
| "asks_mode x (PutCategory u v c cat) \<longleftrightarrow> u = x"
| "asks_mode x (PutMode u v c) \<longleftrightarrow> u = x"
| "asks_mode x pc \<longleftrightarrow> False"

abbreviation fetched :: "string \<Rightarrow> memory \<Rightarrow> bool" where
  "fetched x m \<equiv> lg_emode (ledger_of (mm_store m)) x \<noteq> None"

lemma fetched_position_of: "fetched x m \<Longrightarrow> userPositions (mm_store m) x = Some p \<Longrightarrow> EModeFetched p"
  by (auto simp: ledger_of_def split: if_splits)

lemma same_user_positions:
  "userPositions (mm_store m') x = userPositions (mm_store m) x \<Longrightarrow> globalIndices (mm_store m') = globalIndices (mm_store m) \<Longrightarrow>
   mm_version m' x = mm_version m x \<Longrightarrow> same_user b x m m'"
  by (simp add: same_user_def reserve_at_def ledger_of_def)

lemma updateHeap_indices: "updateHeap u hf s = Inr t \<Longrightarrow> globalIndices t = globalIndices s"
  by (auto simp: updateHeap_def drop_user_def track_user_def put_heap_def bind_outcome_Inr_iff Let_def
      split: option.splits if_splits prod.splits)

lemma mode_write_same:
  assumes "b \<Longrightarrow> u \<noteq> x"
  shows "same_user b x m (write_emode u v c m)"
proof (cases "u = x")
  case False
  then show ?thesis by (intro same_user_positions) (auto simp: write_store set_position_emode_def put_position_def split: option.split)
next
  case True
  then have "\<not> b" using assms by blast
  then show ?thesis
    by (auto simp: same_user_def write_store set_position_emode_def put_position_def reserve_at_def split: option.split)
qed

lemma worker_version:
  assumes "worker_section ords env txenv ex now pc m r = Inr (pc', m', sent, r')"
  shows "mm_version m x \<le> mm_version m' x"
  using assms by (cases pc) (auto simp: goto_def bind_outcome_Inr_iff split: option.splits prod.splits if_splits)

lemma worker_same:
  assumes "worker_section ords env txenv ex now pc m r = Inr (pc', m', sent, r')"
    and "mm_version m' x = mm_version m x" and "b \<Longrightarrow> \<not> asks_mode x pc"
  shows "same_user b x m m'"
proof (cases pc)
  case (PutMode u v c)
  then show ?thesis using assms mode_write_same [of b u x m v c] by (auto simp: goto_def)
next
  case (Replace u acct pos)
  then show ?thesis using assms by (intro same_user_positions) (auto simp: goto_def put_position_def split: if_splits)
next
  case (File u hf)
  then show ?thesis using assms updateHeap_positions updateHeap_indices
    by (intro same_user_positions) (auto simp: goto_def bind_outcome_Inr_iff)
next
  case (Send u acct rec)
  then show ?thesis using assms by (auto split: prod.splits)
next
  case (Cool u acct t)
  then show ?thesis using assms by (intro same_user_positions) (auto simp: goto_def set_next_check_def put_heap_def Let_def split: option.splits)
next
  case (PutCategory u v c cat)
  then show ?thesis using assms by (intro same_user_positions) (auto simp: goto_def put_category_def)
qed (use assms in \<open>auto simp: goto_def bind_outcome_Inr_iff\<close>)

lemma worker_asks:
  assumes "worker_section ords env txenv ex now pc m r = Inr (pc', m', sent, r')" and "asks_mode x pc'" and "fetched x m"
  shows "asks_mode x pc"
proof (cases pc)
  case (Look u)
  show ?thesis
  proof (cases "userPositions (mm_store m) u")
    case (Some p)
    then show ?thesis using assms Look fetched_position_of [OF assms(3), of p] by (auto simp: goto_def)
  qed (use assms Look in \<open>auto simp: goto_def\<close>)
next
  case (Total rd u v v' f c b)
  let ?x = "case position_at m u v' of None \<Rightarrow> None
    | Some user \<Rightarrow> hf_of_position (ords (if rd = First then 0 else 1)) (mm_store m) user f c b"
  have "pc' = after_sum rd u v f ?x" using goto_pc [OF assms(1) [unfolded Total worker_section.simps]] .
  then have "asks_mode x (after_sum rd u v f ?x)" using assms(2) by simp
  then show ?thesis using Total by (auto simp: after_sum_def judge_def split: option.splits if_splits)
next
  case (Copy rd u v f c)
  then show ?thesis using assms(2) goto_pc [OF assms(1) [unfolded Copy worker_section.simps]] by (simp split: option.splits)
next
  case (AskMode u v)
  obtain a where a: "pc' = (case a of None \<Rightarrow> File u None | Some catId \<Rightarrow> if catId > 0 then LookCategory u v catId else PutMode u v catId)"
    using bind_goto_pc [OF assms(1) [unfolded AskMode worker_section.simps]] by blast
  from assms(2) show ?thesis unfolding a AskMode by (simp split: option.splits if_splits)
next
  case (AskCategory u v c)
  obtain a where a: "pc' = (case a of None \<Rightarrow> File u None | Some catConfig \<Rightarrow> PutCategory u v c catConfig)"
    using bind_goto_pc [OF assms(1) [unfolded AskCategory worker_section.simps]] by blast
  from assms(2) show ?thesis unfolding a AskCategory by (simp split: option.splits)
next
  case (AskPosition u snap s)
  obtain a where a: "pc' = (case a of None \<Rightarrow> Idle | Some (acct, pos) \<Rightarrow> Replace u acct pos)"
    using bind_goto_pc [OF assms(1) [unfolded AskPosition worker_section.simps]] by blast
  from assms(2) show ?thesis unfolding a by (simp split: option.splits prod.splits)
next
  case (Search u acct v)
  obtain a where a: "pc' = (case a of None \<Rightarrow> Cool u acct noProfitCooldown
      | Some rec \<Rightarrow> if ExpectedProfitUSD rec > 0 then Send u acct rec else Cool u acct noProfitCooldown)"
    using bind_goto_pc [OF assms(1) [unfolded Search worker_section.simps]] by blast
  from assms(2) show ?thesis unfolding a by (simp split: option.splits if_splits)
next
  case (File u hf)
  then show ?thesis using assms(1,2) by (auto simp: goto_def bind_outcome_Inr_iff)
next
  case (Send u acct rec)
  then show ?thesis using assms(1,2) by (auto split: prod.splits option.splits)
qed (use assms(1,2) in \<open>auto simp: goto_def split: if_splits\<close>)

section \<open>The account in every run\<close>

definition undisturbed ::
    "keccak \<Rightarrow> bool \<Rightarrow> string \<Rightarrow> ledger \<Rightarrow> rpc_log list \<Rightarrow> u64 \<Rightarrow> rpc_log list \<Rightarrow> system \<Rightarrow> bool" where
  "undisturbed kc b x L hist bWs rs g \<longleftrightarrow>
     stands kc b x L hist bWs rs (go_cursor g) (facts (go_store g) x) (go_engine g) \<and>
     engine_ptrs x (go_engine g) (go_memory g) \<and>
     (b \<longrightarrow> fetched x (go_memory g) \<and> (\<forall>i < length (go_workers g). \<not> asks_mode x (go_workers g ! i)))"

text \<open>The engine has not asked for the history yet.\<close>

fun early :: "engine_pc \<Rightarrow> bool" where
  "early Waiting = True"
| "early Latest = True"
| "early (Syncing bWs) = True"
| "early Stopped = True"
| "early (Flushing us k) = early k"
| "early pc = False"

lemma engine_early: "engine_section kc ordF ord e pc c v = (pc', c', v') \<Longrightarrow> early pc' \<Longrightarrow> early pc"
  by (cases "(kc, ordF, ord, e, pc, c, v)" rule: engine_section.cases)
    (auto simp: flush_then_def split: if_splits prod.splits)

lemma step_early: "step E w e g g' \<Longrightarrow> early (go_engine g') \<Longrightarrow> early (go_engine g)"
  by (erule stepE) (auto dest: engine_early)

lemma feeder_same: "feeder_section ord pc m q = (pc', m', q') \<Longrightarrow> same_user b x m m'"
  by (cases "(ord, pc, m, q)" rule: feeder_section.cases)
    (auto intro!: same_user_positions simp: SetAssetPrice_def split: if_splits)

lemma log_version: "log_section ord pc v = (pc', v') \<Longrightarrow> mm_version (lv_memory v') = mm_version (lv_memory v)"
proof -
  have "mm_version (write_all u got m) = mm_version m" for u got m
    by (induction got arbitrary: m) (auto simp: write_all_def)
  then show "log_section ord pc v = (pc', v') \<Longrightarrow> mm_version (lv_memory v') = mm_version (lv_memory v)"
    by (cases "(ord, pc, v)" rule: log_section.cases) (auto simp: Let_def split: option.splits if_splits)
qed

lemma engine_version:
  "engine_section kc ordF ord e pc c v = (pc', c', v') \<Longrightarrow> mm_version (lv_memory v') = mm_version (lv_memory v)"
  by (cases "(kc, ordF, ord, e, pc, c, v)" rule: engine_section.cases)
    (auto dest: log_version split: if_splits prod.splits)

lemma version_step:
  assumes "step E w e g g'"
  shows "mm_version (go_memory g) x \<le> mm_version (go_memory g') x"
  using assms
proof (cases rule: step.cases)
  case (go_price ord pc m q)
  then show ?thesis using feeder_same [OF go_price(4), of True x] by (simp add: same_user_def)
next
  case (go_engine ordF ord pc c v)
  then show ?thesis using engine_version [OF go_engine(5)] by simp
qed (auto dest: worker_version)

lemma version_run: "run E w g es g' \<Longrightarrow> mm_version (go_memory g) x \<le> mm_version (go_memory g') x"
proof (induction rule: run.induct)
  case (run_more g es g1 e g2)
  from run_more.IH version_step [OF run_more.hyps(2)] show ?case by (rule order_trans)
qed simp

text \<open>The engine forgets no E-Mode.\<close>

lemma write_all_mode: "lg_emode (ledger_of (mm_store (write_all u got m))) = lg_emode (ledger_of (mm_store m))"
proof (induction got arbitrary: m)
  case (Cons h got)
  obtain v a f where h: "h = (v, a, f)" by (cases h)
  have "lg_emode (ledger_of (mm_store (write_reserve (ToLower u) v (ToLower a) f m))) = lg_emode (ledger_of (mm_store m))"
    by (simp add: write_store emode_frame)
  then show ?case using Cons by (simp add: write_all_def h)
qed (simp add: write_all_def)

lemma log_fetched: "log_section ord pc v = (pc', v') \<Longrightarrow> fetched x (lv_memory v) \<Longrightarrow> fetched x (lv_memory v')"
  by (cases "(ord, pc, v)" rule: log_section.cases)
    (auto simp: Let_def emode_frame write_all_mode split: option.splits if_splits)

lemma engine_fetched:
  "engine_section kc ordF ord e pc c v = (pc', c', v') \<Longrightarrow> fetched x (lv_memory v) \<Longrightarrow> fetched x (lv_memory v')"
  by (cases "(kc, ordF, ord, e, pc, c, v)" rule: engine_section.cases)
    (auto dest: log_fetched split: if_splits prod.splits)

text \<open>Every step but the start of the history keeps the account, as long as nobody replaces the position of \<open>x\<close>.\<close>

lemma same_user_keeps:
  assumes "undisturbed kc b x L hist bWs rs g" and "same_user b x (go_memory g) (go_memory g')"
    and "go_cursor g' = go_cursor g" and "go_engine g' = go_engine g"
    and "b \<Longrightarrow> \<forall>i < length (go_workers g'). \<not> asks_mode x (go_workers g' ! i)"
  shows "undisturbed kc b x L hist bWs rs g'"
  using assms same_user_ptrs [OF assms(2)] same_user_stands [OF assms(2)]
  by (auto simp: undisturbed_def same_user_def)

lemma undisturbed_step:
  assumes "step E w e g g'" and "undisturbed (w_keccak w) b x L hist bWs rs g"
    and "mm_version (go_memory g') x = mm_version (go_memory g) x" and "early (go_engine g) \<Longrightarrow> early (go_engine g')"
  shows "undisturbed (w_keccak w) b x L hist bWs (rs @ logs_received [e]) g'"
  using assms(1)
proof (cases rule: step.cases)
  case (go_take i u q)
  have "undisturbed (w_keccak w) b x L hist bWs rs g'"
    by (rule same_user_keeps [OF assms(2)]) (use go_take assms(2) in \<open>auto simp: undisturbed_def nth_list_update\<close>)
  then show ?thesis by (simp add: go_take(1))
next
  case (go_work i env ords now pc m sent r)
  have "same_user b x (go_memory g) m"
    by (rule worker_same [OF go_work(5)]) (use go_work(2,3) assms(2,3) in \<open>auto simp: undisturbed_def\<close>)
  moreover have "\<forall>j < length (go_workers g'). \<not> asks_mode x (go_workers g' ! j)" if b
    using worker_asks [OF go_work(5), of x] go_work(2,3) assms(2) that by (auto simp: undisturbed_def nth_list_update)
  ultimately have "undisturbed (w_keccak w) b x L hist bWs rs g'"
    using go_work(2) by (intro same_user_keeps [OF assms(2)]) simp_all
  then show ?thesis by (simp add: go_work(1))
next
  case (go_price ord pc m q)
  have "undisturbed (w_keccak w) b x L hist bWs rs g'"
    by (rule same_user_keeps [OF assms(2)])
      (use feeder_same [OF go_price(4)] go_price(2) assms(2) in \<open>simp_all add: undisturbed_def\<close>)
  then show ?thesis by (simp add: go_price(1))
next
  case (go_leave i)
  have "\<exists>k < length (go_workers g). go_workers g' ! j = go_workers g ! k" if "j < length (go_workers g')" for j
    using nth_without [of i "go_workers g" j] go_leave(2,4) that by simp
  then have "\<forall>j < length (go_workers g'). \<not> asks_mode x (go_workers g' ! j)" if b
    using assms(2) that by (fastforce simp: undisturbed_def)
  then have "undisturbed (w_keccak w) b x L hist bWs rs g'"
    using go_leave(2) by (intro same_user_keeps [OF assms(2)]) simp_all
  then show ?thesis by (simp add: go_leave(1))
next
  case (go_engine ordF ord pc c v)
  have "stands (w_keccak w) b x L hist bWs rs (go_cursor g) (facts (lv_store (go_view g)) x) (go_engine g)"
    "engine_ptrs x (go_engine g) (lv_memory (go_view g))" using assms(2) by (simp_all add: undisturbed_def)
  from engine_stands [OF go_engine(5) this] engine_fetched [OF go_engine(5), of x] show ?thesis
    using assms(2) go_engine(1,2) by (simp add: undisturbed_def)
next
  case (go_history bWs getLogs logs)
  then show ?thesis using assms(4) by simp
qed (use assms(2) in \<open>auto simp: undisturbed_def\<close>)

lemma early_run: "run E w g es g' \<Longrightarrow> early (go_engine g') \<Longrightarrow> early (go_engine g)"
  by (induction rule: run.induct) (auto dest: step_early)

lemma undisturbed_runs:
  assumes "run E w g es g'" and "undisturbed (w_keccak w) b x L hist bWs rs g"
    and "mm_version (go_memory g') x = mm_version (go_memory g) x"
    and "early (go_engine g) \<Longrightarrow> early (go_engine g')"
  shows "undisturbed (w_keccak w) b x L hist bWs (rs @ logs_received es) g'"
  using assms
proof (induction rule: run.induct)
  case (run_more g es g1 e g2)
  have "mm_version (go_memory g) x \<le> mm_version (go_memory g1) x" "mm_version (go_memory g1) x \<le> mm_version (go_memory g2) x"
    using version_run [OF run_more.hyps(1)] version_step [OF run_more.hyps(2)] .
  then have v: "mm_version (go_memory g1) x = mm_version (go_memory g) x" "mm_version (go_memory g2) x = mm_version (go_memory g1) x"
    using run_more.prems(2) by simp_all
  have "early (go_engine g1)" if "early (go_engine g)" using run_more.prems(3) that step_early [OF run_more.hyps(2)] by blast
  with run_more.IH [OF run_more.prems(1) v(1)] have u: "undisturbed (w_keccak w) b x L hist bWs (rs @ logs_received es) g1" by blast
  have "early (go_engine g2)" if "early (go_engine g1)"
  proof (cases "early (go_engine g)")
    case False
    then show ?thesis using early_run [OF run_more.hyps(1)] that by blast
  qed (use run_more.prems(3) in blast)
  from undisturbed_step [OF run_more.hyps(2) u v(2) this] show ?case by simp
qed simp

text \<open>
  From the launch to the moment the engine rests: \<open>logs\<close> is what the node answered for the history up to \<open>bWs\<close>.
\<close>

lemma launched_undisturbed:
  assumes "b = (lg_emode (ledger_of (bot_store bt)) x \<noteq> None)"
  shows "undisturbed kc b x (ledger_of (bot_store bt)) hist bWs [] (launched n bt)"
  using assms by (simp add: undisturbed_def shown_facts place_def launched_def)

lemma undisturbed_launch:
  assumes "run E w (launched n bt) es g" and "go_engine g = Syncing bWs"
    and "run E w (g\<lparr>go_engine := Historic (sort_logs logs) bWs\<rparr>) es' g'" and "go_engine g' = Live"
    and "mm_version (go_memory g') x = 0"
  shows "let b = lg_emode (ledger_of (bot_store bt)) x \<noteq> None in
    view b x (ledger_of (go_store g')) = view b x (logs_on (w_keccak w)
      (sort_logs logs @ accepted (handed_over bWs (sort_logs logs)) (logs_received es')) (ledger_of (bot_store bt)))"
proof -
  define b where "b = (lg_emode (ledger_of (bot_store bt)) x \<noteq> None)"
  let ?L = "ledger_of (bot_store bt)" and ?h = "sort_logs logs" and ?g = "g\<lparr>go_engine := Historic (sort_logs logs) bWs\<rparr>"
  have v: "mm_version (go_memory (launched n bt)) x = 0" by (simp add: launched_def)
  have vg: "mm_version (go_memory g) x = 0" using version_run [OF assms(3), of x] assms(5) by simp
  have "undisturbed (w_keccak w) b x ?L ?h bWs ([] @ logs_received es) g"
    by (rule undisturbed_runs [OF assms(1) launched_undisturbed [OF b_def]]) (simp_all add: v vg assms(2))
  then have u: "undisturbed (w_keccak w) b x ?L ?h bWs [] ?g" using assms(2) by (auto simp: undisturbed_def)
  have "undisturbed (w_keccak w) b x ?L ?h bWs ([] @ logs_received es') g'"
    by (rule undisturbed_runs [OF assms(3) u]) (simp_all add: assms(5) vg)
  then show ?thesis using assms(4) by (simp add: undisturbed_def caught_up_def shown_facts b_def)
qed

section \<open>The engine alone\<close>

text \<open>The system with the engine at another place, and one turn of the engine there.\<close>

definition engine_in :: "system \<Rightarrow> engine_pc \<Rightarrow> cursor \<Rightarrow> log_view \<Rightarrow> system" where
  "engine_in g pc c v = with_view v (g\<lparr>go_engine := pc, go_cursor := c\<rparr>)"

lemma engine_in_self: "engine_in g (go_engine g) (go_cursor g) (go_view g) = g"
  by (intro system.equality) (simp_all add: engine_in_def)

lemma engine_in_simps [simp]:
  "go_engine (engine_in g pc c v) = pc" "go_cursor (engine_in g pc c v) = c" "go_view (engine_in g pc c v) = v"
  "go_memory (engine_in g pc c v) = lv_memory v" "go_dirty (engine_in g pc c v) = lv_dirty v"
  "go_buffer (engine_in g pc c v) = go_buffer g" "go_workers (engine_in g pc c v) = go_workers g"
  by (simp_all add: engine_in_def go_view_def)

lemma engine_turn:
  assumes "engine_section (w_keccak w) ordF (\<lambda>a. ord a) (go_buffer g = []) pc c v = (pc', c', v')"
    and "enumerates ordF (lv_dirty v)" and "\<And>a. enumerates (ord a) (subscribers (lv_store v) a)"
    and "\<exists>es. run E w (engine_in g pc' c' v') es h \<and> logs_received es = []"
  shows "\<exists>es. run E w (engine_in g pc c v) es h \<and> logs_received es = []"
proof -
  let ?g = "engine_in g pc c v"
  have "with_view v' (?g\<lparr>go_engine := pc', go_cursor := c'\<rparr>) = engine_in g pc' c' v'"
    by (simp add: engine_in_def with_view_def)
  then have s: "step E w (engine_event pc) ?g (engine_in g pc' c' v')"
    using go_engine [of ordF ?g ord w pc' c' v' E] assms(1-3) by simp
  obtain es where es: "run E w (engine_in g pc' c' v') es h" "logs_received es = []" using assms(4) by blast
  have "logs_received (engine_event pc # es) = logs_received [engine_event pc] @ logs_received es"
    using channel_events(3) [of "[engine_event pc]" es] by simp
  then show ?thesis using run_then [OF s es(1)] es(2) by (intro exI [of _ "engine_event pc # es"]) simp
qed

lemma subscribers_order: "(\<And>b. finite (subs_raw s b)) \<Longrightarrow> \<exists>ord. \<forall>b. enumerates (ord b) (subscribers s b)"
  by (intro choice allI enumerates_exists) (simp add: subscribers_raw)

lemma flag_replayed:
  fixes g :: system
  assumes "begin_log (w_keccak w) l = Acquire u [] [(a, f)]" and "lv_dirty v = {}" and "cu_tx c \<noteq> log_TransactionHash l"
    and "\<And>b. finite (subs_raw (lv_store v) b)" and "log_block l < bWs"
  shows "\<exists>es. run E w (engine_in g (Historic [l] bWs) c v) es
      (engine_in g Live \<lparr>cu_tx = log_TransactionHash l, cu_block = bWs, cu_index = 0\<rparr>
        (v\<lparr>lv_memory := in_section (update_reserve u a f) (in_section (GetUserReserve u a) (lv_memory v)),
           lv_queue := Enqueue u (lv_queue v)\<rparr>)) \<and> logs_received es = []" (is "\<exists>es. run E w _ es ?h \<and> _")
proof -
  let ?c1 = "c\<lparr>cu_tx := log_TransactionHash l\<rparr>"
  let ?c2 = "?c1\<lparr>cu_block := log_block l, cu_index := log_idx l\<rparr>"
  let ?got = "[(mm_version (lv_memory v) (ToLower u), a, f)]"
  define v1 where "v1 = lv_section (GetUserReserve u a) v"
  define v2 where "v2 = mark_dirty u (v1\<lparr>lv_memory := write_all u ?got (lv_memory v1)\<rparr>)"
  define v3 where "v3 = v2\<lparr>lv_queue := Enqueue u (lv_queue v2)\<rparr>"
  have w: "lv_memory v2 = in_section (update_reserve u a f) (lv_memory v1)"
    by (simp add: v2_def v1_def write_all_def write_current)
  have d: "lv_dirty v1 = {}" "lv_dirty v2 = {u}" "lv_dirty v3 = {u}" "lv_memory v3 = lv_memory v2"
    by (simp_all add: v1_def v2_def v3_def assms(2))
  have fin: "\<forall>b. finite (subs_raw (lv_store v1) b)" "\<forall>b. finite (subs_raw (lv_store v2) b)"
    using assms(4) finite_ops by (simp_all add: w) (simp_all add: v1_def)
  obtain o0 o1 o2 where o: "\<And>b. enumerates (o0 b) (subscribers (lv_store v) b)"
    "\<And>b. enumerates (o1 b) (subscribers (lv_store v1) b)" "\<And>b. enumerates (o2 b) (subscribers (lv_store v2) b)"
    using subscribers_order [OF assms(4)] subscribers_order [OF fin(1) [rule_format]] subscribers_order [OF fin(2) [rule_format]] by blast
  have o3: "enumerates (o2 b) (subscribers (lv_store v3) b)" for b using o(3) by (simp add: d)
  have e: "enumerates [] (lv_dirty v)" "enumerates [] (lv_dirty v1)" "enumerates [u] (lv_dirty v2)" "enumerates [u] (lv_dirty v3)"
    by (simp_all add: enumerates_def assms(2) d)
  let ?v4 = "v3\<lparr>lv_dirty := {}\<rparr>"
  have h: "?h = engine_in g Live (?c2\<lparr>cu_block := bWs, cu_index := 0\<rparr>) ?v4"
    using w assms(2) by (cases c, cases v) (simp add: v3_def v2_def v1_def mark_dirty_def lv_section_def)
  have e4: "enumerates [] (lv_dirty ?v4)" "\<And>b. enumerates (o2 b) (subscribers (lv_store ?v4) b)"
    using o3 by (simp_all add: enumerates_def)
  have v0: "v\<lparr>lv_dirty := {}\<rparr> = v" using assms(2) by simp
  let ?c3 = "?c2\<lparr>cu_block := bWs, cu_index := 0\<rparr>"
  let ?R = "\<lambda>pc c v. \<exists>es. run E w (engine_in g pc c v) es (engine_in g Live ?c3 ?v4) \<and> logs_received es = []"
  have "?R Live ?c3 ?v4" using run_stop by (intro exI [of _ "[]"]) simp
  then have "?R (HandOver bWs) ?c2 ?v4" by (rule engine_turn [OF _ e4, rotated]) (use assms(5) in simp)
  then have "?R (Flushing [] (HandOver bWs)) ?c2 v3" by (rule engine_turn [OF _ e(4) o3, rotated]) simp
  then have "?R (Flushing [u] (HandOver bWs)) ?c2 v2" by (rule engine_turn [OF _ e(3) o(3), rotated]) (simp add: v3_def)
  then have "?R (Historic [] bWs) ?c2 v2" by (rule engine_turn [OF _ e(3) o(3), rotated]) (simp add: flush_then_def d)
  then have "?R (HistoricLog LogDone l [] bWs) ?c1 v2" by (rule engine_turn [OF _ e(3) o(3), rotated]) simp
  then have "?R (HistoricLog (WriteReserves u ?got) l [] bWs) ?c1 v1"
    by (rule engine_turn [OF _ e(2) o(2), rotated]) (simp add: v2_def)
  then have "?R (HistoricLog (begin_log (w_keccak w) l) l [] bWs) ?c1 v"
    unfolding assms(1) by (rule engine_turn [OF _ e(1) o(1), rotated]) (simp add: v1_def Let_def)
  then have "?R (Flushing [] (HistoricLog (begin_log (w_keccak w) l) l [] bWs)) ?c1 v"
    by (rule engine_turn [OF _ e(1) o(1), rotated]) (simp add: v0)
  then have "?R (Historic [l] bWs) c v"
    by (rule engine_turn [OF _ e(1) o(1), rotated]) (use assms(3) in \<open>simp add: flush_then_def\<close>)
  then show ?thesis unfolding h .
qed

text \<open>A launched bot asks for the history, here up to block 9.\<close>

lemma before_history:
  "\<exists>es g. run E w (launched n b) es g \<and> go_engine g = Syncing 9 \<and> go_memory g = memory_of (bot_store b) \<and>
     go_cursor g = \<lparr>cu_tx = [], cu_block = 0, cu_index = 0\<rparr> \<and> go_dirty g = {}"
proof -
  let ?g = "launched n b"
  have none: "fetchPrices (w_oracle w) (ChainData.toy_port\<lparr>eth_call := \<lambda>_ _ _. None\<rparr>) (w_feeder w) = None"
    by (simp add: fetchPrices_def eth_call_bytes_def eth_call_hex_def split: option.split)
  let ?g1 = "?g\<lparr>go_ready := True\<rparr>"
  have "step E w Silent ?g (oracle_tick w (ChainData.toy_port\<lparr>eth_call := \<lambda>_ _ _. None\<rparr>) ?g)" by (rule go_beat) simp_all
  then have s1: "step E w Silent ?g ?g1" by (simp add: oracle_tick_def none)
  let ?g2 = "?g1\<lparr>go_engine := Latest, go_up := True\<rparr>"
  have s2: "step E w Silent ?g1 ?g2" by (rule go_subscribe) simp_all
  let ?g3 = "?g2\<lparr>go_engine := Syncing 9\<rparr>"
  have "fetchLatestBlock (Some (CHR 0x22 # ''0x9'' @ [CHR 0x22])) = Some 9" by code_simp
  then have s3: "step E w Silent ?g2 ?g3" by (intro go_latest) simp_all
  show ?thesis
    by (intro exI conjI, rule run_then [OF s1 run_then [OF s2 run_one [OF s3]]]) (simp_all add: launched_def)
qed

end
