(* ===== verification/WellKeyed.thy ===== *)
theory WellKeyed
  imports Goroutines
begin

text \<open>
  The types behind the strings. Every map of the store is keyed by lower-case addresses, a position lies under
  its own user and an entry under its own asset. Only this makes the lookups meet that the code does with
  \<open>res.AssetAddress\<close> in one place and with the key of the map in another. The invariant holds in every
  interleaving when The Graph names assets in lower case; where it does not, the bot goes blind.
\<close>

section \<open>Well-keyed stores\<close>

definition lower :: "string \<Rightarrow> bool" where
  "lower s \<longleftrightarrow> ToLower s = s"

lemma lower_simps [simp]: "lower (ToLower s)" "lower (ParseHexAddress s)"
  by (simp_all add: lower_def)

definition keyed_position :: "string \<Rightarrow> user_position \<Rightarrow> bool" where
  "keyed_position u p \<longleftrightarrow> UserAddress p = u \<and> (\<forall>a r. Reserves p a = Some r \<longrightarrow> AssetAddress r = a \<and> lower a)"

definition well_keyed :: "state_store \<Rightarrow> bool" where
  "well_keyed s \<longleftrightarrow> (\<forall>u p. userPositions s u = Some p \<longrightarrow> lower u \<and> keyed_position u p) \<and>
     (\<forall>a. prices s a \<noteq> None \<or> globalIndices s a \<noteq> None \<or> assetConfigs s a \<noteq> None \<longrightarrow> lower a) \<and>
     (\<forall>u a. u \<in> subs_raw s a \<longrightarrow> lower u \<and> lower a) \<and> (\<forall>u. heapLookup s u \<noteq> None \<longrightarrow> lower u)"

lemma well_keyedD:
  assumes "well_keyed s"
  shows "userPositions s u = Some p \<Longrightarrow> lower u \<and> keyed_position u p"
    and "prices s a \<noteq> None \<or> globalIndices s a \<noteq> None \<or> assetConfigs s a \<noteq> None \<Longrightarrow> lower a"
    and "u \<in> subs_raw s a \<Longrightarrow> lower u \<and> lower a" and "heapLookup s u \<noteq> None \<Longrightarrow> lower u"
  using assms unfolding well_keyed_def by blast+

lemma well_keyed_new: "well_keyed NewStateStore"
  by (simp add: well_keyed_def NewStateStore_def subs_raw_def)

lemma keyed_new: "keyed_position u (new_position u)"
  by (simp add: keyed_position_def new_position_def)

text \<open>The halves of the store methods.\<close>

lemma well_keyed_position:
  assumes "well_keyed s" and "lower u" and "keyed_position u p"
  shows "well_keyed (s\<lparr>userPositions := (userPositions s)(u \<mapsto> p)\<rparr>)"
  using assms by (auto simp: well_keyed_def subs_raw_def)

lemma keyed_position_of: "well_keyed s \<Longrightarrow> keyed_position u (position_of s u)"
  by (auto simp: position_of_def keyed_new dest: well_keyedD(1) split: option.split)

lemma well_keyed_ensure: "well_keyed s \<Longrightarrow> lower u \<Longrightarrow> well_keyed (ensure_position u s)"
  by (auto simp: ensure_position_def keyed_new intro: well_keyed_position split: option.split)

lemma well_keyed_reserve:
  assumes "well_keyed s" and "lower u" and "lower a" and "AssetAddress r = a"
  shows "well_keyed (put_reserve u a r s)"
proof -
  have "keyed_position u (position_of s u\<lparr>Reserves := (Reserves (position_of s u))(a \<mapsto> r)\<rparr>)"
    using keyed_position_of [OF assms(1), of u] assms(3,4) by (auto simp: keyed_position_def)
  then show ?thesis using well_keyed_position [OF assms(1,2)] by (simp add: put_reserve_def Let_def)
qed

lemma well_keyed_subscribe: "well_keyed s \<Longrightarrow> lower a \<Longrightarrow> lower u \<Longrightarrow> well_keyed (subscribe a u s)"
  by (auto simp: well_keyed_def subs_raw_subscribe split: if_splits) (auto simp: subscribe_def)

section \<open>The locked sections\<close>

definition keeps_asset :: "(user_reserve \<Rightarrow> user_reserve) \<Rightarrow> bool" where
  "keeps_asset f \<longleftrightarrow> (\<forall>r. AssetAddress (f r) = AssetAddress r)"

lemma well_keyed_get: "well_keyed s \<Longrightarrow> well_keyed (GetUserReserve u a s)"
  by (auto simp: GetUserReserve_def Let_def zero_reserve_def split: option.split
      intro!: well_keyed_ensure well_keyed_subscribe well_keyed_reserve)

lemma well_keyed_write:
  assumes "well_keyed s" and "keeps_asset f"
  shows "well_keyed (update_reserve u a f s)"
proof (cases "reserve_at s (ToLower u) (ToLower a)")
  case (Some r)
  then have "AssetAddress r = ToLower a"
    using well_keyedD(1) [OF assms(1)] by (auto simp: reserve_at_def keyed_position_def bind_eq_Some_conv)
  then show ?thesis using Some assms
    by (auto simp: update_reserve_def Let_def keeps_asset_def intro!: well_keyed_reserve)
qed (use assms in \<open>simp add: update_reserve_def\<close>)

lemma well_keyed_upsert:
  "well_keyed s \<Longrightarrow> lower (AssetAddress r) \<Longrightarrow> well_keyed (UpsertUserReserve u r s)"
  by (auto simp: UpsertUserReserve_def Let_def lower_def
      intro!: well_keyed_subscribe well_keyed_reserve well_keyed_ensure)

lemma well_keyed_mode: "well_keyed s \<Longrightarrow> well_keyed (SetUserEMode u c s)"
  unfolding SetUserEMode_def Let_def
  using keyed_position_of [OF well_keyed_ensure, of s "ToLower u" "ToLower u"]
  by (intro well_keyed_position well_keyed_ensure) (auto simp: keyed_position_def)

lemma well_keyed_maps:
  "well_keyed s \<Longrightarrow> well_keyed (SetGlobalIndex a i s)" "well_keyed s \<Longrightarrow> well_keyed (SetAssetPrice a p s)"
  "well_keyed s \<Longrightarrow> well_keyed (SetAssetConfig a cfg s)" "well_keyed s \<Longrightarrow> well_keyed (SetEModeCategory k e s)"
  "well_keyed s \<Longrightarrow> well_keyed (SetCurrentBlock b s)" "well_keyed s \<Longrightarrow> well_keyed (SetAnchorBlock b s)"
  "well_keyed s \<Longrightarrow> well_keyed (put_category c cat s)"
  by (auto simp: well_keyed_def SetGlobalIndex_def SetAssetPrice_def SetAssetConfig_def SetEModeCategory_def
      SetCurrentBlock_def SetAnchorBlock_def put_category_def Let_def subs_raw_def)

lemma well_keyed_put: "well_keyed s \<Longrightarrow> lower u \<Longrightarrow> keyed_position u p \<Longrightarrow> well_keyed (put_position u p s)"
  by (simp add: put_position_def well_keyed_position)

lemma well_keyed_set_mode: "well_keyed s \<Longrightarrow> well_keyed (set_position_emode u c s)"
  using well_keyedD(1) [of s u] by (auto simp: set_position_emode_def keyed_position_def intro!: well_keyed_put split: option.split)

lemma updateHeap_keys:
  "updateHeap u hf s = Inr t \<Longrightarrow> heapLookup t v \<noteq> None \<Longrightarrow> heapLookup s v \<noteq> None \<or> v = u"
  by (auto simp: updateHeap_def drop_user_def track_user_def put_heap_def bind_outcome_Inr_iff Let_def
      split: option.splits if_splits prod.splits)

lemma updateHeap_maps:
  "updateHeap u hf s = Inr t \<Longrightarrow> prices t = prices s \<and> globalIndices t = globalIndices s \<and> assetConfigs t = assetConfigs s"
  by (auto simp: updateHeap_def drop_user_def track_user_def put_heap_def bind_outcome_Inr_iff Let_def
      split: option.splits if_splits prod.splits)

lemma well_keyed_heap:
  assumes "well_keyed s" and "lower u" and "updateHeap u hf s = Inr t"
  shows "well_keyed t"
  using assms(1,2) updateHeap_positions [OF assms(3)] updateHeap_holders [OF assms(3)] updateHeap_maps [OF assms(3)]
    updateHeap_keys [OF assms(3)]
  unfolding well_keyed_def by metis

lemma well_keyed_cooldown: "well_keyed s \<Longrightarrow> well_keyed (set_next_check u t s)"
  by (auto simp: well_keyed_def set_next_check_def put_heap_def subs_raw_def Let_def split: option.split)

lemmas well_keyed_sections = well_keyed_get well_keyed_write well_keyed_mode well_keyed_maps well_keyed_put
  well_keyed_set_mode well_keyed_heap well_keyed_cooldown

section \<open>The clients\<close>

definition keyed_client :: "chain_env \<Rightarrow> bool" where
  "keyed_client env \<longleftrightarrow> (\<forall>s u b acct p. well_keyed s \<longrightarrow> lower u \<longrightarrow>
     FetchUserPosition_at env s u b = Inr (Some (acct, p)) \<longrightarrow> keyed_position u p)"

text \<open>The RPC client, whatever node, ABI codec and addresses it works with.\<close>

definition rpc_clients :: "chain_env set" where
  "rpc_clients = {chain_env_of abi port mc ord pool | abi port mc ord pool. True}"

lemma position_loop_keyed:
  assumes "position_loop abi conf results i assets p = Some p'" and "keyed_position u p"
    and "\<And>m. m \<in> set assets \<Longrightarrow> lower (am_AssetAddress m)"
  shows "keyed_position u p'"
  using assms
proof (induction assets arbitrary: i p)
  case (Cons m assets)
  let ?r = "\<lambda>x y. \<lparr>AssetAddress = am_AssetAddress m, ScaledATokenBalance = x, ScaledVariableDebt = y,
    UsageAsCollateralEnabledOnUser = is_collateral conf (am_ReserveIndex m)\<rparr>"
  from Cons.prems(1) obtain x y where l:
    "position_loop abi conf results (Suc i) assets (p\<lparr>Reserves := (Reserves p)(am_AssetAddress m \<mapsto> ?r x y)\<rparr>) = Some p'"
    by (simp add: Let_def split: if_splits option.splits)
  show ?case
    by (rule Cons.IH [OF l]) (use Cons.prems(2,3) in \<open>simp_all add: keyed_position_def\<close>)
qed simp

lemma fetch_keyed:
  assumes "FetchUserPositionBatchAtBlock abi port mc ord pool u b s = Inr (Some (acct, p))" and "well_keyed s" and "lower u"
  shows "keyed_position u p"
proof -
  let ?as = "map meta_of (visit (assetConfigs s) ord)"
  have k: "lower (am_AssetAddress m)" if "m \<in> set ?as" for m
    using that well_keyedD(2) [OF assms(2)] by (auto simp: set_visit meta_of_def)
  obtain results where "decode_position abi u ?as results = Some (acct, p)"
    using assms(1) by (auto simp: FetchUserPositionBatchAtBlock_def bind_outcome_Inr_iff Let_def split: option.splits if_splits)
  then obtain conf p0 where l: "position_loop abi conf results 0 ?as p0 = Some p" "UserAddress p0 = ToLower u" "Reserves p0 = Map.empty"
    by (force simp: decode_position_def split: option.splits)
  show ?thesis by (rule position_loop_keyed [OF l(1) _ k]) (use l(2,3) assms(3) in \<open>simp_all add: keyed_position_def lower_def\<close>)
qed

lemma rpc_clients_keyed: "env \<in> rpc_clients \<Longrightarrow> keyed_client env"
  by (auto simp: rpc_clients_def keyed_client_def chain_env_of_def intro: fetch_keyed)

section \<open>The program counters\<close>

fun keyed_worker :: "worker_pc \<Rightarrow> bool" where
  "keyed_worker Idle = True"
| "keyed_worker (Look u) = lower u"
| "keyed_worker (Copy rd u v f c) = lower u"
| "keyed_worker (Height rd u v v' f c) = lower u"
| "keyed_worker (Total rd u v v' f c b) = lower u"
| "keyed_worker (AskMode u v) = lower u"
| "keyed_worker (LookCategory u v c) = lower u"
| "keyed_worker (AskCategory u v c) = lower u"
| "keyed_worker (PutCategory u v c cat) = lower u"
| "keyed_worker (PutMode u v c) = lower u"
| "keyed_worker (ReadConfigs u snap) = lower u"
| "keyed_worker (AskPosition u snap s) = (lower u \<and> well_keyed s)"
| "keyed_worker (Replace u acct pos) = (lower u \<and> keyed_position u pos)"
| "keyed_worker (Search u acct v) = lower u"
| "keyed_worker (Send u acct rec) = lower u"
| "keyed_worker (Cool u acct t) = lower u"
| "keyed_worker (File u hf) = lower u"

lemma keyed_judge [simp]: "lower u \<Longrightarrow> keyed_worker (judge u x)"
  by (simp add: judge_def split: option.split)

lemma keyed_after_sum [simp]: "lower u \<Longrightarrow> keyed_worker (after_sum rd u v f x)"
  by (simp add: after_sum_def split: option.split)

lemma worker_keyed:
  assumes "worker_section ords env txenv ex now pc m r = Inr (pc', m', sent, r')"
    and "keyed_worker pc" and "well_keyed (mm_store m)" and "keyed_client env"
  shows "keyed_worker pc' \<and> well_keyed (mm_store m')"
proof (cases pc)
  case (AskPosition u snap s)
  then show ?thesis using assms
    by (auto simp: goto_def bind_outcome_Inr_iff keyed_client_def split: option.splits)
next
  case (Send u acct rec)
  then show ?thesis using assms by (auto split: prod.splits option.splits)
next
  case (Search u acct v)
  then show ?thesis using assms by (auto simp: goto_def bind_outcome_Inr_iff split: option.splits)
next
  case (Total rd u v v' f c b)
  then show ?thesis using assms by (auto simp: goto_def)
next
  case (File u hf)
  then show ?thesis using assms by (auto simp: goto_def bind_outcome_Inr_iff intro: well_keyed_heap)
next
  case (AskMode u v)
  then show ?thesis using assms by (auto simp: goto_def bind_outcome_Inr_iff split: option.splits)
next
  case (AskCategory u v c)
  then show ?thesis using assms by (auto simp: goto_def bind_outcome_Inr_iff split: option.splits)
next
  case (Look u)
  then show ?thesis using assms by (auto simp: goto_def split: option.splits)
next
  case (Copy rd u v f c)
  then show ?thesis using assms by (auto simp: goto_def split: option.splits)
qed (use assms in \<open>auto simp: goto_def write_store intro: well_keyed_sections\<close>)

fun keyed_log :: "log_pc \<Rightarrow> bool" where
  "keyed_log (Feed us) = (\<forall>u \<in> set us. lower u)"
| "keyed_log (PutUserMode u c) = lower u"
| "keyed_log (ReadIndex sel a u f) = (lower u \<and> (\<forall>i. keeps_asset (f i)))"
| "keyed_log (ReadDebtIndex d c u x y) = lower u"
| "keyed_log (ReadCollateralIndex i d c u x y) = lower u"
| "keyed_log (Acquire u got rest) = (lower u \<and> (\<forall>(v, a, f) \<in> set got. keeps_asset f) \<and> (\<forall>(a, f) \<in> set rest. keeps_asset f))"
| "keyed_log (WriteReserves u got) = (lower u \<and> (\<forall>(v, a, f) \<in> set got. keeps_asset f))"
| "keyed_log pc = True"

lemma keeps_changes [simp]:
  "keeps_asset (add_balance x i)" "keeps_asset (sub_balance x i)" "keeps_asset (add_debt x i)" "keeps_asset (sub_debt x i)"
  "keeps_asset (set_flag b)"
  by (simp_all add: keeps_asset_def add_balance_def sub_balance_def add_debt_def sub_debt_def set_flag_def)

lemma begin_log_keyed: "keyed_log (begin_log kc l)"
  by (simp add: begin_log_def begin_index_def begin_supply_def begin_withdraw_def begin_borrow_def begin_repay_def
      begin_liquidation_def begin_collateral_def begin_emode_def Let_def)

text \<open>What a section of the log engine works on.\<close>

definition keyed_view :: "log_view \<Rightarrow> bool" where
  "keyed_view v \<longleftrightarrow> well_keyed (lv_store v) \<and> (\<forall>u \<in> set (lv_queue v) \<union> lv_dirty v. lower u)"

lemma keyed_Enqueue: "u' \<in> set (Enqueue u q) \<Longrightarrow> lower u \<Longrightarrow> \<forall>x \<in> set q. lower x \<Longrightarrow> lower u'"
  by (auto simp: Enqueue_def split: if_splits)

lemma keyed_holders: "well_keyed s \<Longrightarrow> u \<in> set (GetSubscribers ord s a) \<Longrightarrow> lower u"
  by (auto simp: GetSubscribers_def subscribers_raw dest: well_keyedD(3))

lemma write_all_keyed:
  "\<forall>(n, a, f) \<in> set got. keeps_asset f \<Longrightarrow> well_keyed (mm_store m) \<Longrightarrow> well_keyed (mm_store (write_all u got m))"
proof (induction got arbitrary: m)
  case (Cons h got)
  obtain n a f where h: "h = (n, a, f)" by (cases h)
  have "well_keyed (mm_store (write_reserve (ToLower u) n (ToLower a) f m))"
    using Cons.prems h by (auto simp: write_store intro!: well_keyed_write)
  then show ?case using Cons h by (simp add: write_all_def)
qed (simp add: write_all_def)

lemma log_keyed:
  assumes "log_section ord pc v = (pc', v')" and "keyed_log pc" and "keyed_view v"
  shows "keyed_log pc' \<and> keyed_view v'"
  using assms
  by (cases "(ord, pc, v)" rule: log_section.cases)
    (auto simp: keyed_view_def Let_def intro: well_keyed_sections write_all_keyed dest: keyed_holders intro: keyed_Enqueue
      split: option.splits if_splits)

fun keyed_feeder :: "feeder_pc \<Rightarrow> bool" where
  "keyed_feeder (Filling us as) = (\<forall>u \<in> set us. lower u)"
| "keyed_feeder pc = True"

lemma feeder_keyed:
  assumes "feeder_section ord pc m q = (pc', m', q')" and "keyed_feeder pc" and "well_keyed (mm_store m)"
    and "\<forall>u \<in> set q. lower u"
  shows "keyed_feeder pc' \<and> well_keyed (mm_store m') \<and> (\<forall>u \<in> set q'. lower u)"
  using assms
  by (cases "(ord, pc, m, q)" rule: feeder_section.cases)
    (auto intro: well_keyed_sections keyed_Enqueue dest: keyed_holders split: if_splits)

primrec keyed_engine :: "engine_pc \<Rightarrow> bool" where
  "keyed_engine Waiting = True"
| "keyed_engine Latest = True"
| "keyed_engine (Syncing bWs) = True"
| "keyed_engine (Historic ls bWs) = True"
| "keyed_engine (HistoricLog pc l ls bWs) = keyed_log pc"
| "keyed_engine (HandOver bWs) = True"
| "keyed_engine Live = True"
| "keyed_engine (Received l) = True"
| "keyed_engine (Check l) = True"
| "keyed_engine (LiveLog pc l) = keyed_log pc"
| "keyed_engine LogEnd = True"
| "keyed_engine (Flushing us k) = ((\<forall>u \<in> set us. lower u) \<and> keyed_engine k)"
| "keyed_engine Stopped = True"
| "keyed_engine Ended = True"

lemma flush_then_keyed [simp]: "keyed_view v \<Longrightarrow> keyed_engine (flush_then ordF v k) = keyed_engine k"
  by (auto simp: flush_then_def keyed_view_def)

lemma keyed_view_section: "keyed_view v \<Longrightarrow> (\<And>s. well_keyed s \<Longrightarrow> well_keyed (f s)) \<Longrightarrow> keyed_view (lv_section f v)"
  by (simp add: keyed_view_def)

lemma keyed_view_queue:
  "keyed_view v \<Longrightarrow> lower u \<Longrightarrow> keyed_view (v\<lparr>lv_queue := Enqueue u (lv_queue v)\<rparr>)"
  "keyed_view v \<Longrightarrow> keyed_view (v\<lparr>lv_dirty := {}\<rparr>)"
  by (auto simp: keyed_view_def intro: keyed_Enqueue)

lemma engine_keyed:
  assumes "engine_section kc ordF ord e pc c v = (pc', c', v')" and "keyed_engine pc" and "keyed_view v"
  shows "keyed_engine pc' \<and> keyed_view v'"
  using assms
  by (cases "(kc, ordF, ord, e, pc, c, v)" rule: engine_section.cases)
    (auto simp: begin_log_keyed intro: keyed_view_queue keyed_view_section well_keyed_maps dest: log_keyed
      split: if_splits prod.splits)

section \<open>The whole system\<close>

definition keyed_system :: "system \<Rightarrow> bool" where
  "keyed_system g \<longleftrightarrow> keyed_view (go_view g) \<and> (\<forall>u \<in> set (go_targets g). lower u) \<and> keyed_feeder (go_feeder g) \<and>
     keyed_engine (go_engine g) \<and> (\<forall>pc \<in> set (go_workers g). keyed_worker pc)"

lemma targets_keyed:
  assumes "heap_book s" and "well_keyed s" and "u \<in> set (watchdog_targets now s)"
  shows "lower u"
proof -
  have "heapLookup s u \<noteq> None"
    using assms(3) heap_bookD(3) [OF assms(1)] by (auto simp: watchdog_targets_def Let_def)
  then show ?thesis using well_keyedD(4) [OF assms(2)] by simp
qed

lemma set_list_update: "x \<in> set (xs[i := y]) \<Longrightarrow> x = y \<or> x \<in> set xs"
  using set_update_subset_insert by fastforce

lemma step_keyed:
  assumes "step E w e g g'" and "\<And>env. env \<in> E \<Longrightarrow> keyed_client env" and "heap_book (go_store g)" and "keyed_system g"
  shows "keyed_system g'"
  using assms(1)
proof (cases rule: step.cases)
  case (go_work i env ords now pc m sent r)
  have "keyed_worker (go_workers g ! i)" using assms(4) go_work by (simp add: keyed_system_def)
  then have "keyed_worker pc" "well_keyed (mm_store m)"
    using worker_keyed [OF go_work(5)] assms(2) go_work assms(4) by (simp_all add: keyed_system_def keyed_view_def)
  then show ?thesis using assms(4) go_work
    by (auto simp: keyed_system_def keyed_view_def dest!: set_list_update)
next
  case (go_beat port)
  then show ?thesis using assms(4) by (auto simp: keyed_system_def keyed_view_def oracle_tick_def split: option.split)
next
  case (go_engine ordF ord pc c v)
  then have "keyed_engine pc \<and> keyed_view v" using engine_keyed [OF go_engine(5)] assms(4) by (simp add: keyed_system_def)
  then show ?thesis using assms(4) go_engine by (simp add: keyed_system_def keyed_view_def)
next
  case (go_price ord pc m q)
  then show ?thesis using assms(4) feeder_keyed [OF go_price(4)] by (auto simp: keyed_system_def keyed_view_def)
next
  case (go_tick now)
  then show ?thesis using assms(4) targets_keyed [OF assms(3)] by (auto simp: keyed_system_def keyed_view_def)
next
  case (go_recheck u us)
  then show ?thesis using assms(4) by (auto simp: keyed_system_def keyed_view_def intro: keyed_Enqueue)
next
  case (go_leave i)
  then show ?thesis using assms(4) by (auto simp: keyed_system_def keyed_view_def dest: in_set_takeD in_set_dropD)
next
  case (go_take i u q)
  then show ?thesis using assms(4) by (auto simp: keyed_system_def keyed_view_def dest!: set_list_update)
qed (use assms(4) in \<open>auto simp: keyed_system_def keyed_view_def\<close>)

lemma run_keyed:
  assumes "run E w g es g'" and "\<And>env. env \<in> E \<Longrightarrow> keyed_client env" and "heap_book (go_store g)" and "keyed_system g"
  shows "keyed_system g' \<and> heap_book (go_store g')"
  using assms(1,3,4)
proof (induction rule: run.induct)
  case (run_more g es g1 e g2)
  then have k: "keyed_system g1" "heap_book (go_store g1)" by blast+
  have "heap_book (go_store g2)"
    using step_sections [OF run_more.hyps(2)] k(2) unfolding sections_def
    by (induction rule: rtranclp_induct) (auto intro: locked_section_book)
  then show ?case using step_keyed [OF run_more.hyps(2) assms(2) k(2,1)] by blast
qed simp

text \<open>The bootstrap stores the address of an entry as The Graph gives it.\<close>

definition lower_assets :: "graph_user list \<Rightarrow> bool" where
  "lower_assets users \<longleftrightarrow> (\<forall>u \<in> set users. \<forall>r \<in> set (g_Reserves u). lower (g_UnderlyingAsset r))"

lemma load_user_keyed:
  assumes "\<forall>r \<in> set (g_Reserves u). lower (g_UnderlyingAsset r)" and "well_keyed s"
  shows "well_keyed (load_user u s)"
proof -
  have one: "well_keyed (load_reserve i r s)" if "lower (g_UnderlyingAsset r)" "well_keyed s" for i r s
    using that by (auto simp: load_reserve_def clean_reserve_def Let_def intro!: well_keyed_upsert split: option.split)
  have "well_keyed (fold (load_reserve i) rs s)" if "\<forall>r \<in> set rs. lower (g_UnderlyingAsset r)" "well_keyed s" for i rs s
    using that by (induction rs arbitrary: s) (auto intro: one)
  then show ?thesis using assms well_keyed_mode by (simp add: load_user_def)
qed

lemma bootstrap_keyed:
  assumes "Run env ords assets NewStateStore = Inr (None, s)" and "be_anchor env = Some b" and "be_users env b = Some users"
    and "lower_assets users"
  shows "well_keyed s"
proof -
  obtain reserves s3 where
    e: "store_emodes env ords b users (store_reserves ords reserves (SetAnchorBlock b NewStateStore)) = Inr (Some s3)"
    and t: "s = fold load_user users s3"
    using RunD [OF assms(1)] assms(2,3) by (metis option.inject)
  have "well_keyed (store_reserves ords reserves (SetAnchorBlock b NewStateStore))"
    by (rule store_reserves_preserves) (simp_all add: well_keyed_maps well_keyed_new)
  then have "well_keyed s3" by (rule store_emodes_preserves [OF e]) (simp add: well_keyed_maps)
  moreover have "well_keyed (fold load_user us s)" if "lower_assets us" "well_keyed s" for us s
    using that by (induction us arbitrary: s) (auto simp: lower_assets_def intro: load_user_keyed)
  ultimately show ?thesis using assms(4) by (simp add: t)
qed

text \<open>
  C15: every store of a run is well keyed. When The Graph names the assets of the snapshot in lower case, then
  in every interleaving, with the RPC client and whatever the network answers, every map of the store is keyed
  by lower-case addresses, a position lies under its own user and an entry under its own asset, and the queue
  holds lower-case users only: so no lookup misses because of how an address was spelled.
\<close>

theorem every_store_well_keyed:
  assumes "main_start x env = Inr (Some (w, b))" and "run rpc_clients w (launched n b) es g"
    and "gr_anchor (x_graph x) = Some m" and "graph_users (x_graph x) m = Some users" and "lower_assets users"
  shows "well_keyed (go_store g) \<and> (\<forall>u \<in> set (go_queue g). ToLower u = u)"
proof -
  obtain cfg r assets s where "LoadConfig (x_IsHexAddress x) (x_HexToAddress x) env = Some cfg"
    "FetchReservesList (x_aave x) (x_port x) (AaveV3Pool cfg) = Some assets"
    and run: "Run (boot_env_of (x_graph x) (x_aave x) (x_port x) (Multicall3 cfg) (AaveV3Pool cfg)) (x_orders x) assets NewStateStore = Inr (None, s)"
    and "w_feeder w = NewOracleFeeder (AaveV3Oracle cfg) assets" and b: "b = launch s r"
    by (rule main_startE [OF assms(1)])
  let ?env = "boot_env_of (x_graph x) (x_aave x) (x_port x) (Multicall3 cfg) (AaveV3Pool cfg)"
  have "\<exists>k. be_anchor ?env = Some k" using run by (rule RunD) blast
  then have k: "be_anchor ?env = Some m" using assms(3) by (auto simp: GetAnchorBlock_def split: if_splits)
  have "well_keyed s" by (rule bootstrap_keyed [OF run k _ assms(5)]) (simp add: assms(4))
  moreover have s: "bot_store b = s" by (simp add: b launch_def NewLogReplayEngine_def bootstrap_heap [OF run])
  ultimately have "keyed_system (launched n b)"
    by (simp add: keyed_system_def keyed_view_def) (simp add: launched_def)
  moreover have "heap_book (bot_store b)" using bot_reachable_book started_reachable [OF assms(1) run_stop] by simp
  ultimately have "keyed_system g"
    using run_keyed [OF assms(2)] rpc_clients_keyed by simp
  then show ?thesis by (simp add: keyed_system_def keyed_view_def lower_def)
qed

section \<open>A snapshot that names an asset otherwise\<close>

text \<open>
  an asset spelled with a capital letter blinds the risk check. Every key of the price map is in lower case,
  but the health factor looks a price up under the address stored in the entry, which the bootstrap takes
  from The Graph as it is. A user with such an entry that is not empty has no health factor, whatever its
  debt, and a worker that finds no health factor only takes the user off the risk heap.
\<close>

theorem misspelled_asset_blinds:
  assumes "well_keyed s" and "clean_reserve res = Some r" and "ToLower (AssetAddress r) \<noteq> AssetAddress r"
    and "enumerates ord (dom (Reserves (position_of (load_reserve u res s) (ToLower u))))"
  shows "computeHFMath ord (load_reserve u res s) (ToLower u) f c = None"
proof -
  let ?s = "load_reserve u res s"
  have at: "reserve_at ?s (ToLower u) (ToLower (AssetAddress r)) = Some r"
    using assms(2) by (simp add: load_reserve_def store_simps)
  then obtain p where p: "userPositions ?s (ToLower u) = Some p" "Reserves p (ToLower (AssetAddress r)) = Some r"
    by (auto simp: reserve_at_def bind_eq_Some_conv)
  have "prices ?s = prices s"
    using assms(2) by (simp add: load_reserve_def UpsertUserReserve_def put_reserve_def subscribe_def ensure_position_def Let_def
        split: option.split)
  then have "prices ?s (AssetAddress r) = None" using well_keyedD(2) [OF assms(1), of "AssetAddress r"] assms(3)
    by (cases "prices s (AssetAddress r)") (auto simp: lower_def)
  then have "\<not> data_known ?s r" by (simp add: data_known_def)
  moreover have "\<not> reserve_empty r" using assms(2) by (auto simp: clean_reserve_def Let_def reserve_empty_def split: if_splits)
  ultimately have "\<not> position_known ?s p" using p(2) by (auto simp: position_known_def)
  then show ?thesis using computeHFMath_closed [OF p(1)] assms(4) p(1) by (simp add: position_of_def)
qed

section \<open>Witnesses\<close>

theorem every_store_well_keyed_witness:
  "\<exists>w b g. main_start toy_outside Config.toy_env = Inr (Some (w, b)) \<and> run rpc_clients w (launched 2 b) [Silent] g \<and>
     well_keyed (go_store g)"
proof -
  obtain w b where m: "main_start toy_outside Config.toy_env = Inr (Some (w, b))" using toy_started by blast
  have a: "gr_anchor (x_graph toy_outside) = Some (7 :: u64)" by (simp add: toy_outside_def toy_graph_def)
  obtain users where u: "graph_users (x_graph toy_outside) 7 = Some users"
    and us: "\<forall>v \<in> set users. \<forall>r \<in> set (g_Reserves v). g_UnderlyingAsset r = ''0xa''"
    using toy_graph_users [of 7] by (simp add: toy_outside_def)
  have "ToLower ''0xa'' = ''0xa''" by code_simp
  then have l: "lower_assets users" using us by (simp add: lower_assets_def lower_def)
  obtain g where g: "run rpc_clients w (launched 2 b) [Silent] g"
    using run_one [OF go_tick [where g = "launched 2 b"]] by auto
  show ?thesis using m g every_store_well_keyed [OF m g a u l] by blast
qed

definition misspelled :: graph_reserve where
  "misspelled = \<lparr>g_UnderlyingAsset = ''0xA'', g_ScaledATokenBalance = ''0'', g_ScaledVariableDebt = ''900000000'',
     g_UsageAsCollateralEnabledOnUser = False\<rparr>"

theorem misspelled_asset_blinds_witness:
  "\<exists>r. clean_reserve misspelled = Some r \<and> ScaledVariableDebt r = 900000000 \<and>
     computeHFMath [''0xa''] (load_reserve ''0x1'' misspelled NewStateStore) ''0x1'' True 0 = None"
proof -
  let ?r = "\<lparr>AssetAddress = ''0xA'', ScaledATokenBalance = 0, ScaledVariableDebt = 900000000,
    UsageAsCollateralEnabledOnUser = False\<rparr>"
  have c: "clean_reserve misspelled = Some ?r" by code_simp
  have l: "ToLower ''0x1'' = ''0x1''" "ToLower (AssetAddress ?r) = ''0xa''" "ToLower (AssetAddress ?r) \<noteq> AssetAddress ?r"
    by code_simp+
  have "Reserves (position_of (load_reserve ''0x1'' misspelled NewStateStore) ''0x1'') = [''0xa'' \<mapsto> ?r]"
    by (simp add: load_reserve_def c UpsertUserReserve_def l put_reserve_def subscribe_def ensure_position_def
        position_of_def new_position_def NewStateStore_def Let_def del: user_reserve.simps)
  then have "enumerates [''0xa''] (dom (Reserves (position_of (load_reserve ''0x1'' misspelled NewStateStore) (ToLower ''0x1''))))"
    by (simp add: enumerates_def l)
  from misspelled_asset_blinds [OF well_keyed_new c l(3) this] show ?thesis using c l(1) by simp
qed

end
