(* ===== verification/Process.thy ===== *)
theory Process
  imports Goroutines
begin

text \<open>
  The process around the goroutines: the topics \<open>main\<close> subscribes to, and what is left after a signal.
\<close>

section \<open>The subscription\<close>

definition subscribed_topics :: "keccak \<Rightarrow> string list" where
  "subscribed_topics kc =
     [TopicReserveDataUpdated kc, TopicSupply kc, TopicWithdraw kc, TopicBorrow kc, TopicRepay kc,
      TopicLiquidationCall kc, TopicCollateralEnabled kc, TopicCollateralDisabled kc, TopicUserEModeSet kc]"

text \<open>The log engine acts only on logs it has subscribed to.\<close>

lemma acts_on_subscribed: "begin_log kc l \<noteq> LogDone \<Longrightarrow> log_Topics l ! 0 \<in> set (subscribed_topics kc)"
  by (auto simp: begin_log_def subscribed_topics_def Let_def split: if_splits)

section \<open>After a signal\<close>

text \<open>Everybody has left.\<close>

definition all_left :: "system \<Rightarrow> bool" where
  "all_left g \<longleftrightarrow> go_done g \<and> go_workers g = [] \<and> \<not> go_watching g \<and> go_targets g = [] \<and> \<not> go_feeding g \<and>
     go_feeder g = FeederIdle \<and> go_engine g \<in> {Stopped, Ended}"

lemma left_engine: "pc \<in> {Stopped, Ended} \<Longrightarrow> engine_section kc ordF ord e pc c v = (pc, c, v)"
  by auto

lemma left_step:
  assumes "step E w e g g'" and "all_left g"
  shows "all_left g' \<and> go_store g' = go_store g \<and> go_queue g' = go_queue g \<and> go_sent g' = go_sent g \<and>
    (\<exists>new. go_dumps g' = go_dumps g @ new \<and> (\<forall>d \<in> set new. \<exists>ordS. d = dump_snapshot ordS (go_store g)))"
  using assms(1)
proof (cases rule: step.cases)
  case (go_engine ordF ord pc c v)
  then have "pc = go_engine g" "v = go_view g" using left_engine assms(2) by (auto simp: all_left_def)
  then show ?thesis using go_engine(2) assms(2) by (simp add: all_left_def)
qed (use assms(2) in \<open>auto simp: all_left_def\<close>)

text \<open>
  Once every goroutine has left after a signal the state is final: store, queue and transactions never change
  again, and every snapshot written from then on, the one of the shutdown among them, shows this store.
\<close>

lemma final_snapshot_is_final:
  "run E w g es g' \<Longrightarrow> all_left g \<Longrightarrow>
   all_left g' \<and> go_store g' = go_store g \<and> go_queue g' = go_queue g \<and> go_sent g' = go_sent g \<and>
     (\<exists>new. go_dumps g' = go_dumps g @ new \<and> (\<forall>d \<in> set new. \<exists>ordS. d = dump_snapshot ordS (go_store g)))"
proof (induction rule: run.induct)
  case (run_more g es g1 e g2)
  then have a: "all_left g1" "go_store g1 = go_store g" by blast+
  note s = left_step [OF run_more.hyps(2) a(1)]
  obtain n1 where n1: "go_dumps g1 = go_dumps g @ n1" "\<forall>d \<in> set n1. \<exists>ordS. d = dump_snapshot ordS (go_store g)"
    using run_more by blast
  obtain n2 where n2: "go_dumps g2 = go_dumps g1 @ n2" "\<forall>d \<in> set n2. \<exists>ordS. d = dump_snapshot ordS (go_store g)"
    using s a(2) by metis
  have "go_dumps g2 = go_dumps g @ n1 @ n2" "\<forall>d \<in> set (n1 @ n2). \<exists>ordS. d = dump_snapshot ordS (go_store g)"
    using n1 n2 by auto
  then show ?case using run_more s by metis
qed auto

end
