(* ===== verification/Justified.thy ===== *)
theory Justified
  imports Freshness
begin

text \<open>
  Why a worker sends. Whatever the goroutines do, a worker reaches the call of \<open>SendLiquidation\<close> for a user only
  after its own sum put the user below 1 with a debt of at least one dollar, a node confirmed this for the block the
  sum belongs to, and the strategy found a recipe with a profit in the store of that moment.
\<close>

section \<open>Earlier states of a run\<close>

definition passed :: "chain_env set \<Rightarrow> wiring \<Rightarrow> system \<Rightarrow> system \<Rightarrow> (system \<Rightarrow> bool) \<Rightarrow> bool" where
  "passed E w g0 g P \<longleftrightarrow> (\<exists>es1 h es2. run E w g0 es1 h \<and> run E w h es2 g \<and> P h)"

lemma passed_now: "run E w g0 es g \<Longrightarrow> P g \<Longrightarrow> passed E w g0 g P"
  unfolding passed_def using run_stop by blast

lemma passed_step: "passed E w g0 g P \<Longrightarrow> step E w e g g' \<Longrightarrow> passed E w g0 g' P"
  unfolding passed_def using run_more by blast

text \<open>The store stood at block \<open>b\<close>; the snapshot was the sum over a position of \<open>u\<close>; the recipe was the strategy's choice.\<close>

definition stood :: "u64 \<Rightarrow> system \<Rightarrow> bool" where
  "stood b h \<longleftrightarrow> GetCurrentBlock (go_store h) = b"

definition summed :: "string \<Rightarrow> risk_snapshot \<Rightarrow> system \<Rightarrow> bool" where
  "summed u snap h \<longleftrightarrow> (\<exists>v user ord f c. position_at (go_memory h) u v = Some user \<and>
     hf_of_position ord (go_store h) user f c (CalculatedAtBlock snap) = Some snap)"

definition planned :: "string \<Rightarrow> user_account_data \<Rightarrow> liquidation_recipe \<Rightarrow> system \<Rightarrow> bool" where
  "planned u acct rec h \<longleftrightarrow> (\<exists>v pos ord. position_at (go_memory h) u v = Some pos \<and>
     CalculateOptimalRecipe ord (go_store h) u pos (acct_HealthFactor acct) = Inr (Some rec))"

section \<open>What a worker has established\<close>

definition at_risk :: "((system \<Rightarrow> bool) \<Rightarrow> bool) \<Rightarrow> string \<Rightarrow> risk_snapshot \<Rightarrow> bool" where
  "at_risk past u snap \<longleftrightarrow> past (stood (CalculatedAtBlock snap)) \<and> past (summed u snap) \<and>
     minDebtThreshold \<le> TotalDebtBase snap \<and> snap_HealthFactor snap < HFLiquidationThreshold"

definition confirmed :: "((system \<Rightarrow> bool) \<Rightarrow> bool) \<Rightarrow> chain_env set \<Rightarrow> string \<Rightarrow> user_account_data \<Rightarrow> bool" where
  "confirmed past E u acct \<longleftrightarrow> (\<exists>snap. at_risk past u snap \<and>
     (\<exists>env \<in> E. \<exists>s pos. FetchUserPosition_at env s u (CalculatedAtBlock snap) = Inr (Some (acct, pos))))"

fun justified :: "((system \<Rightarrow> bool) \<Rightarrow> bool) \<Rightarrow> chain_env set \<Rightarrow> worker_pc \<Rightarrow> bool" where
  "justified past E (Total rd u v v' f c b) \<longleftrightarrow> past (stood b)"
| "justified past E (ReadConfigs u snap) \<longleftrightarrow> at_risk past u snap"
| "justified past E (AskPosition u snap s) \<longleftrightarrow> at_risk past u snap"
| "justified past E (Replace u acct pos) \<longleftrightarrow> confirmed past E u acct"
| "justified past E (Search u acct v) \<longleftrightarrow> confirmed past E u acct \<and> acct_HealthFactor acct < HFLiquidationThreshold"
| "justified past E (Send u acct rec) \<longleftrightarrow> confirmed past E u acct \<and> acct_HealthFactor acct < HFLiquidationThreshold \<and>
     past (planned u acct rec) \<and> 0 < ExpectedProfitUSD rec"
| "justified past E pc \<longleftrightarrow> True"

lemma justified_mono:
  assumes "justified past E pc" and "\<And>P. past P \<Longrightarrow> past' P"
  shows "justified past' E pc"
  using assms by (cases pc) (auto simp: at_risk_def confirmed_def)

lemma after_sum_risk:
  assumes "\<And>snap. x = Some snap \<Longrightarrow> past (stood (CalculatedAtBlock snap)) \<and> past (summed u snap)"
  shows "justified past E (after_sum rd u v f x)"
  using assms by (auto simp: after_sum_def judge_def at_risk_def split: option.split)

lemma section_justified:
  assumes "worker_section ords env txenv ex now pc (go_memory g) r = Inr (pc', m', sent, r')" and "env \<in> E"
    and "justified past E pc" and now: "\<And>P. P g \<Longrightarrow> past P"
  shows "justified past E pc'"
proof (cases pc)
  case (Look u)
  then show ?thesis using goto_pc [OF assms(1) [unfolded Look worker_section.simps]] by (simp split: option.split)
next
  case (Copy rd u v f c)
  then show ?thesis using goto_pc [OF assms(1) [unfolded Copy worker_section.simps]] by (simp split: option.split)
next
  case (Height rd u v v' f c)
  then show ?thesis using goto_pc [OF assms(1) [unfolded Height worker_section.simps]] now by (simp add: stood_def)
next
  case (Total rd u v v' f c b)
  let ?x = "case position_at (go_memory g) u v' of None \<Rightarrow> None
    | Some user \<Rightarrow> hf_of_position (ords (if rd = First then 0 else 1)) (go_store g) user f c b"
  have b: "past (stood b)" using assms(3) Total by simp
  have "past (stood (CalculatedAtBlock snap)) \<and> past (summed u snap)" if x: "?x = Some snap" for snap
  proof -
    obtain user where p: "position_at (go_memory g) u v' = Some user"
      and h: "hf_of_position (ords (if rd = First then 0 else 1)) (go_store g) user f c b = Some snap"
      using x by (cases "position_at (go_memory g) u v'") auto
    have c: "CalculatedAtBlock snap = b" using hf_of_position_block [OF h] .
    then have "summed u snap g" unfolding summed_def using p h by blast
    then show ?thesis using b c now by simp
  qed
  then show ?thesis using goto_pc [OF assms(1) [unfolded Total worker_section.simps]] after_sum_risk by simp
next
  case (AskMode u v)
  obtain a where a: "pc' = (case a of None \<Rightarrow> File u None | Some catId \<Rightarrow> if catId > 0 then LookCategory u v catId else PutMode u v catId)"
    using bind_goto_pc [OF assms(1) [unfolded AskMode worker_section.simps]] by blast
  show ?thesis unfolding a by (simp split: option.split)
next
  case (AskCategory u v c)
  obtain a where a: "pc' = (case a of None \<Rightarrow> File u None | Some catConfig \<Rightarrow> PutCategory u v c catConfig)"
    using bind_goto_pc [OF assms(1) [unfolded AskCategory worker_section.simps]] by blast
  show ?thesis unfolding a by (simp split: option.split)
next
  case (AskPosition u snap s)
  obtain a where a: "FetchUserPosition_at env s u (CalculatedAtBlock snap) = Inr a"
    "pc' = (case a of None \<Rightarrow> Idle | Some (acct, pos) \<Rightarrow> Replace u acct pos)"
    using assms(1) by (auto simp: AskPosition goto_def bind_outcome_Inr_iff)
  show ?thesis
  proof (cases a)
    case (Some ap)
    obtain acct pos where ap: "ap = (acct, pos)" by (cases ap)
    have "FetchUserPosition_at env s u (CalculatedAtBlock snap) = Inr (Some (acct, pos))" "at_risk past u snap"
      using a(1) Some ap assms(3) AskPosition by simp_all
    then have "confirmed past E u acct" unfolding confirmed_def using assms(2) by blast
    then show ?thesis using a(2) Some ap by simp
  qed (use a in simp)
next
  case (Search u acct v)
  obtain pos recipe where p: "position_at (go_memory g) u v = Some pos"
    "CalculateOptimalRecipe (ords 2) (go_store g) u pos (acct_HealthFactor acct) = Inr recipe"
    and a: "pc' = (case recipe of None \<Rightarrow> Cool u acct noProfitCooldown
      | Some rec \<Rightarrow> if ExpectedProfitUSD rec > 0 then Send u acct rec else Cool u acct noProfitCooldown)"
    using assms(1) by (auto simp: Search goto_def bind_outcome_Inr_iff split: option.splits)
  have "past (planned u acct rec)" if "recipe = Some rec" for rec
    using now [of "planned u acct rec"] p that by (auto simp: planned_def)
  then show ?thesis using a assms(3) Search by (auto split: option.split)
next
  case (Send u acct rec)
  then show ?thesis using assms(1) by (auto split: prod.splits option.splits)
next
  case (File u hf)
  then show ?thesis using assms(1) by (auto simp: goto_def bind_outcome_Inr_iff)
qed (use assms(1,3) in \<open>auto simp: goto_def\<close>)

definition all_justified :: "chain_env set \<Rightarrow> wiring \<Rightarrow> system \<Rightarrow> system \<Rightarrow> bool" where
  "all_justified E w g0 g \<longleftrightarrow> (\<forall>i < length (go_workers g). justified (passed E w g0 g) E (go_workers g ! i))"

lemma justified_step:
  assumes "run E w g0 es g" and "step E w e g g'" and "all_justified E w g0 g"
  shows "all_justified E w g0 g'"
proof -
  have old: "justified (passed E w g0 g') E (go_workers g ! i)" if "i < length (go_workers g)" for i
    using assms(3) that passed_step [OF _ assms(2)] justified_mono unfolding all_justified_def by blast
  from assms(2) show ?thesis
  proof (cases rule: step.cases)
    case (go_take i u q)
    then show ?thesis using old by (auto simp: all_justified_def nth_list_update)
  next
    case (go_work i env ords now pc m sent r)
    have "justified (passed E w g0 g) E pc"
      by (rule section_justified [OF go_work(5,4)]) (use assms(3) go_work(3) passed_now [OF assms(1)] in \<open>auto simp: all_justified_def\<close>)
    then have "justified (passed E w g0 g') E pc" using passed_step [OF _ assms(2)] justified_mono by blast
    then show ?thesis using old go_work(2,3) by (auto simp: all_justified_def nth_list_update)
  next
    case (go_leave i)
    have "\<exists>k < length (go_workers g). go_workers g' ! j = go_workers g ! k" if "j < length (go_workers g')" for j
      using nth_without [of i "go_workers g" j] go_leave(2,4) that by simp
    then show ?thesis using old by (fastforce simp: all_justified_def)
  qed (use old in \<open>simp_all add: all_justified_def\<close>)
qed

lemma justified_run: "run E w g0 es g \<Longrightarrow> all_justified E w g0 g0 \<Longrightarrow> all_justified E w g0 g"
  by (induction rule: run.induct) (auto intro: justified_step)

text \<open>
  C23: a liquidation is only sent for a user the chain has confirmed. In every run, when a worker is about to call
  \<open>SendLiquidation\<close>, the run has passed a state in which the bot's own sum over a position of the user was a health factor
  below 1 and a debt of at least one dollar, and one in which the store stood at the block \<open>b\<close> noted with this sum;
  one of the nodes reported for the block \<open>b\<close> an account with a health factor below 1; and the run has passed a
  state in which the strategy, for the reported health factor, chose this recipe, which has a positive profit.
\<close>

theorem sends_are_justified:
  assumes "run E w (launched n b) es g" and "i < length (go_workers g)" and "go_workers g ! i = Send u acct rec"
  shows "\<exists>snap env s pos. env \<in> E \<and>
    FetchUserPosition_at env s u (CalculatedAtBlock snap) = Inr (Some (acct, pos)) \<and>
    acct_HealthFactor acct < 1000000000000000000 \<and>
    100000000 \<le> TotalDebtBase snap \<and> snap_HealthFactor snap < 1000000000000000000 \<and>
    passed E w (launched n b) g (\<lambda>h. GetCurrentBlock (go_store h) = CalculatedAtBlock snap) \<and>
    passed E w (launched n b) g (\<lambda>h. \<exists>v user ord f c. position_at (go_memory h) u v = Some user \<and>
      hf_of_position ord (go_store h) user f c (CalculatedAtBlock snap) = Some snap) \<and>
    passed E w (launched n b) g (\<lambda>h. \<exists>v p ord. position_at (go_memory h) u v = Some p \<and>
      CalculateOptimalRecipe ord (go_store h) u p (acct_HealthFactor acct) = Inr (Some rec)) \<and>
    0 < ExpectedProfitUSD rec"
proof -
  have "all_justified E w (launched n b) (launched n b)" by (simp add: all_justified_def)
  from justified_run [OF assms(1) this] have j: "justified (passed E w (launched n b) g) E (Send u acct rec)"
    using assms(2,3) by (fastforce simp: all_justified_def)
  then show ?thesis
    unfolding justified.simps confirmed_def at_risk_def stood_def summed_def planned_def minDebtThreshold_def
      HFLiquidationThreshold_def WAD_def by auto
qed

section \<open>Witnesses\<close>

text \<open>A market in which the example user is below 1: a run of a worker to the call and through it.\<close>

definition low_store :: state_store where
  "low_store = subscribe ''a'' ''u'' (pair_store 60000000 10500)"

definition confirming :: chain_env where
  "confirming = (toy_chain_env 0)\<lparr>FetchUserPosition_at := \<lambda>s u b. Inr (Some
     (\<lparr>acct_TotalCollateralBase = 0, acct_TotalDebtBase = 0, acct_HealthFactor = 990000000000000000\<rparr>, pair_position))\<rparr>"

lemma low_runs:
  "\<exists>es g acct rec. run UNIV toy_wiring (launched 2 (toy_bot low_store [])) es g \<and> go_workers g = [Send ''u'' acct rec, Idle] \<and>
     go_sent g = [] \<and> go_rpc g = toy_client"
proof -
  let ?b = "toy_bot low_store []" and ?o = "NewOracleFeeder ''0xO'' [''a'']"
  let ?g = "launched 2 ?b"
  let ?t = "SetAssetPrice ''a'' 7 low_store"
  have p: "fetchPrices toy_oracle toy_oracle_port ?o = Some [7]" by code_simp
  have "GetAssetPrice low_store ''a'' \<noteq> Some 7" by code_simp
  then have sp: "store_prices [''a''] [7] low_store = (?t, [''a''])" by (simp add: store_prices_def price_step_def)
  have e: "EnqueueByAsset [''u''] ?t ''a'' [] = [''u'']" by code_simp
  have tg: "targetAssets ?o = [''a'']" by (simp add: NewOracleFeeder_def)
  obtain ok t where f: "fetchAndStorePrices (\<lambda>_. [''u'']) toy_oracle toy_oracle_port ?o low_store [] = (ok, t, [''u''])" and t: "t = ?t"
    by (simp add: fetchAndStorePrices_def p tg sp e)
  obtain es m where m: "mm_store m = t" and r1: "run UNIV toy_wiring ?g es (?g\<lparr>go_memory := m, go_queue := [''u''], go_ready := True\<rparr>)"
    using heartbeat_runs [of toy_wiring toy_oracle_port "[7]" "\<lambda>_. [''u'']" ?g ok t "[''u'']" UNIV] p f by auto
  let ?g1 = "?g\<lparr>go_memory := m, go_queue := [''u''], go_ready := True\<rparr>"
  let ?g2 = "?g1\<lparr>go_queue := [], go_workers := [Look ''u'', Idle]\<rparr>"
  have "step UNIV toy_wiring (Takes ''u'') ?g1 (?g1\<lparr>go_queue := [], go_workers := (go_workers ?g1)[0 := Look ''u'']\<rparr>)"
    by (rule go_take) (simp_all add: numeral_2_eq_2)
  then have r2: "step UNIV toy_wiring (Takes ''u'') ?g1 ?g2" by (simp add: numeral_2_eq_2)
  have pos: "userPositions t ''u'' = Some pair_position" "EModeFetched pair_position" "EModeCategoryId pair_position = 0"
    by (simp_all add: t low_store_def SetAssetPrice_def subscribe_def pair_position_def pair_store_def)
  have c: "case computeHFMath [''c'', ''d''] ?t ''u'' True 0 of None \<Rightarrow> False | Some sn \<Rightarrow>
      \<not> TotalDebtBase sn < minDebtThreshold \<and> snap_HealthFactor sn < HFLiquidationThreshold" by code_simp
  then obtain snap where snap: "computeHFMath [''c'', ''d''] t ''u'' True 0 = Some snap" "\<not> TotalDebtBase snap < minDebtThreshold"
    "snap_HealthFactor snap < HFLiquidationThreshold" unfolding t by (auto split: option.splits)
  let ?acct = "\<lparr>acct_TotalCollateralBase = 0, acct_TotalDebtBase = 0, acct_HealthFactor = 990000000000000000\<rparr>"
  let ?run = "\<lambda>n pc m. run_worker n (\<lambda>_. [''c'', ''d'']) confirming toy_tx_env toy_executor 100 pc m toy_client"
  have ask: "?run 5 (Look ''u'') m = Inr (AskPosition ''u'' snap t, m, [], toy_client)"
    using asks_position [of m "''u''" pair_position "\<lambda>_. [''c'', ''d'']" snap] pos snap m by simp
  let ?m = "replace_position ''u'' pair_position m"
  have r: "case CalculateOptimalRecipe [''c'', ''d''] (put_position ''u'' pair_position ?t) ''u'' pair_position 990000000000000000 of
      Inr (Some rec) \<Rightarrow> 0 < ExpectedProfitUSD rec | _ \<Rightarrow> False" by code_simp
  then obtain rec where rec: "CalculateOptimalRecipe [''c'', ''d''] (put_position ''u'' pair_position ?t) ''u'' pair_position 990000000000000000 =
      Inr (Some rec)" "0 < ExpectedProfitUSD rec" by (auto split: sum.splits option.splits)
  have at: "position_at ?m ''u'' (Suc (mm_version m ''u'')) = Some pair_position" by (simp add: position_at_def put_position_def)
  have low: "990000000000000000 < HFLiquidationThreshold" by (simp add: HFLiquidationThreshold_def WAD_def)
  have both: "?run 3 (AskPosition ''u'' snap t) m = Inr (Send ''u'' ?acct rec, ?m, [], toy_client)"
    using rec at low m t by (simp add: eval_nat_numeral goto_def confirming_def)
  have c2: "go_rpc ?g2 = toy_client" by (simp add: launched_def)
  let ?g3 = "?g2\<lparr>go_memory := m, go_rpc := toy_client, go_sent := go_sent ?g2 @ [],
    go_workers := (go_workers ?g2)[0 := AskPosition ''u'' snap t]\<rparr>"
  have r3: "run UNIV toy_wiring ?g2 (replicate 5 Silent) ?g3"
    by (rule worker_alone_runs [where ords = "\<lambda>_. [''c'', ''d'']" and env = confirming and now = 100]) (use ask c2 in simp_all)
  let ?g4 = "?g3\<lparr>go_memory := ?m, go_rpc := toy_client, go_sent := go_sent ?g3 @ [],
    go_workers := (go_workers ?g3)[0 := Send ''u'' ?acct rec]\<rparr>"
  have r4: "run UNIV toy_wiring ?g3 (replicate 3 Silent) ?g4"
    by (rule worker_alone_runs [where ords = "\<lambda>_. [''c'', ''d'']" and env = confirming and now = 100]) (use both in simp_all)
  have "run UNIV toy_wiring ?g (es @ Takes ''u'' # (replicate 5 Silent @ replicate 3 Silent)) ?g4"
    by (rule run_trans [OF r1 run_then [OF r2 run_trans [OF r3 r4]]])
  moreover have "go_workers ?g4 = [Send ''u'' ?acct rec, Idle]" "go_sent ?g4 = []" "go_rpc ?g4 = toy_client" by simp_all
  ultimately show ?thesis by blast
qed

theorem sends_are_justified_witness:
  "\<exists>es g acct rec. run UNIV toy_wiring (launched 2 (toy_bot low_store [])) es g \<and> go_workers g ! 0 = Send ''u'' acct rec \<and>
     acct_HealthFactor acct < 1000000000000000000 \<and> 0 < ExpectedProfitUSD rec"
proof -
  obtain es g acct rec where g: "run UNIV toy_wiring (launched 2 (toy_bot low_store [])) es g"
    "go_workers g = [Send ''u'' acct rec, Idle]" using low_runs by blast
  have i: "0 < length (go_workers g)" "go_workers g ! 0 = Send ''u'' acct rec" using g(2) by simp_all
  from sends_are_justified [OF g(1) i] have "acct_HealthFactor acct < 1000000000000000000" "0 < ExpectedProfitUSD rec" by blast+
  then show ?thesis using g(1) i(2) by blast
qed

text \<open>The same run goes on through \<open>SendLiquidation\<close>: the worker cools the user down, and nothing was sent.\<close>

theorem no_interleaving_broadcasts_witness:
  "\<exists>es g acct seconds. run UNIV toy_wiring (launched 2 (toy_bot low_store [])) es g \<and>
     go_workers g = [Cool ''u'' acct seconds, Idle] \<and> go_sent g = []"
proof -
  have "\<not> is_revert ''context canceled''" by code_simp
  then have e: "\<exists>e. EstimateGas (node_at (w_txenv toy_wiring) i url) True msg = Inl e \<and> \<not> is_revert e" for i url msg
    by (simp add: toy_tx_env_def toy_node_def)
  obtain es g acct rec where g: "run UNIV toy_wiring (launched 2 (toy_bot low_store [])) es g"
    "go_workers g = [Send ''u'' acct rec, Idle]" "go_rpc g = toy_client" using low_runs by blast
  obtain err tx r' where s: "SendLiquidation toy_tx_env True toy_executor rec toy_client = (err, tx, r')" by (metis prod_cases3)
  have "\<exists>e. EstimateGas (node_at toy_tx_env i url) True msg = Inl e \<and> \<not> is_revert e" for i url msg
    using e by simp
  then have t: "tx = None" by (rule send_done [OF _ s])
  have "err \<noteq> None" using s unfolding t by (auto simp: SendLiquidation_def split: option.splits sum.splits prod.splits if_splits)
  then obtain er where er: "err = Some er" by blast
  have w: "worker_section (\<lambda>_. []) confirming (w_txenv toy_wiring) (w_executor toy_wiring) 100 (go_workers g ! 0) (go_memory g) (go_rpc g) =
      Inr (Cool ''u'' acct liquidationCooldown, go_memory g, [], r')" using s t er g(2,3) by simp
  have "step UNIV toy_wiring Silent g (g\<lparr>go_memory := go_memory g, go_rpc := r', go_sent := go_sent g @ [],
      go_workers := (go_workers g)[0 := Cool ''u'' acct liquidationCooldown]\<rparr>)"
    by (rule go_work [OF _ _ w]) (use g(2) in simp_all)
  from run_more [OF g(1) this] obtain es' g' where g': "run UNIV toy_wiring (launched 2 (toy_bot low_store [])) es' g'"
    "go_workers g' = [Cool ''u'' acct liquidationCooldown, Idle]" using g(2) by fastforce
  show ?thesis using g' no_interleaving_broadcasts [OF e g'(1)] by blast
qed

end
