(* ===== verification/Spec2Isabelle.thy ===== *)
theory Spec2Isabelle
  imports Undisturbed WellKeyed Process Justified
begin

text \<open>
  A model of the Aave V3 flash-loan liquidation bot (Go) and the theorems that make it correct.

  The program. The bot mirrors the borrowers of an Aave V3 pool in memory, computes their health factors
  and sends a flash-loan liquidation when one falls below 1 and a profit is left. At the start
  \<open>internal/rpc/bootstrapper.go\<close> loads a snapshot: the anchor block and the borrowers from The Graph
  (\<open>graph_client.go\<close>), indices, reserve and E-Mode parameters from the chain (\<open>multicall.go\<close>,
  \<open>onchain_call.go\<close>) through a pool of nodes (\<open>rpc.go\<close>). \<open>internal/engine/log_replay_engine.go\<close> replays
  the pool's logs from the anchor to the newest block and then the live stream onto the store
  (\<open>internal/store\<close>). \<open>internal/oracle/oracle.go\<close> polls the prices. A log, a changed price and the
  watchdog put users into the task queue of \<open>internal/engine/risk_engine.go\<close>; its workers compute the
  health factor, keep the users at risk in a heap, fetch the position of a liquidatable user from the
  chain, ask \<open>strategy_engine.go\<close> for the best pair of assets and give it to \<open>tx_executor.go\<close>, which
  simulates, signs and broadcasts with the pool fee chosen by \<open>internal/dex/fee_cache.go\<close>.

  The theories. First the components, each operation as one step.
  \<^item> Prelude, GoStd: outcomes with panics, maps visited in the order of a list, the parts of Go's standard
    library in use (\<open>math/big\<close>, \<open>strings\<close>, \<open>strconv\<close>, \<open>encoding/json\<close> strings).
  \<^item> RayMath: \<open>pkg/math\<close> and \<open>pkg/conv\<close>. Rounding, \<open>RayMul\<close> and \<open>RayDiv\<close> as inverses, ABI words.
  \<^item> Models: the structs of \<open>internal/models\<close>. Store: \<open>internal/store\<close>, every method, and the invariant
    that the subscriber sets know every holder of a reserve.
  \<^item> GoHeap, RiskHeap: \<open>container/heap\<close> over an interface of \<open>Len\<close>, \<open>Less\<close>, \<open>Swap\<close>, \<open>Push\<close>, \<open>Pop\<close> (a locale with
    the heap laws), interpreted on the bot's heap of shared items with stored positions.
  \<^item> HealthFactor: \<open>computeHFMath\<close>. Its loop over the reserve map in any order is a sum; the rounded test
    against 1 is the exact one; monotonicity.
  \<^item> Strategy: \<open>CalculateOptimalRecipe\<close>. Limits of the protocol (close factor, leftovers), of the position and
    of the profit, optimality among the candidates, and the exact condition of its division by zero.
  \<^item> RiskBook: \<open>updateHeap\<close> as a refinement of a map from users to health factor and cooldown.
  \<^item> Multicall, FeeCache, RpcClient: the shapes of an \<open>eth_call\<close>, revert reasons; the deepest pool of every
    pair; rotation and retries of the nodes. TxExecutor: \<open>SendLiquidation\<close>, with the parameters of the contract
    call field by field.
  \<^item> RiskEngine: queue, watchdog, lazy E-Mode loading and the task of a worker.
  \<^item> Ledger, Replay, ReplaySync, ReplayLedger: the view of the store as balances, debts, flags, E-Modes
    and indices; every log handler; the historic fetch and the hand-over to the live stream; the meaning
    of a log on the ledger, which \<open>processLog\<close> refines.
  \<^item> ChainData: what is read from the chain (bitmap fields, multicall batches, verified positions).
    GraphClient, Bootstrap: the paging of The Graph and the snapshot. Oracle: the price feeder.
    Config: \<open>internal/config\<close>.

  Then the goroutines.
  \<^item> Interleaving: what every locked section of the store keeps of the heap. Bot: workers, watchdog, price
    feeder and log engine as one transition system whose steps are whole tasks, logs and heartbeats. Startup:
    \<open>cmd/bot/main.go\<close> up to the goroutines.
  \<^item> Objects: the position objects behind the store's map, with a version for every replacement, so that a
    pointer kept across two sections may be stale; a locale of the relations that every section keeps,
    interpreted on the paths of sections, the block height and the subscriptions. Worker, LogSections: a task and
    a log handler cut wherever the code releases the lock, with a program counter, and the proofs that without
    interference they are the one step of RiskEngine and Replay.
  \<^item> Goroutines: the system of all goroutines section by section (workers, watchdog, feeder, stream reader, log
    engine, snapshot timer, shutdown), its events and its runs; safety of the heap, of the channels and of the
    broadcasts in every run. Process: subscription and shutdown.
  \<^item> Freshness: the positions that workers fetch and store: when they do no harm, which logs they lose, and what
    stays wrong. TouchedUsers: every change of a position is offered to the workers. WellKeyed: the keys of the maps
    in every run. Justified: what must have happened before a worker sends. Undisturbed: in every run, what the
    store knows of a user whose position no worker replaced.

  Below, the parts come together: from the snapshot through the history to the live stream, in every interleaving,
  an undisturbed user is the chain's.

  Conventions. Go's \<open>big.Int\<close> is \<open>int\<close>; \<open>uint64\<close> and \<open>uint8\<close> are words and wrap. A pointer that may be nil is an
  option. A panic is \<open>Inl\<close> of an outcome, a returned error an option or an error value. A map is visited
  in the order of a list argument, quantified in the theorems. Objects shared by pointer live in a memory from
  addresses (the heap's items) or versions (positions) to records. Loops that may run forever (paging, chunked
  fetch) are \<open>partial_function (option)\<close>, so returning is a conclusion of their theorems; retry loops
  count down from the constants of the code (three attempts at the chain and at The Graph), which are the code's own
  bounds. The 19 sections of \<open>run_worker\<close> are the longest path through a task. No other fuel is used.

  Parameters. Keccak-256, ABI packing and unpacking of go-ethereum, the signature, the JSON-RPC nodes,
  The Graph, the environment and the clock are arguments; what a theorem needs of them is a named
  predicate (\<open>serves\<close>, \<open>serves_users\<close>, \<open>chain_reads\<close>, and the like) with an instance in the witness.

  Abstractions. Methods under the store's lock are one step each; what a goroutine reads without the lock is read
  in the section before. Requests of goroutines other than the workers enter only as moves of the shared node
  counter and as answers. \<open>sort.Sort\<close> is a stable sort, which is its only result when positions are distinct.
  Context cancellation enters as flags and as events where the code tests it. Strings are byte strings;
  \<open>TrimSpace\<close> is for ASCII.

  Not modelled: logging and the float formatters \<open>FormatUSD\<close> and \<open>FormatHF\<close> (only logged), the banner, the writing
  of the JSON file of a snapshot (its content is), HTTP and WebSocket transport and JSON decoding (what they deliver is
  an argument), the embedded ABI files (\<open>pkg/abis\<close>), the periods of tickers and sleeping, and the Solidity contract.
\<close>

section \<open>From the snapshot to the live state\<close>

definition snapshot_ledger :: "graph_user list \<Rightarrow> (string \<rightharpoonup> global_index) \<Rightarrow> ledger" where
  "snapshot_ledger users indices =
     (let entry = (\<lambda>u a. map_of (rev (graph_entries users)) (u, a)) in
      \<lparr>lg_supplied = (\<lambda>u a. case entry u a of None \<Rightarrow> 0 | Some r \<Rightarrow> ScaledATokenBalance r),
       lg_debt = (\<lambda>u a. case entry u a of None \<Rightarrow> 0 | Some r \<Rightarrow> ScaledVariableDebt r),
       lg_collateral = (\<lambda>u a. case entry u a of None \<Rightarrow> False | Some r \<Rightarrow> UsageAsCollateralEnabledOnUser r),
       lg_emode = map_of (rev (graph_emodes users)), lg_index = indices\<rparr>)"

lemma bootstrap_ledger:
  assumes "Run env ords assets NewStateStore = Inr (None, s)"
    and "be_anchor env = Some b" and "be_users env b = Some users"
  shows "ledger_of s = snapshot_ledger users (globalIndices s)"
proof -
  have e: "reserve_at s u a = map_of (rev (graph_entries users)) (u, a)" for u a
    using bootstrap_snapshot [OF assms] by blast
  have m: "lg_emode (ledger_of s) = map_of (rev (graph_emodes users))"
    using bootstrap_snapshot [OF assms] by (intro ext) blast
  have "ledger_of s = snapshot_ledger users (globalIndices s)\<lparr>lg_emode := lg_emode (ledger_of s)\<rparr>"
    by (simp add: ledger_of_def snapshot_ledger_def Let_def e)
  then show ?thesis by (simp add: m snapshot_ledger_def Let_def)
qed

lemma started_ledger:
  assumes "main_start x env = Inr (Some (w, b))" and "gr_anchor (x_graph x) = Some m"
    and "graph_users (x_graph x) m = Some users"
  shows "ledger_of (bot_store b) = snapshot_ledger users (globalIndices (bot_store b))" and "anchorBlock (bot_store b) = m"
proof -
  obtain cfg r assets s where "LoadConfig (x_IsHexAddress x) (x_HexToAddress x) env = Some cfg"
    and run: "Run (boot_env_of (x_graph x) (x_aave x) (x_port x) (Multicall3 cfg) (AaveV3Pool cfg)) (x_orders x) assets NewStateStore = Inr (None, s)"
    and b: "b = launch s r"
    by (rule main_startE [OF assms(1)]) (rule that)
  let ?env = "boot_env_of (x_graph x) (x_aave x) (x_port x) (Multicall3 cfg) (AaveV3Pool cfg)"
  have "\<exists>m. be_anchor ?env = Some m" using run by (rule RunD) blast
  then have n: "be_anchor ?env = Some m" using assms(2) by (auto simp: GetAnchorBlock_def split: if_splits)
  have us: "be_users ?env m = Some users" using assms(3) by simp
  have s: "bot_store b = s" by (simp add: b launch_def NewLogReplayEngine_def bootstrap_heap [OF run])
  show "ledger_of (bot_store b) = snapshot_ledger users (globalIndices (bot_store b))"
    unfolding s by (rule bootstrap_ledger [OF run n us])
  show "anchorBlock (bot_store b) = m" unfolding s by (rule bootstrap_anchor [OF run n])
qed

lemma history_of:
  assumes "serves getLogs logs_of" and "unat bWs + 10 < 2 ^ 64" and "unat (m :: u64) + 1 < 2 ^ 64"
    and "\<And>n l. l \<in> set (logs_of n) \<Longrightarrow> unat (log_block l) = n"
    and "\<And>n. sorted (map (\<lambda>l. unat (log_idx l)) (logs_of n))"
    and "fetchHistoricLogs getLogs (m + 1) bWs = Some (Some logs)"
  shows "sort_logs logs = concat (map logs_of [Suc (unat m)..<Suc (unat bWs)])"
proof -
  have "unat (m + 1) = Suc (unat m)" using assms(3) by (simp add: unat_word_ariths)
  then have "logs = concat (map logs_of [Suc (unat m)..<Suc (unat bWs)])"
    using fetchHistoricLogs_covers [OF assms(1,2), of "m + 1"] assms(6) by (simp only: option.inject)
  then show ?thesis by (simp only:) (rule sort_logs_id [OF sorted_block_logs], use assms(4,5) in auto)
qed

text \<open>\<open>Start\<close> as one step, with nobody else running: the whole ledger, E-Modes included, is the history's.\<close>

lemma start_sync_ledger:
  assumes "anchorBlock (rp_store st) = m" and "serves getLogs logs_of" and "fetchLatestBlock latestBlock = Some bWs"
    and "unat bWs + 10 < 2 ^ 64" and "unat m + 1 < 2 ^ 64"
    and "\<And>n l. l \<in> set (logs_of n) \<Longrightarrow> unat (log_block l) = n"
    and "\<And>n. sorted (map (\<lambda>l. unat (log_idx l)) (logs_of n))"
  shows "\<exists>st'. start_sync kc getLogs latestBlock oF oS ordF st = Some (Some st') \<and>
    ledger_of (rp_store st') =
      logs_on kc (concat (map logs_of [Suc (unat m)..<Suc (unat bWs)])) (ledger_of (rp_store st))"
proof -
  let ?logs = "concat (map logs_of [unat (m + 1)..<Suc (unat bWs)])"
  have f: "fetchHistoricLogs getLogs (m + 1) bWs = Some (Some ?logs)" by (rule fetchHistoricLogs_covers [OF assms(2,4)])
  have so: "sort_logs ?logs = concat (map logs_of [Suc (unat m)..<Suc (unat bWs)])"
    by (rule history_of [OF assms(2,4,5,6,7) f])
  have folds: "fold (\<lambda>(l, _, _). maybe_apply (event_of kc l)) (map (\<lambda>(i, l). (l, oF i, oS i)) (enumerate n ls)) L =
      logs_on kc ls L" for n ls L
    by (induction ls arbitrary: n L) (simp_all add: logs_on_def)
  have "start_sync kc getLogs latestBlock oF oS ordF st =
      Some (Some (catch_up kc (map (\<lambda>(i, l). (l, oF i, oS i)) (enumerate 0 (sort_logs ?logs))) ordF bWs st))"
    using assms(1,3) f by (simp add: start_sync_def)
  then show ?thesis unfolding so by (simp only: option.inject ex_simps simp_thms catch_up_ledger folds)
qed

text \<open>
  C5: a user no worker interferes with is the chain's, in every interleaving. \<open>main\<close> has started from the snapshot
  of The Graph at block \<open>m\<close>; workers, watchdog, price feeder, stream reader and log engine run section by section;
  the node serves the logs of every block in order for the history up to \<open>bWs\<close>. Whenever the engine rests in the
  live loop, the indices of all assets, and the balances, debts and collateral flags of every user whose position
  no worker has replaced, are the snapshot with the effect of every log of the blocks after \<open>m\<close> up to \<open>bWs\<close> and
  then of every log received from the stream that is newer than the one before, each once and in order. The E-Mode
  is so too if the snapshot knew it, so that no worker loads it. (For a user whose position was replaced see the
  theorems of Freshness.)
\<close>

theorem undisturbed_user_is_chain:
  assumes "main_start x env = Inr (Some (w, b))" and "gr_anchor (x_graph x) = Some m"
    and "graph_users (x_graph x) m = Some users"
    and "run E w (launched n b) es g" and "go_engine g = Syncing bWs"
    and "serves getLogs logs_of" and "fetchHistoricLogs getLogs (anchorBlock (go_store g) + 1) bWs = Some (Some logs)"
    and "run E w (g\<lparr>go_engine := Historic (sort_logs logs) bWs\<rparr>) es' g'" and "go_engine g' = Live"
    and "mm_version (go_memory g') u = 0"
    and "unat bWs + 10 < 2 ^ 64" and "unat m + 1 < 2 ^ 64"
    and "\<And>n l. l \<in> set (logs_of n) \<Longrightarrow> unat (log_block l) = n"
    and "\<And>n. sorted (map (\<lambda>l. unat (log_idx l)) (logs_of n))"
  shows "let hist = concat (map logs_of [Suc (unat m)..<Suc (unat bWs)]);
      L0 = snapshot_ledger users (globalIndices (bot_store b));
      L = fold (\<lambda>l L. case event_of (w_keccak w) l of None \<Rightarrow> L | Some e \<Rightarrow> apply_event e L)
        (hist @ accepted (handed_over bWs hist) (logs_received es')) L0 in
    ledger_row (ledger_of (go_store g')) u = ledger_row L u \<and> lg_index (ledger_of (go_store g')) = lg_index L \<and>
    (lg_emode L0 u \<noteq> None \<longrightarrow> lg_emode (ledger_of (go_store g')) u = lg_emode L u)"
proof -
  have f: "(\<lambda>l L. case event_of kc l of None \<Rightarrow> L | Some e \<Rightarrow> apply_event e L) = (\<lambda>l. maybe_apply (event_of kc l))" for kc
    by (simp add: maybe_apply_def fun_eq_iff)
  have "at_anchor (launched n b)" using started_at_anchor [OF assms(1)] by (simp add: at_anchor_def)
  from at_anchor_run [OF assms(4) this] assms(5) have "anchorBlock (go_store g) = anchorBlock (bot_store b)" by simp
  then have a: "anchorBlock (go_store g) = m" using started_ledger(2) [OF assms(1-3)] by simp
  have h: "sort_logs logs = concat (map logs_of [Suc (unat m)..<Suc (unat bWs)])"
    by (rule history_of [OF assms(6,11,12,13,14)]) (use assms(7) a in simp_all)
  from undisturbed_launch [OF assms(4,5,8,9,10)] show ?thesis
    unfolding Let_def f view_eq h [symmetric] started_ledger(1) [OF assms(1-3), symmetric] logs_on_def [symmetric]
    by (auto simp: ledger_row_def)
qed


text \<open>
  A concrete run. The bot starts from a snapshot at block 7 with one user; a log of block 8 takes the collateral
  flag away while the history up to block 9 is replayed.
\<close>

definition toy_flag :: rpc_log where
  "toy_flag = (toy_log (TopicCollateralDisabled toy_keccak) [''0xa'', ''0x5a''] ''0x'' ''0x1'')\<lparr>log_BlockNumber := ''0x8''\<rparr>"

lemma main_start_keccak: "main_start x env = Inr (Some (w, b)) \<Longrightarrow> w_keccak w = x_keccak x"
  by (auto simp: main_start_def bind_outcome_Inr_iff split: option.splits) (metis wiring.select_convs(1))

lemma bootstrap_finite:
  assumes "Run env ords assets NewStateStore = Inr (None, s)"
  shows "finite (subs_raw s a)"
proof -
  let ?P = "\<lambda>t. \<forall>a. finite (subs_raw t a)"
  obtain b reserves users s3 where r: "store_emodes env ords b users (store_reserves ords reserves (SetAnchorBlock b NewStateStore)) = Inr (Some s3)"
    "s = fold load_user users s3" using assms by (rule RunD)
  have "?P (store_reserves ords reserves (SetAnchorBlock b NewStateStore))"
    by (rule store_reserves_preserves [where P = ?P])
      (simp_all add: SetAnchorBlock_def NewStateStore_def SetGlobalIndex_def SetAssetConfig_def subs_raw_def)
  then have "?P s3"
    by (rule store_emodes_preserves [OF r(1), where P = ?P]) (simp add: SetEModeCategory_def subs_raw_def)
  then have "?P s" unfolding r(2)
    by (rule load_users_preserves [where P = ?P]) (simp_all add: store_simps)
  then show ?thesis by blast
qed

lemma flag_begins: "begin_log toy_keccak toy_flag = Acquire ''0x5a'' [] [(''0xa'', set_flag False)]"
proof -
  have t: "\<not> log_Removed toy_flag" "log_Topics toy_flag \<noteq> []" "log_Topics toy_flag ! 0 \<noteq> TopicReserveDataUpdated toy_keccak"
    "log_Topics toy_flag ! 0 \<noteq> TopicSupply toy_keccak" "log_Topics toy_flag ! 0 \<noteq> TopicWithdraw toy_keccak"
    "log_Topics toy_flag ! 0 \<noteq> TopicBorrow toy_keccak" "log_Topics toy_flag ! 0 \<noteq> TopicRepay toy_keccak"
    "log_Topics toy_flag ! 0 \<noteq> TopicLiquidationCall toy_keccak" "log_Topics toy_flag ! 0 \<noteq> TopicCollateralEnabled toy_keccak"
    "log_Topics toy_flag ! 0 = TopicCollateralDisabled toy_keccak" "\<not> length (log_Topics toy_flag) < 3"
    "ParseHexAddress (log_Topics toy_flag ! 2) = ''0x5a''" "ParseHexAddress (log_Topics toy_flag ! 1) = ''0xa''"
    by code_simp+
  show ?thesis unfolding begin_log_def Let_def begin_collateral_def using t by simp
qed

theorem undisturbed_user_is_chain_witness:
  "\<exists>w b es g es' g'. main_start toy_outside Config.toy_env = Inr (Some (w, b)) \<and>
     run UNIV w (launched 2 b) es g \<and> go_engine g = Syncing 9 \<and>
     run UNIV w (g\<lparr>go_engine := Historic (sort_logs [toy_flag]) 9\<rparr>) es' g' \<and> go_engine g' = Live \<and>
     ledger_row (ledger_of (bot_store b)) ''0x5a'' ''0xa'' = (5000, 0, True) \<and>
     ledger_row (ledger_of (go_store g')) ''0x5a'' ''0xa'' = (5000, 0, False)"
proof -
  let ?f = "\<lambda>n. if n = 8 then [toy_flag] else []"
  let ?get = "\<lambda>a b :: u64. Some (concat (map ?f [unat a..<Suc (unat b)]))"
  obtain w b where m: "main_start toy_outside Config.toy_env = Inr (Some (w, b))" using toy_started by blast
  have k: "w_keccak w = toy_keccak" using main_start_keccak [OF m] by (simp add: toy_outside_def)
  have n: "gr_anchor (x_graph toy_outside) = Some 7" by (simp add: toy_outside_def toy_graph_def)
  obtain users where u: "graph_users (x_graph toy_outside) 7 = Some users"
    and us: "users = [\<lparr>g_ID = ''0x5a'', g_EModeCategoryId = None, g_Reserves = [\<lparr>g_UnderlyingAsset = ''0xa'',
      g_ScaledATokenBalance = ''5000'', g_ScaledVariableDebt = ''3'', g_UsageAsCollateralEnabledOnUser = True\<rparr>]\<rparr>]"
    using toy_graph_users by (simp add: toy_outside_def)
  have entry: "map_option (\<lambda>r. (ScaledATokenBalance r, ScaledVariableDebt r, UsageAsCollateralEnabledOnUser r))
      (map_of (rev (graph_entries users)) (''0x5a'', ''0xa'')) = Some (5000, 0, True)" unfolding us by code_simp
  have row: "ledger_row (snapshot_ledger users i) ''0x5a'' ''0xa'' = (5000, 0, True)" for i
    using entry by (auto simp: snapshot_ledger_def ledger_row_def)
  obtain cfg r assets s where "LoadConfig (x_IsHexAddress toy_outside) (x_HexToAddress toy_outside) Config.toy_env = Some cfg"
    and run: "Run (boot_env_of (x_graph toy_outside) (x_aave toy_outside) (x_port toy_outside) (Multicall3 cfg) (AaveV3Pool cfg))
      (x_orders toy_outside) assets NewStateStore = Inr (None, s)" and b: "b = launch s r"
    by (rule main_startE [OF m]) (rule that)
  have s: "bot_store b = s" by (simp add: b launch_def NewLogReplayEngine_def bootstrap_heap [OF run])
  obtain es g where g: "run UNIV w (launched 2 b) es g" "go_engine g = Syncing 9" "go_memory g = memory_of (bot_store b)"
    "go_cursor g = \<lparr>cu_tx = [], cu_block = 0, cu_index = 0\<rparr>" "go_dirty g = {}" using before_history by blast
  have so: "sort_logs [toy_flag] = [toy_flag]" by (rule sort_logs_id) simp
  let ?h = "g\<lparr>go_engine := Historic (sort_logs [toy_flag]) 9\<rparr>"
  have fl: "begin_log (w_keccak w) toy_flag = Acquire ''0x5a'' [] [(''0xa'', set_flag False)]" unfolding k by (rule flag_begins)
  have tx: "cu_tx (go_cursor g) \<noteq> log_TransactionHash toy_flag" unfolding g(4) by code_simp
  have pos: "log_block toy_flag = 8" by code_simp
  have "?h = engine_in g (Historic [toy_flag] 9) (go_cursor g) (go_view g)"
    by (intro system.equality) (simp_all add: engine_in_def so)
  moreover have fin: "finite (subs_raw (lv_store (go_view g)) a)" for a using bootstrap_finite [OF run] g(3) s by simp
  ultimately obtain es' g' where g': "run UNIV w ?h es' g'" "logs_received es' = []" "go_engine g' = Live" "mm_version (go_memory g') ''0x5a'' = 0"
    using flag_replayed [OF fl _ tx fin, of 9 UNIV g] g(3,5) pos by fastforce
  have sv: "serves ?get ?f" by (simp add: serves_def)
  have range: "[Suc (unat (7 :: u64))..<Suc (unat (9 :: u64))] = [8, 9]" by code_simp
  have c: "concat (map ?f [Suc (unat (7 :: u64))..<Suc (unat (9 :: u64))]) = [toy_flag]" unfolding range by simp
  have a: "anchorBlock (go_store g) = 7" using g(3) started_ledger(2) [OF m n u] by simp
  have nn: "unat (9 :: u64) + 10 < 2 ^ 64" "unat (7 :: u64) + 1 < 2 ^ 64" by simp_all
  have "unat (7 + 1 :: u64) = Suc (unat (7 :: u64))" by simp
  then have h: "fetchHistoricLogs ?get (anchorBlock (go_store g) + 1) 9 = Some (Some [toy_flag])"
    using fetchHistoricLogs_covers [OF sv nn(1), of "7 + 1"] unfolding a by (simp only: c)
  have o1: "\<And>n l. l \<in> set (?f n) \<Longrightarrow> unat (log_block l) = n" by (auto simp: pos split: if_splits)
  have o2: "\<And>n. sorted (map (\<lambda>l. unat (log_idx l)) (?f n))" by simp
  have ev: "event_of toy_keccak toy_flag = Some (CollateralSet False ''0xa'' ''0x5a'')" by code_simp
  have "ledger_row (ledger_of (go_store g')) ''0x5a'' =
      ledger_row (apply_event (CollateralSet False ''0xa'' ''0x5a'') (snapshot_ledger users (globalIndices (bot_store b)))) ''0x5a''"
    using undisturbed_user_is_chain [OF m n u g(1,2) sv h g'(1,3,4) nn o1 o2] unfolding c g'(2) k by (simp add: ev Let_def)
  then have "ledger_row (ledger_of (go_store g')) ''0x5a'' ''0xa'' = (5000, 0, False)"
    using row [of "globalIndices (bot_store b)"] by (simp add: apply_event_def ledger_row_def at_entry_def)
  moreover have "ledger_row (ledger_of (bot_store b)) ''0x5a'' ''0xa'' = (5000, 0, True)"
    using row started_ledger(1) [OF m n u] by simp
  ultimately show ?thesis using m g(1,2) g'(1,3) by blast
qed

end
